(* ===== verification/Prelude.thy ===== *)
theory Prelude
  imports Main "HOL-Library.Word" "HOL-Library.Char_ord" "HOL-Library.List_Lexorder"
    "HOL-Library.Multiset"
begin

text \<open>
  Shared material of the development: the model's basic types (bytes, heap blocks, C++ integer
  widths), results with undefined behaviour as an error value, the blit (copy into place) of bytes into a block, and
  \<open>std::map\<close> as a sorted association list behind the locale \<open>emplace_map\<close>.
\<close>

named_theorems wrap_simps \<open>C++ integer conversions on values that are in range\<close>
named_theorems heap_simps \<open>loads and stores on heap blocks\<close>
named_theorems omap_simps \<open>the ordered map\<close>

section \<open>C++ integers\<close>

text \<open>
  An \<open>int\<close> or \<open>int64_t\<close> expression is an \<open>int\<close> together with the two's complement wrap of its
  width, written where the source stores it into a narrower type or adds near the bound.
\<close>

definition i32 :: "int \<Rightarrow> int" where
  "i32 x = signed_take_bit 31 x"

definition i64 :: "int \<Rightarrow> int" where
  "i64 x = signed_take_bit 63 x"

lemma i32_id [wrap_simps]: "- 2147483648 \<le> x \<Longrightarrow> x < 2147483648 \<Longrightarrow> i32 x = x"
  by (simp add: i32_def signed_take_bit_int_eq_self_iff)

lemma i64_id [wrap_simps]:
  "- 9223372036854775808 \<le> x \<Longrightarrow> x < 9223372036854775808 \<Longrightarrow> i64 x = x"
  by (simp add: i64_def signed_take_bit_int_eq_self_iff)

text \<open>Conversion to \<open>size_t\<close>, as in the byte count of a system call or of \<open>memcpy\<close>.\<close>

definition size_t :: "int \<Rightarrow> nat" where
  "size_t x = nat (x mod 18446744073709551616)"

lemma size_t_id [wrap_simps]: "0 \<le> x \<Longrightarrow> x < 18446744073709551616 \<Longrightarrow> size_t x = nat x"
  by (simp add: size_t_def)

text \<open>Integer division of C++, which truncates towards zero.\<close>

definition trunc_div :: "int \<Rightarrow> int \<Rightarrow> int" where
  "trunc_div num den =
     (let q = \<bar>num\<bar> div \<bar>den\<bar> in if (num < 0) = (den < 0) then q else - q)"

lemma trunc_div_nonneg [wrap_simps]: "0 \<le> num \<Longrightarrow> 0 < den \<Longrightarrow> trunc_div num den = num div den"
  by (simp add: trunc_div_def)

section \<open>Results with undefined behaviour\<close>

text \<open>
  What a C++ run can do besides returning: dereference a null pointer, touch a freed block, leave
  the bounds of a block, free a block twice, fail a \<open>BOOST_ASSERT\<close>, or call an empty
  \<open>std::function\<close>.
\<close>

datatype ub = NullDeref | UseAfterFree | OutOfBounds | DoubleFree | AssertFail | BadFunctionCall | SignedOverflow

primrec bind_res :: "'err + 'v \<Rightarrow> ('v \<Rightarrow> 'err + 'w) \<Rightarrow> 'err + 'w" where
  "bind_res (Inr v) k = k v"
| "bind_res (Inl err) k = Inl err"

lemma bind_res_Inr_iff: "bind_res m f = Inr y \<longleftrightarrow> (\<exists>x. m = Inr x \<and> f x = Inr y)"
  by (cases m) simp_all

lemma map_sum_Inr_iff: "map_sum f g r = Inr y \<longleftrightarrow> (\<exists>x. r = Inr x \<and> y = g x)"
  by (cases r) auto

lemma bind_res_Inl_iff:
  "bind_res m f = Inl e \<longleftrightarrow> m = Inl e \<or> (\<exists>x. m = Inr x \<and> f x = Inl e)"
  by (cases m) simp_all

lemmas bind_res_iffs = bind_res_Inr_iff bind_res_Inl_iff

section \<open>Bytes and the heap\<close>

type_synonym byte = "8 word"
type_synonym bytes = "byte list"
type_synonym addr = nat
type_synonym heap = "addr \<rightharpoonup> bytes"

text \<open>\<open>blit off bs xs\<close>: the block \<open>xs\<close> with \<open>bs\<close> copied over it from position \<open>off\<close>.\<close>

definition blit :: "nat \<Rightarrow> 'a list \<Rightarrow> 'a list \<Rightarrow> 'a list" where
  "blit off bs xs = take off xs @ bs @ drop (off + length bs) xs"

lemma length_blit [simp]:
  "off + length bs \<le> length xs \<Longrightarrow> length (blit off bs xs) = length xs"
  by (simp add: blit_def)

lemma blit_Nil [simp]: "blit off [] xs = xs"
  by (simp add: blit_def)

lemma nth_blit:
  "off + length bs \<le> length xs \<Longrightarrow> i < length xs \<Longrightarrow>
   blit off bs xs ! i = (if off \<le> i \<and> i < off + length bs then bs ! (i - off) else xs ! i)"
  by (auto simp: blit_def nth_append min_def)

lemma take_drop_blit_same:
  "off \<le> length xs \<Longrightarrow> take (length bs) (drop off (blit off bs xs)) = bs"
  by (simp add: blit_def min_def)

lemma take_blit_before:
  "n \<le> off \<Longrightarrow> off \<le> length xs \<Longrightarrow> take n (blit off bs xs) = take n xs"
  by (simp add: blit_def min_def)

lemma drop_blit_after:
  "off + length bs \<le> n \<Longrightarrow> off \<le> length xs \<Longrightarrow> drop n (blit off bs xs) = drop n xs"
  by (simp add: blit_def min_def)

lemma blit_blit_adjacent:
  "off + length as + length bs \<le> length xs \<Longrightarrow>
   blit (off + length as) bs (blit off as xs) = blit off (as @ bs) xs"
  by (rule nth_equalityI) (auto simp: nth_blit nth_append)

text \<open>
  Scattered access: \<open>peek\<close> reads the listed positions of a block, \<open>poke\<close> writes them. A blit is a
  poke of an interval.
\<close>

definition peek :: "nat list \<Rightarrow> 'a list \<Rightarrow> 'a list" where
  "peek xs d = map (nth d) xs"

fun poke :: "nat list \<Rightarrow> 'a list \<Rightarrow> 'a list \<Rightarrow> 'a list" where
  "poke (x # xs) (b # bs) d = poke xs bs (d[x := b])"
| "poke _ _ d = d"

lemma length_peek [simp]: "length (peek xs d) = length xs"
  by (simp add: peek_def)

lemma peek_append: "peek (xs @ ys) d = peek xs d @ peek ys d"
  by (simp add: peek_def)

lemma peek_interval: "off + n \<le> length d \<Longrightarrow> peek [off..<off + n] d = take n (drop off d)"
  by (rule nth_equalityI) (auto simp: peek_def)

lemma interval_bound: "\<forall>x \<in> set [off..<off + n]. x < k \<Longrightarrow> n = 0 \<or> off + n \<le> (k::nat)"
  by (cases n) fastforce+

lemma length_poke [simp]: "length (poke xs bs d) = length d"
  by (induction xs bs d rule: poke.induct) auto

lemma poke_append:
  "length xs = length as \<Longrightarrow> poke (xs @ ys) (as @ bs) d = poke ys bs (poke xs as d)"
  by (induction xs as d rule: poke.induct) auto

lemma nth_poke_other: "y \<notin> set xs \<Longrightarrow> poke xs bs d ! y = d ! y"
  by (induction xs bs d rule: poke.induct) auto

lemma nth_poke:
  "distinct xs \<Longrightarrow> length xs = length bs \<Longrightarrow> i < length xs \<Longrightarrow> xs ! i < length d \<Longrightarrow>
   poke xs bs d ! (xs ! i) = bs ! i"
proof (induction xs bs d arbitrary: i rule: poke.induct)
  case (1 x xs b bs d)
  then show ?case
    by (cases i) (auto simp: nth_poke_other)
qed auto

lemma peek_poke_same:
  "distinct xs \<Longrightarrow> length xs = length bs \<Longrightarrow> \<forall>x \<in> set xs. x < length d \<Longrightarrow>
   peek xs (poke xs bs d) = bs"
  by (rule nth_equalityI) (auto simp: peek_def nth_poke)

lemma peek_poke_other: "set xs \<inter> set ys = {} \<Longrightarrow> peek xs (poke ys bs d) = peek xs d"
  by (simp add: peek_def nth_poke_other disjoint_iff)

lemma blit_poke: "off + length bs \<le> length d \<Longrightarrow> blit off bs d = poke [off..<off + length bs] bs d"
proof (rule nth_equalityI)
  fix i assume "off + length bs \<le> length d" "i < length (blit off bs d)"
  then show "blit off bs d ! i = poke [off..<off + length bs] bs d ! i"
    using nth_poke [of "[off..<off + length bs]" bs "i - off" d]
    by (auto simp: nth_blit nth_poke_other)
qed simp

text \<open>Reading and writing part of a heap block, as \<open>memcpy\<close> and \<open>pread\<close> do.\<close>

definition heap_load :: "heap \<Rightarrow> addr \<Rightarrow> nat \<Rightarrow> nat \<Rightarrow> ub + bytes" where
  "heap_load h a off n =
     (case h a of None \<Rightarrow> Inl UseAfterFree
      | Some b \<Rightarrow> if off + n \<le> length b then Inr (take n (drop off b)) else Inl OutOfBounds)"

definition heap_store :: "heap \<Rightarrow> addr \<Rightarrow> nat \<Rightarrow> bytes \<Rightarrow> ub + heap" where
  "heap_store h a off bs =
     (case h a of None \<Rightarrow> Inl UseAfterFree
      | Some b \<Rightarrow> if off + length bs \<le> length b then Inr (h(a \<mapsto> blit off bs b))
                  else Inl OutOfBounds)"

lemma heap_load_ok [heap_simps]:
  "h a = Some b \<Longrightarrow> off + n \<le> length b \<Longrightarrow> heap_load h a off n = Inr (take n (drop off b))"
  by (simp add: heap_load_def)

lemma heap_store_ok [heap_simps]:
  "h a = Some b \<Longrightarrow> off + length bs \<le> length b \<Longrightarrow>
   heap_store h a off bs = Inr (h(a \<mapsto> blit off bs b))"
  by (simp add: heap_store_def)

lemma if_upd_idem [simp]: "h a = Some b \<Longrightarrow> (\<lambda>x. if x = a then Some b else h x) = h"
  by auto

lemma if_upd_upd [simp]:
  "(\<lambda>x. if x = a then v else if x = a then w else h x) = (\<lambda>x. if x = a then v else h x)"
  by auto

lemma heap_store_Inr_iff:
  "heap_store h a off bs = Inr h' \<longleftrightarrow>
   (\<exists>b. h a = Some b \<and> off + length bs \<le> length b \<and> h' = h(a \<mapsto> blit off bs b))"
  by (auto simp: heap_store_def split: option.splits)

lemma heap_load_Inr_iff:
  "heap_load h a off n = Inr bs \<longleftrightarrow>
   (\<exists>b. h a = Some b \<and> off + n \<le> length b \<and> bs = take n (drop off b))"
  by (auto simp: heap_load_def split: option.splits)

section \<open>\<open>std::map\<close>\<close>

text \<open>
  A \<open>std::map\<close> is the list of its entries in key order: iteration is the list itself, \<open>emplace\<close>
  keeps the entry of a key that is present, \<open>erase\<close> removes the key.
\<close>

fun omap_emplace :: "'k::linorder \<Rightarrow> 'v \<Rightarrow> ('k \<times> 'v) list \<Rightarrow> ('k \<times> 'v) list" where
  "omap_emplace k v [] = [(k, v)]"
| "omap_emplace k v ((a, b) # m) =
     (if k < a then (k, v) # (a, b) # m
      else if k = a then (a, b) # m
      else (a, b) # omap_emplace k v m)"

fun omap_erase :: "'k::linorder \<Rightarrow> ('k \<times> 'v) list \<Rightarrow> ('k \<times> 'v) list" where
  "omap_erase k [] = []"
| "omap_erase k ((a, b) # m) = (if k = a then m else (a, b) # omap_erase k m)"

abbreviation omap_ok :: "('k::linorder \<times> 'v) list \<Rightarrow> bool" where
  "omap_ok m \<equiv> sorted_wrt (<) (map fst m)"

lemma omap_keys_emplace [omap_simps]: "fst ` set (omap_emplace k v m) = insert k (fst ` set m)"
  by (induction k v m rule: omap_emplace.induct) auto

lemma omap_ok_emplace [omap_simps]: "omap_ok m \<Longrightarrow> omap_ok (omap_emplace k v m)"
proof (induction k v m rule: omap_emplace.induct)
  case (2 k v a b m)
  then show ?case
    using omap_keys_emplace [of k v m] by (auto simp: image_iff)
qed simp

lemma omap_ok_distinct: "omap_ok m \<Longrightarrow> distinct (map fst m)"
  by (simp add: strict_sorted_iff)

lemma omap_keys_erase [omap_simps]:
  "omap_ok m \<Longrightarrow> fst ` set (omap_erase k m) = fst ` set m - {k}"
  by (induction k m rule: omap_erase.induct) auto

lemma omap_ok_erase [omap_simps]: "omap_ok m \<Longrightarrow> omap_ok (omap_erase k m)"
proof (induction k m rule: omap_erase.induct)
  case (2 k a b m)
  then show ?case
    using omap_keys_erase [of m k] by (auto simp: image_iff)
qed simp

lemma map_of_omap_emplace [omap_simps]:
  "omap_ok m \<Longrightarrow>
   map_of (omap_emplace k v m) x = (if x = k \<and> map_of m k = None then Some v else map_of m x)"
proof (induction k v m rule: omap_emplace.induct)
  case (2 k v a b m)
  have "map_of m k = None" if "k \<le> a"
    using "2.prems" that by (force simp: map_of_eq_None_iff)
  with 2 show ?case by auto
qed simp

lemma map_of_omap_erase [omap_simps]:
  "omap_ok m \<Longrightarrow> map_of (omap_erase k m) x = (if x = k then None else map_of m x)"
proof (induction k m rule: omap_erase.induct)
  case (2 k a b m)
  have "map_of m a = None"
    using "2.prems" by (force simp: map_of_eq_None_iff)
  with 2 show ?case by auto
qed simp

lemma length_omap_emplace [omap_simps]:
  "omap_ok m \<Longrightarrow>
   length (omap_emplace k v m) = (if map_of m k = None then Suc (length m) else length m)"
proof (induction k v m rule: omap_emplace.induct)
  case (2 k v a b m)
  have "map_of m k = None" if "k < a"
    using "2.prems" that by (force simp: map_of_eq_None_iff)
  with 2 show ?case by auto
qed simp

lemma length_omap_erase [omap_simps]:
  "length (omap_erase k m) = (if map_of m k = None then length m else length m - 1)"
proof (induction k m rule: omap_erase.induct)
  case (2 k a b m)
  then show ?case
    by (cases m) (auto split: if_splits)
qed simp

text \<open>
  The interface the components use: an insertion that keeps what is there, and the loop of
  insertions, in which the first value given for a key stays.
\<close>

locale emplace_map =
  fixes ok :: "'m \<Rightarrow> bool"
    and lookup :: "'m \<Rightarrow> 'k \<Rightarrow> 'v option"
    and emplace :: "'k \<Rightarrow> 'v \<Rightarrow> 'm \<Rightarrow> 'm"
    and erase :: "'k \<Rightarrow> 'm \<Rightarrow> 'm"
  assumes ok_emplace: "ok m \<Longrightarrow> ok (emplace k v m)"
    and ok_erase: "ok m \<Longrightarrow> ok (erase k m)"
    and lookup_emplace: "ok m \<Longrightarrow>
      lookup (emplace k v m) x = (if x = k \<and> lookup m k = None then Some v else lookup m x)"
    and lookup_erase: "ok m \<Longrightarrow> lookup (erase k m) x = (if x = k then None else lookup m x)"
begin

lemma ok_emplaces: "ok m \<Longrightarrow> ok (foldl (\<lambda>m kv. emplace (fst kv) (snd kv) m) m kvs)"
  by (induction kvs arbitrary: m) (auto simp: ok_emplace)

lemma lookup_emplaces:
  "ok m \<Longrightarrow>
   lookup (foldl (\<lambda>m kv. emplace (fst kv) (snd kv) m) m kvs) x =
     (case lookup m x of None \<Rightarrow> map_of kvs x | Some v \<Rightarrow> Some v)"
  by (induction kvs arbitrary: m) (auto simp: ok_emplace lookup_emplace split: option.splits)

lemma erase_emplace:
  "ok m \<Longrightarrow> lookup m k = None \<Longrightarrow> lookup (erase k (emplace k v m)) = lookup m"
  by (auto simp: ok_emplace lookup_emplace lookup_erase)

end

interpretation om: emplace_map
  "omap_ok :: ('k::linorder \<times> 'v) list \<Rightarrow> bool" map_of omap_emplace omap_erase
  by unfold_locales (simp_all add: omap_simps)

end
