(* ===== verification/Buffer_Pool.thy ===== *)
theory Buffer_Pool
  imports Prelude
begin

text \<open>
  The buffer pool (\<open>buffer_pool.hpp\<close>, \<open>buffer_pool.cpp\<close>): a counter of the 16 KiB blocks handed
  out, a sticky flag that is raised above the high watermark and lowered at the low one, and the
  observers to be told when it is lowered. Every method runs under the pool's mutex, so each is one
  function on the state. What \<open>malloc\<close> answers is the argument \<open>mres\<close>; the heap is explicit. The
  locale \<open>buffer_allocator\<close> is the contract \<open>raw_disk_io\<close> relies on.
\<close>

named_theorems pool_simps \<open>the pool's operations on well-formed pools\<close>

section \<open>Constants and state\<close>

definition MAX_BUFFER_POOL_SIZE :: "64 word" where
  "MAX_BUFFER_POOL_SIZE = 16 * 1024 * 1024"

definition DEFAULT_BLOCK_SIZE :: int where
  "DEFAULT_BLOCK_SIZE = 16 * 1024"

definition BUFFER_COUNT :: "64 word" where
  "BUFFER_COUNT = MAX_BUFFER_POOL_SIZE div word_of_int DEFAULT_BLOCK_SIZE"

definition LOW_WATERMARK :: "64 word" where
  "LOW_WATERMARK = MAX_BUFFER_POOL_SIZE div word_of_int DEFAULT_BLOCK_SIZE div 2"

definition HIGH_WATERMARK :: "64 word" where
  "HIGH_WATERMARK = MAX_BUFFER_POOL_SIZE div word_of_int DEFAULT_BLOCK_SIZE div 8 * 7"

type_synonym observer = nat

record buffer_pool =
  m_size :: "32 word"
  m_exceeded_max_size :: bool
  m_observers :: "observer list"

text \<open>The constructor. The io context the pool posts to belongs to the caller's state.\<close>

definition buffer_pool_init :: buffer_pool where
  "buffer_pool_init = \<lparr>m_size = 0, m_exceeded_max_size = False, m_observers = []\<rparr>"

text \<open>The conversion of the \<open>int\<close> member to the \<open>unsigned long long\<close> of the macros.\<close>

definition int_to_ull :: "32 word \<Rightarrow> 64 word" where
  "int_to_ull w = word_of_int (sint w)"

section \<open>Operations\<close>

text \<open>
  \<open>mres\<close> is \<open>None\<close> when \<open>malloc\<close> returns null and otherwise the new block with whatever bytes it
  happens to hold.
\<close>

definition allocate_buffer_impl ::
  "(addr \<times> bytes) option \<Rightarrow> heap \<Rightarrow> buffer_pool \<Rightarrow> addr option \<times> heap \<times> buffer_pool" where
  "allocate_buffer_impl mres h p =
     (if BUFFER_COUNT \<le> int_to_ull (m_size p) then (None, h, p\<lparr>m_exceeded_max_size := True\<rparr>)
      else
        let p1 = (if HIGH_WATERMARK < int_to_ull (m_size p)
                  then p\<lparr>m_exceeded_max_size := True\<rparr> else p)
        in case mres of
             None \<Rightarrow> (None, h, p1\<lparr>m_exceeded_max_size := True\<rparr>)
           | Some (buf, block) \<Rightarrow> (Some buf, h(buf \<mapsto> block), p1\<lparr>m_size := m_size p1 + 1\<rparr>))"

definition allocate_buffer ::
  "(addr \<times> bytes) option \<Rightarrow> heap \<Rightarrow> buffer_pool \<Rightarrow> addr option \<times> heap \<times> buffer_pool" where
  "allocate_buffer mres h p = allocate_buffer_impl mres h p"

text \<open>The overload with the out parameter \<open>exceeded\<close> and an observer, null as \<open>None\<close>.\<close>

definition allocate_buffer_observed ::
  "(addr \<times> bytes) option \<Rightarrow> bool \<Rightarrow> observer option \<Rightarrow> heap \<Rightarrow> buffer_pool
   \<Rightarrow> addr option \<times> bool \<times> heap \<times> buffer_pool" where
  "allocate_buffer_observed mres exceeded ob h p =
     (case allocate_buffer_impl mres h p of (buf, h1, p1) \<Rightarrow>
        if m_exceeded_max_size p1
        then (buf, True, h1,
              case ob of None \<Rightarrow> p1 | Some x \<Rightarrow> p1\<lparr>m_observers := m_observers p1 @ [x]\<rparr>)
        else (buf, exceeded, h1, p1))"

text \<open>The second component lists the callbacks posted to the io context, here at most one.\<close>

definition check_buffer_level :: "buffer_pool \<Rightarrow> buffer_pool \<times> observer list list" where
  "check_buffer_level p =
     (if \<not> m_exceeded_max_size p \<or> LOW_WATERMARK < int_to_ull (m_size p) then (p, [])
      else (p\<lparr>m_exceeded_max_size := False, m_observers := []\<rparr>, [m_observers p]))"

definition free_disk_buffer ::
  "addr \<Rightarrow> heap \<Rightarrow> buffer_pool \<Rightarrow> ub + heap \<times> buffer_pool \<times> observer list list" where
  "free_disk_buffer buf h p =
     (case h buf of None \<Rightarrow> Inl DoubleFree
      | Some _ \<Rightarrow> Inr (h(buf := None), check_buffer_level (p\<lparr>m_size := m_size p - 1\<rparr>)))"

text \<open>
  The posted callback: the observers that are still alive, in order, get \<open>on_disk\<close>; the result is
  the list of those calls. \<open>alive\<close> is what \<open>weak_ptr::lock\<close> finds when the callback runs.
\<close>

primrec watermark_callback :: "(observer \<Rightarrow> bool) \<Rightarrow> observer list \<Rightarrow> observer list" where
  "watermark_callback alive [] = []"
| "watermark_callback alive (i # cbs) =
     (if alive i then i # watermark_callback alive cbs else watermark_callback alive cbs)"

section \<open>Levels and watermarks as numbers\<close>

lemma watermark_values [pool_simps]:
  "BUFFER_COUNT = 1024" "LOW_WATERMARK = 512" "HIGH_WATERMARK = 896"
  by (simp_all add: BUFFER_COUNT_def LOW_WATERMARK_def HIGH_WATERMARK_def
      MAX_BUFFER_POOL_SIZE_def DEFAULT_BLOCK_SIZE_def)

text \<open>The number of blocks handed out, when the counter is in range.\<close>

definition lvl :: "32 word \<Rightarrow> nat" where
  "lvl w = nat (sint w)"

definition lvl_ok :: "32 word \<Rightarrow> bool" where
  "lvl_ok w \<longleftrightarrow> 0 \<le> sint w \<and> sint w \<le> 1024"

abbreviation pool_level :: "buffer_pool \<Rightarrow> nat" where
  "pool_level p \<equiv> lvl (m_size p)"

abbreviation pool_ok :: "buffer_pool \<Rightarrow> bool" where
  "pool_ok p \<equiv> lvl_ok (m_size p)"

lemma uint_int_to_ull: "0 \<le> sint w \<Longrightarrow> uint (int_to_ull w) = sint w"
proof -
  assume "0 \<le> sint w"
  moreover have "sint w < 2 ^ 31"
    using sint_lt [of w] by simp
  ultimately show ?thesis
    by (simp add: int_to_ull_def word_of_int_inverse uint_word_of_int take_bit_int_eq_self)
qed

lemma int_to_ull_less_iff [pool_simps]:
  "lvl_ok w \<Longrightarrow> numeral k < int_to_ull w \<longleftrightarrow> uint (numeral k :: 64 word) < int (lvl w)"
  by (simp add: word_less_def uint_int_to_ull lvl_ok_def lvl_def)

lemma int_to_ull_le_iff [pool_simps]:
  "lvl_ok w \<Longrightarrow> numeral k \<le> int_to_ull w \<longleftrightarrow> uint (numeral k :: 64 word) \<le> int (lvl w)"
  by (simp add: word_le_def uint_int_to_ull lvl_ok_def lvl_def)

lemma lvl_zero [pool_simps]: "lvl_ok 0" "lvl 0 = 0"
  by (simp_all add: lvl_ok_def lvl_def)

lemma lvl_zero_iff: "lvl_ok w \<and> lvl w = 0 \<longleftrightarrow> w = 0"
proof
  assume "lvl_ok w \<and> lvl w = 0"
  then have "sint w = 0" by (simp add: lvl_ok_def lvl_def)
  then show "w = 0" by (intro signed_word_eqI) simp
qed (simp add: lvl_ok_def lvl_def)

lemma lvl_le: "lvl_ok w \<Longrightarrow> lvl w \<le> 1024"
  by (auto simp: lvl_ok_def lvl_def)

lemma lvl_inc [pool_simps]:
  assumes "lvl_ok w" "lvl w < 1024"
  shows "lvl_ok (w + 1)" and "lvl (w + 1) = Suc (lvl w)"
proof -
  have "sint (w + 1) = sint w + 1"
    using assms by (simp add: lvl_ok_def lvl_def sint_word_add signed_take_bit_int_eq_self)
  then show "lvl_ok (w + 1)" "lvl (w + 1) = Suc (lvl w)"
    using assms by (auto simp: lvl_ok_def lvl_def nat_add_distrib)
qed

lemma lvl_dec [pool_simps]:
  assumes "lvl_ok w" "0 < lvl w"
  shows "lvl_ok (w - 1)" and "lvl (w - 1) = lvl w - 1"
proof -
  have "sint (w - 1) = sint w - 1"
    using assms by (simp add: lvl_ok_def lvl_def sint_word_diff signed_take_bit_int_eq_self)
  then show "lvl_ok (w - 1)" "lvl (w - 1) = lvl w - 1"
    using assms by (simp_all add: lvl_ok_def lvl_def)
qed

section \<open>The abstract gate\<close>

text \<open>
  What the pool promises: a counter with a closed flag that rises above 896, falls at 512 and is
  forced when a request is refused; closing collects waiters and opening releases all of them.
\<close>

record gate =
  g_level :: nat
  g_closed :: bool
  g_waiting :: "observer list"

definition gate_of :: "buffer_pool \<Rightarrow> gate" where
  "gate_of p = \<lparr>g_level = pool_level p, g_closed = m_exceeded_max_size p,
                g_waiting = m_observers p\<rparr>"

definition gate_take :: "bool \<Rightarrow> gate \<Rightarrow> bool \<times> gate" where
  "gate_take mem g =
     (if g_level g < 1024 \<and> mem
      then (True, g\<lparr>g_level := Suc (g_level g), g_closed := g_closed g \<or> 896 < g_level g\<rparr>)
      else (False, g\<lparr>g_closed := True\<rparr>))"

definition gate_wait :: "observer option \<Rightarrow> gate \<Rightarrow> gate" where
  "gate_wait ob g = (if g_closed g then g\<lparr>g_waiting := g_waiting g @ (case ob of None \<Rightarrow> [] | Some x \<Rightarrow> [x])\<rparr> else g)"

definition gate_put :: "gate \<Rightarrow> gate \<times> observer list list" where
  "gate_put g =
     (if g_closed g \<and> g_level g \<le> 513
      then (g\<lparr>g_level := g_level g - 1, g_closed := False, g_waiting := []\<rparr>, [g_waiting g])
      else (g\<lparr>g_level := g_level g - 1\<rparr>, []))"

lemma allocate_impl_gate:
  assumes "pool_ok p"
  shows "case allocate_buffer_impl mres h p of (buf, h', p') \<Rightarrow>
           gate_take (mres \<noteq> None) (gate_of p) = (buf \<noteq> None, gate_of p') \<and> pool_ok p'"
  using assms
  by (auto simp: allocate_buffer_impl_def gate_take_def gate_of_def Let_def pool_simps
      split: option.splits prod.splits)

lemma free_gate:
  assumes "pool_ok p" "0 < pool_level p" "h buf = Some b"
  shows "\<exists>p' posts. free_disk_buffer buf h p = Inr (h(buf := None), p', posts) \<and>
           gate_put (gate_of p) = (gate_of p', posts) \<and> pool_ok p'"
proof (cases "m_exceeded_max_size p \<and> pool_level p \<le> 513")
  case True
  with assms show ?thesis
    by (simp add: free_disk_buffer_def check_buffer_level_def gate_put_def gate_of_def pool_simps)
next
  case False
  with assms show ?thesis
    by (auto simp: free_disk_buffer_def check_buffer_level_def gate_put_def gate_of_def pool_simps)
qed

lemma watermark_callback_filter: "watermark_callback alive cbs = filter alive cbs"
  by (induction cbs) simp_all

section \<open>The allocator contract\<close>

text \<open>
  The blocks a client owns: live, pairwise distinct, of the size of a buffer. \<open>malloc\<close> answers
  with a block that is not live yet.
\<close>

definition owns :: "heap \<Rightarrow> addr list \<Rightarrow> bool" where
  "owns h own \<longleftrightarrow> distinct own \<and> (\<forall>a \<in> set own. \<exists>b. h a = Some b \<and> length b = 16384)"

definition malloc_ok :: "heap \<Rightarrow> (addr \<times> bytes) option \<Rightarrow> bool" where
  "malloc_ok h mres \<longleftrightarrow>
     (case mres of None \<Rightarrow> True | Some (a, b) \<Rightarrow> h a = None \<and> length b = 16384)"

lemma owns_Nil [simp]: "owns h []"
  by (simp add: owns_def)

lemma owns_fresh: "owns h own \<Longrightarrow> h a = None \<Longrightarrow> a \<notin> set own"
  by (auto simp: owns_def)

lemma owns_alloc:
  "owns h own \<Longrightarrow> malloc_ok h (Some (a, b)) \<Longrightarrow> owns (h(a \<mapsto> b)) (a # own)"
  by (auto simp: owns_def malloc_ok_def)

lemma owns_free: "owns h own \<Longrightarrow> owns (h(a := None)) (remove1 a own)"
  by (auto simp: owns_def)

lemma owns_live: "owns h own \<Longrightarrow> a \<in> set own \<Longrightarrow> \<exists>b. h a = Some b \<and> length b = 16384"
  by (simp add: owns_def)

text \<open>
  The contract of an allocator: its level counts the blocks handed out, never passes the capacity,
  and giving back a live block succeeds. A client that keeps a list of what it owns can rely on
  the level being the length of that list.
\<close>

locale buffer_allocator =
  fixes ok :: "'p \<Rightarrow> bool"
    and level :: "'p \<Rightarrow> nat"
    and cap :: nat
    and alloc :: "(addr \<times> bytes) option \<Rightarrow> heap \<Rightarrow> 'p \<Rightarrow> addr option \<times> heap \<times> 'p"
    and release :: "addr \<Rightarrow> heap \<Rightarrow> 'p \<Rightarrow> ub + heap \<times> 'p \<times> observer list list"
  assumes alloc_some: "ok p \<Longrightarrow> alloc m h p = (Some a, h', p') \<Longrightarrow>
      \<exists>b. m = Some (a, b) \<and> h' = h(a \<mapsto> b) \<and> ok p' \<and> level p' = Suc (level p) \<and> level p < cap"
    and alloc_none: "ok p \<Longrightarrow> alloc m h p = (None, h', p') \<Longrightarrow>
      h' = h \<and> ok p' \<and> level p' = level p"
    and release_live: "ok p \<Longrightarrow> 0 < level p \<Longrightarrow> h a = Some b \<Longrightarrow>
      \<exists>p' posts. release a h p = Inr (h(a := None), p', posts) \<and> ok p' \<and> level p' = level p - 1"
    and level_cap: "ok p \<Longrightarrow> level p \<le> cap"
begin

lemma alloc_ledger:
  assumes "ok p" "level p = length own" "owns h all" "malloc_ok h m"
    and "alloc m h p = (Some a, h', p')"
  shows "ok p' \<and> level p' = length (a # own) \<and> owns h' (a # all) \<and> a \<notin> set all \<and> h a = None"
  using alloc_some [OF assms(1,5)] assms(2-4)
  by (auto simp: malloc_ok_def intro: owns_alloc dest: owns_fresh)

lemma release_ledger:
  assumes "ok p" "level p = length own" "owns h all" "a \<in> set own" "set own \<subseteq> set all"
  shows "\<exists>p' posts. release a h p = Inr (h(a := None), p', posts) \<and> ok p' \<and>
           level p' = length (remove1 a own) \<and> owns (h(a := None)) (remove1 a all)"
proof -
  obtain b where "h a = Some b"
    using owns_live [OF assms(3)] assms(4,5) by blast
  moreover have "0 < level p"
    using assms(2,4) by (cases own) auto
  ultimately obtain p' posts where "release a h p = Inr (h(a := None), p', posts)" "ok p'"
      "level p' = level p - 1"
    using release_live [OF assms(1), of h a b] by blast
  moreover have "owns (h(a := None)) (remove1 a all)"
    by (rule owns_free [OF assms(3)])
  ultimately show ?thesis
    using assms(2,4) by (simp add: length_remove1)
qed

lemma release_enabled:
  assumes "ok p" "level p = length own" "owns h own" "a \<in> set own"
  shows "\<exists>r. release a h p = Inr r"
  using release_ledger [OF assms(1-4)] by blast

end

lemma allocate_buffer_some:
  assumes "pool_ok p" "allocate_buffer m h p = (Some a, h', p')"
  shows "\<exists>b. m = Some (a, b) \<and> h' = h(a \<mapsto> b) \<and> pool_ok p' \<and>
           pool_level p' = Suc (pool_level p) \<and> pool_level p < 1024"
  using assms
  by (auto simp: allocate_buffer_def allocate_buffer_impl_def Let_def pool_simps
      split: option.splits if_splits)

lemma allocate_buffer_none:
  assumes "pool_ok p" "allocate_buffer m h p = (None, h', p')"
  shows "h' = h \<and> pool_ok p' \<and> pool_level p' = pool_level p"
  using assms
  by (auto simp: allocate_buffer_def allocate_buffer_impl_def Let_def pool_simps
      split: option.splits if_splits)

lemma free_disk_buffer_live:
  assumes "pool_ok p" "0 < pool_level p" "h a = Some b"
  shows "\<exists>p' posts. free_disk_buffer a h p = Inr (h(a := None), p', posts) \<and> pool_ok p' \<and>
           pool_level p' = pool_level p - 1"
  using free_gate [OF assms(1,2), of h a b] assms(3)
  by (auto simp: gate_put_def gate_of_def split: if_splits)

interpretation bp: buffer_allocator "\<lambda>p. pool_ok p" "\<lambda>p. pool_level p" 1024
  allocate_buffer free_disk_buffer
  using allocate_buffer_some allocate_buffer_none free_disk_buffer_live
  by unfold_locales (blast, blast, blast, simp add: lvl_le)

text \<open>The overload with an observer obeys the same contract.\<close>

definition allocate_observed ::
  "observer option \<Rightarrow> (addr \<times> bytes) option \<Rightarrow> heap \<Rightarrow> buffer_pool
   \<Rightarrow> addr option \<times> heap \<times> buffer_pool" where
  "allocate_observed ob m h p =
     (case allocate_buffer_observed m False ob h p of (buf, exceeded, h', p') \<Rightarrow> (buf, h', p'))"

lemma allocate_observed_impl:
  "allocate_observed ob m h p =
     (case allocate_buffer m h p of (buf, h', p') \<Rightarrow>
        (buf, h', if m_exceeded_max_size p'
                  then p'\<lparr>m_observers := m_observers p' @ (case ob of None \<Rightarrow> [] | Some x \<Rightarrow> [x])\<rparr>
                  else p'))"
  by (simp add: allocate_observed_def allocate_buffer_observed_def allocate_buffer_def
      split: prod.splits option.splits)

interpretation bpo: buffer_allocator "\<lambda>p. pool_ok p" "\<lambda>p. pool_level p" 1024
  "allocate_observed ob" free_disk_buffer for ob
proof unfold_locales
  fix p m h a h' p'
  assume "pool_ok p" "allocate_observed ob m h p = (Some a, h', p')"
  then show "\<exists>b. m = Some (a, b) \<and> h' = h(a \<mapsto> b) \<and> pool_ok p' \<and>
      pool_level p' = Suc (pool_level p) \<and> pool_level p < 1024"
    by (auto simp: allocate_observed_impl split: prod.splits dest: allocate_buffer_some)
next
  fix p m h h' p'
  assume "pool_ok p" "allocate_observed ob m h p = (None, h', p')"
  then show "h' = h \<and> pool_ok p' \<and> pool_level p' = pool_level p"
    by (auto simp: allocate_observed_impl split: prod.splits dest: allocate_buffer_none)
qed (use free_disk_buffer_live lvl_le in auto)

section \<open>Reachable pools\<close>

text \<open>
  The pool under a client that gives back only what it holds. \<open>mf\<close> says whether \<open>malloc\<close> may fail;
  the last argument is what the client holds.
\<close>

inductive pool_reach :: "bool \<Rightarrow> heap \<Rightarrow> buffer_pool \<Rightarrow> addr list \<Rightarrow> bool" for mf where
  start: "pool_reach mf h buffer_pool_init []"
| alloc: "pool_reach mf h p own \<Longrightarrow> malloc_ok h m \<Longrightarrow> (m = None \<Longrightarrow> mf) \<Longrightarrow>
    allocate_buffer m h p = (r, h', p') \<Longrightarrow>
    pool_reach mf h' p' (case r of None \<Rightarrow> own | Some a \<Rightarrow> a # own)"
| alloc_observed: "pool_reach mf h p own \<Longrightarrow> malloc_ok h m \<Longrightarrow> (m = None \<Longrightarrow> mf) \<Longrightarrow>
    allocate_buffer_observed m False ob h p = (r, exceeded, h', p') \<Longrightarrow>
    pool_reach mf h' p' (case r of None \<Rightarrow> own | Some a \<Rightarrow> a # own)"
| free: "pool_reach mf h p own \<Longrightarrow> a \<in> set own \<Longrightarrow>
    free_disk_buffer a h p = Inr (h', p', posts) \<Longrightarrow>
    pool_reach mf h' p' (remove1 a own)"

definition pool_inv :: "heap \<Rightarrow> buffer_pool \<Rightarrow> addr list \<Rightarrow> bool" where
  "pool_inv h p own \<longleftrightarrow> pool_ok p \<and> pool_level p = length own \<and> owns h own"

lemma pool_inv_alloc:
  assumes "pool_inv h p own" "malloc_ok h m" "allocate_buffer m h p = (r, h', p')"
  shows "pool_inv h' p' (case r of None \<Rightarrow> own | Some a \<Rightarrow> a # own)"
  using assms bp.alloc_none [of p m h h' p'] bp.alloc_ledger [of p own h own m _ h' p']
  by (auto simp: pool_inv_def split: option.splits)

lemma pool_inv_observed:
  assumes "pool_inv h p own" "malloc_ok h m"
    and "allocate_buffer_observed m False ob h p = (r, exceeded, h', p')"
  shows "pool_inv h' p' (case r of None \<Rightarrow> own | Some a \<Rightarrow> a # own)"
proof -
  have "allocate_observed ob m h p = (r, h', p')"
    using assms(3) by (simp add: allocate_observed_def)
  then show ?thesis
    using assms(1,2) bpo.alloc_none [of p ob m h h' p'] bpo.alloc_ledger [of p own h own m ob _ h' p']
    by (auto simp: pool_inv_def split: option.splits)
qed

lemma pool_inv_free:
  assumes "pool_inv h p own" "a \<in> set own" "free_disk_buffer a h p = Inr (h', p', posts)"
  shows "pool_inv h' p' (remove1 a own)"
  using assms bp.release_ledger [of p own h own a] by (auto simp: pool_inv_def)

lemma pool_reach_inv: "pool_reach mf h p own \<Longrightarrow> pool_inv h p own"
proof (induction rule: pool_reach.induct)
  case (start h)
  show ?case by (simp add: pool_inv_def buffer_pool_init_def pool_simps)
qed (auto intro: pool_inv_alloc pool_inv_observed pool_inv_free)

text \<open>
  The flag and the waiters. While \<open>malloc\<close> does not fail, a raised flag means more than 512 blocks
  are out; nobody waits on a lowered flag in any case.
\<close>

definition gate_inv :: "bool \<Rightarrow> buffer_pool \<Rightarrow> bool" where
  "gate_inv mf p \<longleftrightarrow>
     (m_exceeded_max_size p \<longrightarrow> mf \<or> 512 < pool_level p) \<and>
     (m_observers p \<noteq> [] \<longrightarrow> m_exceeded_max_size p)"

lemma gate_inv_alloc:
  assumes "gate_inv mf p" "pool_ok p" "m = None \<Longrightarrow> mf" "allocate_buffer m h p = (r, h', p')"
  shows "gate_inv mf p'"
  using assms
  by (auto simp: gate_inv_def allocate_buffer_def allocate_buffer_impl_def Let_def pool_simps
      split: option.splits if_splits)

lemma gate_inv_observed:
  assumes "gate_inv mf p" "pool_ok p" "m = None \<Longrightarrow> mf"
    and "allocate_buffer_observed m False ob h p = (r, exceeded, h', p')"
  shows "gate_inv mf p'"
proof -
  obtain p1 where "allocate_buffer m h p = (r, h', p1)"
    and "p' = p1 \<or> m_exceeded_max_size p1 \<and> (\<exists>x. p' = p1\<lparr>m_observers := m_observers p1 @ [x]\<rparr>)"
    using assms(4)
    by (auto simp: allocate_buffer_observed_def allocate_buffer_def
        split: prod.splits option.splits if_splits)
  with gate_inv_alloc [where m = m, OF assms(1-3)] show ?thesis
    by (fastforce simp: gate_inv_def)
qed

lemma gate_inv_free:
  assumes "gate_inv mf p" "pool_ok p" "0 < pool_level p"
    and "free_disk_buffer a h p = Inr (h', p', posts)"
  shows "gate_inv mf p'"
  using assms
  by (auto simp: gate_inv_def free_disk_buffer_def check_buffer_level_def pool_simps
      split: option.splits if_splits)

lemma pool_reach_gate: "pool_reach mf h p own \<Longrightarrow> gate_inv mf p"
proof (induction rule: pool_reach.induct)
  case (start h)
  show ?case by (simp add: gate_inv_def buffer_pool_init_def)
next
  case (alloc h p own m r h' p')
  then show ?case
    using pool_reach_inv [OF alloc.hyps(1)] by (auto simp: pool_inv_def intro: gate_inv_alloc)
next
  case (alloc_observed h p own m ob r exceeded h' p')
  then show ?case
    using pool_reach_inv [OF alloc_observed.hyps(1)]
    by (auto simp: pool_inv_def intro: gate_inv_observed)
next
  case (free h p own a h' p' posts)
  then have "pool_ok p" "0 < pool_level p"
    using pool_reach_inv [OF free.hyps(1)] by (auto simp: pool_inv_def length_pos_if_in_set)
  with free show ?case by (blast intro: gate_inv_free)
qed

text \<open>Giving back a list of blocks one after the other, collecting what is posted.\<close>

primrec free_all ::
  "addr list \<Rightarrow> heap \<Rightarrow> buffer_pool \<Rightarrow> ub + heap \<times> buffer_pool \<times> observer list list" where
  "free_all [] h p = Inr (h, p, [])"
| "free_all (a # as) h p =
     bind_res (free_disk_buffer a h p) (\<lambda>(h1, p1, q1).
       bind_res (free_all as h1 p1) (\<lambda>(h2, p2, q2). Inr (h2, p2, q1 @ q2)))"

lemma free_above_low:
  assumes "pool_inv h p own" "a \<in> set own" "513 < length own"
  shows "\<exists>h' p'. free_disk_buffer a h p = Inr (h', p', []) \<and> pool_inv h' p' (remove1 a own) \<and>
           m_exceeded_max_size p' = m_exceeded_max_size p \<and> m_observers p' = m_observers p"
proof -
  obtain b where b: "h a = Some b"
    using assms(1,2) by (auto simp: pool_inv_def dest: owns_live)
  then have *: "free_disk_buffer a h p = Inr (h(a := None), p\<lparr>m_size := m_size p - 1\<rparr>, [])"
    using assms lvl_dec [of "m_size p"] length_pos_if_in_set [OF assms(2)]
    by (auto simp: free_disk_buffer_def check_buffer_level_def pool_inv_def pool_simps)
  show ?thesis
    using * pool_inv_free [OF assms(1,2) *] by simp
qed

lemma free_at_low:
  assumes "pool_inv h p own" "a \<in> set own" "length own = 513" "m_exceeded_max_size p"
  shows "\<exists>h' p'. free_disk_buffer a h p = Inr (h', p', [m_observers p]) \<and>
           pool_inv h' p' (remove1 a own) \<and> \<not> m_exceeded_max_size p' \<and> m_observers p' = []"
proof -
  obtain b where b: "h a = Some b"
    using assms(1,2) by (auto simp: pool_inv_def dest: owns_live)
  then have *: "free_disk_buffer a h p = Inr (h(a := None),
      p\<lparr>m_size := m_size p - 1, m_exceeded_max_size := False, m_observers := []\<rparr>, [m_observers p])"
    using assms by (auto simp: free_disk_buffer_def check_buffer_level_def pool_inv_def pool_simps)
  show ?thesis
    using * pool_inv_free [OF assms(1,2) *] by simp
qed

lemma free_all_to_low:
  assumes "pool_inv h p own" "m_exceeded_max_size p" "distinct as" "set as \<subseteq> set own"
    and "length own = length as + 512" "as \<noteq> []"
  shows "\<exists>h' p'. free_all as h p = Inr (h', p', [m_observers p]) \<and>
           \<not> m_exceeded_max_size p' \<and> m_observers p' = [] \<and> pool_level p' = 512"
  using assms
proof (induction as arbitrary: h p own)
  case Nil
  then show ?case by simp
next
  case (Cons a as)
  show ?case
  proof (cases "as = []")
    case True
    with Cons.prems obtain h' p' where
      "free_disk_buffer a h p = Inr (h', p', [m_observers p])" "pool_inv h' p' (remove1 a own)"
      "\<not> m_exceeded_max_size p'" "m_observers p' = []"
      using free_at_low [of h p own a] by auto
    with True Cons.prems show ?thesis
      by (simp add: pool_inv_def length_remove1)
  next
    case False
    with Cons.prems have "513 < length own" by (cases as) auto
    with Cons.prems obtain h1 p1 where 1: "free_disk_buffer a h p = Inr (h1, p1, [])"
      "pool_inv h1 p1 (remove1 a own)" "m_exceeded_max_size p1" "m_observers p1 = m_observers p"
      using free_above_low [of h p own a] by auto
    have "set as \<subseteq> set (remove1 a own)"
      using Cons.prems by (auto simp: set_remove1_eq pool_inv_def owns_def)
    with Cons.prems False 1 Cons.IH [OF 1(2,3)] show ?thesis
      by (auto simp: length_remove1)
  qed
qed

text \<open>Filling the pool: every level up to the capacity is reachable without a \<open>malloc\<close> failure.\<close>

lemma pool_fill:
  "n \<le> 1024 \<Longrightarrow> \<exists>h p. pool_reach False h p (rev [0..<n]) \<and> dom h = {..<n} \<and>
     m_observers p = [] \<and> (897 < n \<longrightarrow> m_exceeded_max_size p)"
proof (induction n)
  case 0
  show ?case
    using pool_reach.start [of False Map.empty] by (auto simp: buffer_pool_init_def)
next
  case (Suc n)
  then obtain h p where r: "pool_reach False h p (rev [0..<n])" "dom h = {..<n}"
      "m_observers p = []" "897 < n \<longrightarrow> m_exceeded_max_size p"
    by auto
  let ?m = "Some (n, replicate 16384 0) :: (addr \<times> bytes) option"
  let ?p = "if 896 < n then p\<lparr>m_exceeded_max_size := True\<rparr> else p"
  have "pool_ok p" "pool_level p = n"
    using pool_reach_inv [OF r(1)] by (simp_all add: pool_inv_def)
  then have a: "allocate_buffer ?m h p =
      (Some n, h(n \<mapsto> replicate 16384 0), ?p\<lparr>m_size := m_size p + 1\<rparr>)"
    using Suc.prems by (simp add: allocate_buffer_def allocate_buffer_impl_def pool_simps)
  moreover have "malloc_ok h ?m"
    using r(2) by (auto simp: malloc_ok_def domIff)
  ultimately have "pool_reach False (h(n \<mapsto> replicate 16384 0)) (?p\<lparr>m_size := m_size p + 1\<rparr>) (rev [0..<Suc n])"
    using pool_reach.alloc [OF r(1) _ _ a] by simp
  moreover have "dom (h(n \<mapsto> replicate 16384 0)) = {..<Suc n}"
    using r(2) by (simp add: lessThan_Suc)
  moreover have "m_observers (?p\<lparr>m_size := m_size p + 1\<rparr>) = []"
    "897 < Suc n \<longrightarrow> m_exceeded_max_size (?p\<lparr>m_size := m_size p + 1\<rparr>)"
    using r(3) by simp_all
  ultimately show ?case by blast
qed

section \<open>Properties of the buffer pool\<close>

text \<open>In every reachable pool the counter is exactly the number of blocks the client holds, at
  most 1024 blocks are out, all of them are live and distinct, and every one of them can be given
  back without a double free, even when \<open>malloc\<close> fails at times.\<close>

theorem pool_accounting:
  assumes "pool_reach mf h p own"
  shows "sint (m_size p) = int (length own) \<and> length own \<le> 1024 \<and> owns h own \<and>
         (\<forall>a \<in> set own. \<exists>r. free_disk_buffer a h p = Inr r)"
proof -
  have inv: "pool_inv h p own"
    by (rule pool_reach_inv [OF assms])
  have "\<exists>r. free_disk_buffer a h p = Inr r" if "a \<in> set own" for a
    using inv that bp.release_enabled [of p own h a] by (simp add: pool_inv_def)
  with inv bp.level_cap [of p] show ?thesis
    by (auto simp: pool_inv_def lvl_def lvl_ok_def)
qed

theorem pool_accounting_witness:
  "pool_reach True Map.empty buffer_pool_init [] \<and> sint (m_size buffer_pool_init) = 0"
proof -
  have "pool_reach True Map.empty buffer_pool_init []"
    by (rule pool_reach.start)
  with pool_accounting [OF this] show ?thesis by simp
qed

text \<open>C28: The pool refines the abstract gate: an allocation is a \<open>gate_take\<close>, and one with an
  observer also queues that observer when the gate is closed, reporting \<open>exceeded\<close> exactly when it
  is closed. Both hold on every branch, with the 64-bit unsigned comparisons of the source.\<close>

theorem allocate_refines_gate:
  assumes "pool_ok p"
  shows "case allocate_buffer_observed mres False ob h p of (buf, exceeded, h', p') \<Rightarrow>
           (case gate_take (mres \<noteq> None) (gate_of p) of (granted, g) \<Rightarrow>
              granted = (buf \<noteq> None) \<and> exceeded = g_closed g \<and> gate_of p' = gate_wait ob g)"
  using allocate_impl_gate [OF assms, of mres h]
  by (auto simp: allocate_buffer_observed_def gate_wait_def gate_of_def split: prod.splits option.splits)

theorem allocate_refines_gate_witness:
  "pool_ok buffer_pool_init \<and>
   (case allocate_buffer_observed None False (Some 7) Map.empty buffer_pool_init of
      (buf, exceeded, h', p') \<Rightarrow> buf = None \<and> exceeded)"
proof -
  have ok: "pool_ok buffer_pool_init"
    by (simp add: buffer_pool_init_def pool_simps)
  with allocate_refines_gate [OF ok, where mres = None and h = Map.empty and ob = "Some 7"] show ?thesis
    by (simp add: gate_take_def split: prod.splits)
qed

text \<open>When the flag is raised, giving back blocks posts nothing until 512 are left, and then
  posts exactly one callback that carries every waiting observer; the flag is lowered and the list
  of observers is empty afterwards.\<close>

theorem pool_drain_wakes_observers:
  assumes "pool_reach mf h p own" "m_exceeded_max_size p" "distinct as" "set as \<subseteq> set own"
    and "512 < length own" "length as = length own - 512"
  shows "\<exists>h' p'. free_all as h p = Inr (h', p', [m_observers p]) \<and>
           \<not> m_exceeded_max_size p' \<and> m_observers p' = [] \<and> pool_level p' = 512"
proof -
  have "length own = length as + 512" "as \<noteq> []"
    using assms(5,6) by auto
  then show ?thesis
    by (rule free_all_to_low [OF pool_reach_inv [OF assms(1)] assms(2-4)])
qed

theorem pool_drain_wakes_observers_witness:
  "\<exists>h p own as. pool_reach False h p own \<and> m_exceeded_max_size p \<and> distinct as \<and>
     set as \<subseteq> set own \<and> length as = length own - 512 \<and> length own = 900 \<and>
     (\<exists>h' p'. free_all as h p = Inr (h', p', [m_observers p]) \<and> \<not> m_exceeded_max_size p')"
proof -
  obtain h p where r: "pool_reach False h p (rev [0..<900])" "m_exceeded_max_size p"
    using pool_fill [of 900] by auto
  have "\<exists>h' p'. free_all [0..<388] h p = Inr (h', p', [m_observers p]) \<and>
      \<not> m_exceeded_max_size p' \<and> m_observers p' = [] \<and> pool_level p' = 512"
    by (rule pool_drain_wakes_observers [OF r]) auto
  with r show ?thesis
    by (intro exI [of _ h] exI [of _ p] exI [of _ "rev [0..<900]"] exI [of _ "[0..<388]"]) auto
qed

text \<open>While \<open>malloc\<close> does not fail, an observer that waits is never left behind: the flag is
  raised, so more than 512 blocks are out and returning them will reach the low watermark.\<close>

theorem pool_waiters_will_be_woken:
  assumes "pool_reach False h p own" "m_observers p \<noteq> []"
  shows "m_exceeded_max_size p \<and> 512 < length own"
  using pool_reach_gate [OF assms(1)] pool_reach_inv [OF assms(1)] assms(2)
  by (auto simp: gate_inv_def pool_inv_def)

theorem pool_waiters_will_be_woken_witness:
  "\<exists>h p own. pool_reach False h p own \<and> m_observers p = [7] \<and>
     m_exceeded_max_size p \<and> 512 < length own"
proof -
  obtain h p where r: "pool_reach False h p (rev [0..<900])" "m_exceeded_max_size p"
      "dom h = {..<900}" "m_observers p = []"
    using pool_fill [of 900] by auto
  let ?m = "Some (900, replicate 16384 0) :: (addr \<times> bytes) option"
  obtain b e h' p' where a: "allocate_buffer_observed ?m False (Some 7) h p = (b, e, h', p')"
    by (metis prod_cases4)
  have "malloc_ok h ?m"
    using r(3) by (auto simp: malloc_ok_def domIff)
  then have r': "pool_reach False h' p' (case b of None \<Rightarrow> rev [0..<900] | Some a \<Rightarrow> a # rev [0..<900])"
    using pool_reach.alloc_observed [OF r(1) _ _ a] by simp
  moreover have obs: "m_observers p' = [7]"
    using a r(2,4)
    by (auto simp: allocate_buffer_observed_def allocate_buffer_impl_def Let_def
        split: prod.splits if_splits option.splits)
  ultimately show ?thesis
    using pool_waiters_will_be_woken [OF r'] by fastforce
qed

end
