(* ===== verification/Store_Buffer.thy ===== *)
theory Store_Buffer
  imports Prelude
begin

text \<open>
  The store buffer (\<open>store_buffer.hpp\<close>): the index of blocks that have been accepted for writing
  but are not on disk yet, keyed by torrent, piece and offset. Each method holds the mutex
  throughout, its callback included, so each is one function on the state. The locale
  \<open>block_index\<close> is what \<open>raw_disk_io\<close> relies on: with the pending writers listed beside it, every
  entry is backed by a pending writer of the same block.
\<close>

named_theorems sb_simps \<open>store buffer operations\<close>

section \<open>Keys\<close>

datatype torrent_location =
  torrent_location (loc_torrent: int) (loc_piece: int) (loc_offset: int)

text \<open>\<open>operator==\<close>: comparison of the tied members.\<close>

definition torrent_location_eq :: "torrent_location \<Rightarrow> torrent_location \<Rightarrow> bool" where
  "torrent_location_eq lhs rhs \<longleftrightarrow>
     (loc_torrent lhs, loc_piece lhs, loc_offset lhs) =
     (loc_torrent rhs, loc_piece rhs, loc_offset rhs)"

text \<open>
  The hash. \<open>boost::hash_combine\<close> and the three \<open>std::hash\<close> instances are arguments.
\<close>

definition hash_torrent_location ::
  "('n::zero \<Rightarrow> 'n \<Rightarrow> 'n) \<Rightarrow> (int \<Rightarrow> 'n) \<Rightarrow> (int \<Rightarrow> 'n) \<Rightarrow> (int \<Rightarrow> 'n) \<Rightarrow> torrent_location \<Rightarrow> 'n"
  where
  "hash_torrent_location hash_combine hash_storage hash_piece hash_int l =
     (let ret = 0;
          ret = hash_combine ret (hash_storage (loc_torrent l));
          ret = hash_combine ret (hash_piece (loc_piece l));
          ret = hash_combine ret (hash_int (loc_offset l))
      in ret)"

lemma torrent_location_eq_iff [simp]: "torrent_location_eq l r \<longleftrightarrow> l = r"
  by (cases l; cases r) (simp add: torrent_location_eq_def)

text \<open>Keys that \<open>operator==\<close> identifies have the same hash, as \<open>unordered_map\<close> requires.\<close>

lemma hash_torrent_location_cong:
  "torrent_location_eq l r \<Longrightarrow>
   hash_torrent_location hc hs hp hi l = hash_torrent_location hc hs hp hi r"
  by simp

section \<open>Operations\<close>

record store_buffer =
  m_store_buffer :: "(torrent_location \<times> addr) list"

definition store_buffer_init :: store_buffer where
  "store_buffer_init = \<lparr>m_store_buffer = []\<rparr>"

text \<open>\<open>unordered_map::find\<close>, with the key comparison of the source.\<close>

fun find_entry :: "torrent_location \<Rightarrow> (torrent_location \<times> addr) list \<Rightarrow> addr option" where
  "find_entry loc [] = None"
| "find_entry loc ((k, buf) # m) =
     (if torrent_location_eq k loc then Some buf else find_entry loc m)"

fun remove_entry ::
  "torrent_location \<Rightarrow> (torrent_location \<times> addr) list \<Rightarrow> (torrent_location \<times> addr) list" where
  "remove_entry loc [] = []"
| "remove_entry loc ((k, buf) # m) =
     (if torrent_location_eq k loc then m else (k, buf) # remove_entry loc m)"

text \<open>
  \<open>get\<close> runs the callback on the buffer of the block, if there is one. What the callback changes
  is the state \<open>s\<close>.
\<close>

definition get :: "torrent_location \<Rightarrow> (addr \<Rightarrow> 's \<Rightarrow> 's) \<Rightarrow> store_buffer \<Rightarrow> 's \<Rightarrow> bool \<times> 's" where
  "get loc f sb s =
     (case find_entry loc (m_store_buffer sb) of
        Some buf \<Rightarrow> (True, f buf s)
      | None \<Rightarrow> (False, s))"

definition get2 ::
  "torrent_location \<Rightarrow> torrent_location \<Rightarrow> (addr option \<Rightarrow> addr option \<Rightarrow> 's \<Rightarrow> int \<times> 's)
   \<Rightarrow> store_buffer \<Rightarrow> 's \<Rightarrow> int \<times> 's" where
  "get2 loc1 loc2 f sb s =
     (let buf1 = find_entry loc1 (m_store_buffer sb);
          buf2 = find_entry loc2 (m_store_buffer sb)
      in if buf1 = None \<and> buf2 = None then (0, s) else f buf1 buf2 s)"

text \<open>\<open>unordered_map::insert\<close> does nothing when the key is present.\<close>

definition insert_block :: "torrent_location \<Rightarrow> addr \<Rightarrow> store_buffer \<Rightarrow> store_buffer" where
  "insert_block loc buf sb =
     (case find_entry loc (m_store_buffer sb) of
        None \<Rightarrow> sb\<lparr>m_store_buffer := (loc, buf) # m_store_buffer sb\<rparr>
      | Some _ \<Rightarrow> sb)"

definition erase_block :: "torrent_location \<Rightarrow> store_buffer \<Rightarrow> store_buffer" where
  "erase_block loc sb =
     (case find_entry loc (m_store_buffer sb) of
        None \<Rightarrow> sb
      | Some _ \<Rightarrow> sb\<lparr>m_store_buffer := remove_entry loc (m_store_buffer sb)\<rparr>)"

definition size_blocks :: "store_buffer \<Rightarrow> nat" where
  "size_blocks sb = length (m_store_buffer sb)"

abbreviation lookup_block :: "store_buffer \<Rightarrow> torrent_location \<Rightarrow> addr option" where
  "lookup_block sb loc \<equiv> find_entry loc (m_store_buffer sb)"

definition store_buffer_ok :: "store_buffer \<Rightarrow> bool" where
  "store_buffer_ok sb \<longleftrightarrow> distinct (map fst (m_store_buffer sb))"

section \<open>The index contract\<close>

lemma find_entry_map_of: "find_entry loc m = map_of m loc"
  by (induction loc m rule: find_entry.induct) auto

lemma remove_entry_filter:
  "distinct (map fst m) \<Longrightarrow> remove_entry loc m = filter (\<lambda>e. fst e \<noteq> loc) m"
proof (induction loc m rule: remove_entry.induct)
  case (2 loc k buf m)
  then have "filter (\<lambda>e. fst e \<noteq> k) m = m"
    by (intro filter_True) (auto simp: image_iff)
  with 2 show ?case by auto
qed simp

lemma set_remove_entry: "set (remove_entry loc m) \<subseteq> set m"
  by (induction loc m rule: remove_entry.induct) auto

lemma lookup_insert_block [sb_simps]:
  "lookup_block (insert_block loc buf sb) x =
     (if x = loc \<and> lookup_block sb loc = None then Some buf else lookup_block sb x)"
  by (auto simp: insert_block_def split: option.splits)

lemma map_of_filter_key:
  "map_of (filter (\<lambda>e. fst e \<noteq> k) m) x = (if x = k then None else map_of m x)"
  by (induction m) auto

lemma lookup_erase_block [sb_simps]:
  "store_buffer_ok sb \<Longrightarrow>
   lookup_block (erase_block loc sb) x = (if x = loc then None else lookup_block sb x)"
  by (auto simp: erase_block_def store_buffer_ok_def remove_entry_filter find_entry_map_of
      map_of_filter_key split: option.splits)

lemma store_buffer_ok_ops [sb_simps]:
  "store_buffer_ok store_buffer_init"
  "store_buffer_ok sb \<Longrightarrow> store_buffer_ok (insert_block loc buf sb)"
  "store_buffer_ok sb \<Longrightarrow> store_buffer_ok (erase_block loc sb)"
  by (auto simp: store_buffer_ok_def store_buffer_init_def insert_block_def erase_block_def
      find_entry_map_of map_of_eq_None_iff remove_entry_filter distinct_map_filter
      split: option.splits)

text \<open>
  A client keeps the list of pending writers, each the block it writes and the buffer it owns.
  \<open>backed\<close> says that every entry of the index is the buffer of a pending writer of that block; with
  at most one writer per block, \<open>covering\<close> says that every pending writer is in the index.
\<close>

definition backed :: "('k \<Rightarrow> 'v option) \<Rightarrow> ('k \<times> 'v) list \<Rightarrow> bool" where
  "backed f ws \<longleftrightarrow> (\<forall>k v. f k = Some v \<longrightarrow> (k, v) \<in> set ws)"

definition covering :: "('k \<Rightarrow> 'v option) \<Rightarrow> ('k \<times> 'v) list \<Rightarrow> bool" where
  "covering f ws \<longleftrightarrow> distinct (map fst ws) \<and> (\<forall>k v. (k, v) \<in> set ws \<longrightarrow> f k = Some v)"

lemma backed_mono: "backed f ws \<Longrightarrow> set ws \<subseteq> set ws' \<Longrightarrow> backed f ws'"
  by (auto simp: backed_def)

lemma in_set_remove1_other: "x \<in> set xs \<Longrightarrow> x \<noteq> y \<Longrightarrow> x \<in> set (remove1 y xs)"
  by (induction xs) auto

locale block_index = emplace_map ok lookup emplace erase
  for ok :: "'m \<Rightarrow> bool" and lookup :: "'m \<Rightarrow> 'k \<Rightarrow> 'v option"
    and emplace :: "'k \<Rightarrow> 'v \<Rightarrow> 'm \<Rightarrow> 'm" and erase :: "'k \<Rightarrow> 'm \<Rightarrow> 'm" +
  fixes count :: "'m \<Rightarrow> nat"
  assumes count_emplace: "ok m \<Longrightarrow>
      count (emplace k v m) = (if lookup m k = None then Suc (count m) else count m)"
    and count_erase: "ok m \<Longrightarrow>
      count (erase k m) = (if lookup m k = None then count m else count m - 1)"
begin

lemma backed_emplace:
  "ok m \<Longrightarrow> backed (lookup m) ws \<Longrightarrow> backed (lookup (emplace k v m)) (ws @ [(k, v)])"
  by (auto simp: backed_def lookup_emplace split: if_splits)

lemma backed_erase:
  "ok m \<Longrightarrow> backed (lookup m) ws \<Longrightarrow> backed (lookup (erase k m)) (remove1 (k, v) ws)"
  by (auto simp: backed_def lookup_erase intro!: in_set_remove1_other)

lemma backed_absent: "backed (lookup m) ws \<Longrightarrow> k \<notin> fst ` set ws \<Longrightarrow> lookup m k = None"
  by (cases "lookup m k") (force simp: backed_def)+

lemma covering_emplace:
  assumes "ok m" "covering (lookup m) ws" "lookup m k = None"
  shows "covering (lookup (emplace k v m)) (ws @ [(k, v)])"
proof -
  have "k \<notin> fst ` set ws"
    using assms(2,3) by (auto simp: covering_def)
  then show ?thesis
    using assms by (auto simp: covering_def lookup_emplace)
qed

lemma covering_erase:
  assumes "ok m" "covering (lookup m) ws" "(k, v) \<in> set ws"
  shows "covering (lookup (erase k m)) (remove1 (k, v) ws)"
proof -
  from assms(3) obtain ys zs where ws: "ws = ys @ (k, v) # zs" "(k, v) \<notin> set ys"
    by (metis split_list_first)
  then have "remove1 (k, v) ws = ys @ zs"
    by (simp add: remove1_append)
  moreover have "k \<notin> fst ` set (ys @ zs)"
    using assms(2) ws by (auto simp: covering_def)
  ultimately show ?thesis
    using assms(1,2) ws(1) by (auto simp: covering_def lookup_erase rev_image_eqI)
qed

end

lemma size_blocks_insert:
  "size_blocks (insert_block loc buf sb) =
     (if lookup_block sb loc = None then Suc (size_blocks sb) else size_blocks sb)"
  by (simp add: size_blocks_def insert_block_def split: option.splits)

lemma length_remove_entry:
  "length (remove_entry loc m) = (if find_entry loc m = None then length m else length m - 1)"
proof (induction loc m rule: remove_entry.induct)
  case (2 loc k buf m)
  then show ?case by (cases m) (auto split: if_splits)
qed simp

lemma size_blocks_erase:
  "size_blocks (erase_block loc sb) =
     (if lookup_block sb loc = None then size_blocks sb else size_blocks sb - 1)"
  by (simp add: size_blocks_def erase_block_def length_remove_entry split: option.splits)

interpretation sb: block_index store_buffer_ok "\<lambda>sb loc. lookup_block sb loc"
  insert_block erase_block size_blocks
  by unfold_locales (simp_all add: sb_simps size_blocks_insert size_blocks_erase)

section \<open>Properties of the store buffer\<close>

text \<open>After \<open>insert\<close> of a block that was not pending, \<open>get\<close> of that block runs its callback on
  exactly the inserted buffer, \<open>erase\<close> makes the block miss again without running it, and neither
  changes what any other block finds.\<close>

theorem store_buffer_insert_get_erase:
  assumes "store_buffer_ok sb" "lookup_block sb loc = None"
  shows "get loc f (insert_block loc buf sb) s = (True, f buf s) \<and>
         get loc f (erase_block loc (insert_block loc buf sb)) s = (False, s) \<and>
         (loc' \<noteq> loc \<longrightarrow>
            get loc' f (insert_block loc buf sb) s = get loc' f sb s \<and>
            get loc' f (erase_block loc (insert_block loc buf sb)) s = get loc' f sb s)"
  using assms sb.erase_emplace [OF assms]
  by (auto simp: get_def sb_simps fun_eq_iff split: option.splits)

theorem store_buffer_insert_get_erase_witness:
  "get (torrent_location 0 3 16384) (#) (insert_block (torrent_location 0 3 16384) 9 store_buffer_init) [] =
     (True, [9])"
proof -
  have "store_buffer_ok store_buffer_init" "lookup_block store_buffer_init (torrent_location 0 3 16384) = None"
    by (simp_all add: sb_simps) (simp add: store_buffer_init_def)
  from store_buffer_insert_get_erase [OF this, where f = "(#)" and buf = 9 and s = "[]"]
  show ?thesis by simp
qed

end
