(* ===== verification/Partition_Storage.thy ===== *)
theory Partition_Storage
  imports Prelude
begin

text \<open>
  The class \<open>partition_storage\<close> of \<open>raw_disk_io.cpp\<close>: a torrent whose files are ranges of one
  partition, each named by its offset in hexadecimal. \<open>libtorrent::file_storage\<close> is a record of
  functions (an argument of every definition that uses it); the open files and devices of the
  operating system are explicit. A device may move fewer bytes than asked (\<open>dev_xfer\<close>), because the
  source ignores what \<open>pread\<close> and \<open>pwrite\<close> return.
\<close>

section \<open>\<open>std::stoll(name, 0, 16)\<close>\<close>

datatype stoll_error = invalid_argument | out_of_range

definition is_space :: "char \<Rightarrow> bool" where
  "is_space c \<longleftrightarrow> (let n = of_char c :: nat in n = 32 \<or> 9 \<le> n \<and> n \<le> 13)"

definition hex_digit :: "char \<Rightarrow> int option" where
  "hex_digit c =
     (let n = of_char c :: nat
      in if 48 \<le> n \<and> n \<le> 57 then Some (int n - 48)
         else if 97 \<le> n \<and> n \<le> 102 then Some (int n - 87)
         else if 65 \<le> n \<and> n \<le> 70 then Some (int n - 55)
         else None)"

primrec hex_digits :: "string \<Rightarrow> int list" where
  "hex_digits [] = []"
| "hex_digits (c # cs) = (case hex_digit c of None \<Rightarrow> [] | Some d \<Rightarrow> d # hex_digits cs)"

text \<open>An optional \<open>0x\<close>, taken only in front of a digit.\<close>

definition strip_0x :: "string \<Rightarrow> string" where
  "strip_0x s =
     (case s of
        z # x # d # rest \<Rightarrow>
          if z = CHR ''0'' \<and> (x = CHR ''x'' \<or> x = CHR ''X'') \<and> hex_digit d \<noteq> None
          then d # rest else s
      | _ \<Rightarrow> s)"

definition take_sign :: "string \<Rightarrow> bool \<times> string" where
  "take_sign s =
     (case s of
        c # rest \<Rightarrow> if c = CHR ''-'' then (True, rest)
                    else if c = CHR ''+'' then (False, rest) else (False, s)
      | [] \<Rightarrow> (False, s))"

definition stoll16 :: "string \<Rightarrow> stoll_error + int" where
  "stoll16 s =
     (case take_sign (dropWhile is_space s) of (neg, s1) \<Rightarrow>
        let ds = hex_digits (strip_0x s1);
            v = foldl (\<lambda>acc d. 16 * acc + d) 0 ds;
            x = (if neg then - v else v)
        in if ds = [] then Inl invalid_argument
           else if x < - (2 ^ 63) \<or> 2 ^ 63 \<le> x then Inl out_of_range
           else Inr x)"

section \<open>Files, errors, devices\<close>

record file_slice =
  fsl_file_index :: int
  fsl_offset :: int
  fsl_size :: int

text \<open>What the code calls on \<open>libtorrent::file_storage\<close>.\<close>

record file_storage =
  fs_map_block :: "int \<Rightarrow> int \<Rightarrow> int \<Rightarrow> file_slice list"
  fs_file_name :: "int \<Rightarrow> string"
  fs_piece_size :: "int \<Rightarrow> int"

datatype error_code =
  no_error | parse_failed | invalid_request | no_memory | operation_not_supported

datatype operation_t = op_unknown | file_read | file_write | alloc_cache_piece

record storage_error =
  err_ec :: error_code
  err_operation :: operation_t
  err_file :: int

text \<open>A default constructed \<open>storage_error\<close>.\<close>

definition storage_error_init :: storage_error where
  "storage_error_init = \<lparr>err_ec = no_error, err_operation = op_unknown, err_file = -1\<rparr>"

record device =
  dev_data :: bytes
  dev_xfer :: "nat \<Rightarrow> nat \<Rightarrow> nat"

record os =
  os_fds :: "int \<rightharpoonup> string"
  os_devs :: "string \<rightharpoonup> device"

definition device_of :: "os \<Rightarrow> int \<Rightarrow> device option" where
  "device_of s fd = (case os_fds s fd of None \<Rightarrow> None | Some path \<Rightarrow> os_devs s path)"

text \<open>
  \<open>pread\<close>: the bytes it puts into the buffer, none on an error. \<open>pwrite\<close>: the system after it; a
  device does not grow.
\<close>

definition pread :: "os \<Rightarrow> int \<Rightarrow> nat \<Rightarrow> int \<Rightarrow> bytes" where
  "pread s fd n off =
     (case device_of s fd of None \<Rightarrow> []
      | Some d \<Rightarrow>
          if off < 0 then []
          else take (min n (dev_xfer d (nat off) n)) (drop (nat off) (dev_data d)))"

definition dev_write :: "device \<Rightarrow> nat \<Rightarrow> bytes \<Rightarrow> device" where
  "dev_write d off bs =
     d\<lparr>dev_data := blit off
        (take (min (dev_xfer d off (length bs)) (length (dev_data d) - off)) bs) (dev_data d)\<rparr>"

definition pwrite :: "os \<Rightarrow> int \<Rightarrow> bytes \<Rightarrow> int \<Rightarrow> os" where
  "pwrite s fd bs off =
     (case os_fds s fd of None \<Rightarrow> s
      | Some path \<Rightarrow>
          (case os_devs s path of None \<Rightarrow> s
           | Some d \<Rightarrow>
               if off < 0 then s
               else s\<lparr>os_devs := (os_devs s)(path \<mapsto> dev_write d (nat off) bs)\<rparr>))"

section \<open>The class \<open>partition_storage\<close>\<close>

record partition_storage =
  ps_fd :: int
  ps_mapping_addr :: "addr option"
  ps_mapping_len :: nat
  ps_fs :: file_storage

text \<open>
  The constructor, given what \<open>open\<close> returns: a negative descriptor ends the process with status 1
  (\<open>Inl 1\<close>).
\<close>

definition partition_storage_new ::
  "string \<Rightarrow> file_storage \<Rightarrow> int \<Rightarrow> os \<Rightarrow> int + partition_storage \<times> os" where
  "partition_storage_new path fs opened s =
     (if opened < 0 then Inl 1
      else Inr (\<lparr>ps_fd = opened, ps_mapping_addr = None, ps_mapping_len = 0, ps_fs = fs\<rparr>,
                s\<lparr>os_fds := (os_fds s)(opened \<mapsto> path)\<rparr>))"

definition partition_storage_delete :: "partition_storage \<Rightarrow> os \<Rightarrow> os" where
  "partition_storage_delete ps s = s\<lparr>os_fds := (os_fds s)(ps_fd ps := None)\<rparr>"

definition piece_size :: "partition_storage \<Rightarrow> int \<Rightarrow> int" where
  "piece_size ps piece = fs_piece_size (ps_fs ps) piece"

text \<open>
  The \<open>try\<close> block: the position on the partition of a slice, or what \<open>std::stoll\<close> throws. The sum of two
  signed 64-bit integers that does not fit is undefined behaviour and is not caught.
\<close>

definition partition_offset :: "file_storage \<Rightarrow> file_slice \<Rightarrow> ub + stoll_error + int" where
  "partition_offset fs sl =
     (case stoll16 (fs_file_name fs (fsl_file_index sl)) of
        Inl e \<Rightarrow> Inr (Inl e)
      | Inr off \<Rightarrow>
          if i64 (off + fsl_offset sl) = off + fsl_offset sl then Inr (Inr (off + fsl_offset sl))
          else Inl SignedOverflow)"

text \<open>The loop of \<open>read\<close>; \<open>buffer\<close> is position \<open>pos\<close> of heap block \<open>a\<close>.\<close>

fun read_slices ::
  "partition_storage \<Rightarrow> os \<Rightarrow> file_slice list \<Rightarrow> addr \<Rightarrow> nat \<Rightarrow> int \<Rightarrow> storage_error \<Rightarrow> heap
   \<Rightarrow> ub + heap \<times> int \<times> storage_error" where
  "read_slices ps s [] a pos ret err h = Inr (h, ret, err)"
| "read_slices ps s (sl # sls) a pos ret err h =
     bind_res (partition_offset (ps_fs ps) sl) (\<lambda>res. case res of
        Inl e \<Rightarrow> Inr (h, ret, err\<lparr>err_file := fsl_file_index sl, err_ec := parse_failed,
                                  err_operation := file_read\<rparr>)
      | Inr off \<Rightarrow>
          bind_res (heap_store h a pos (pread s (ps_fd ps) (size_t (fsl_size sl)) off)) (\<lambda>h'.
            read_slices ps s sls a (pos + nat (fsl_size sl)) (i32 (ret + fsl_size sl)) err h'))"

definition read_storage ::
  "partition_storage \<Rightarrow> os \<Rightarrow> (addr \<times> nat) option \<Rightarrow> int \<Rightarrow> int \<Rightarrow> int \<Rightarrow> storage_error \<Rightarrow> heap
   \<Rightarrow> ub + heap \<times> int \<times> storage_error" where
  "read_storage ps s buffer piece off len err h =
     (case buffer of
        None \<Rightarrow> Inl AssertFail
      | Some (a, pos) \<Rightarrow> read_slices ps s (fs_map_block (ps_fs ps) piece off len) a pos 0 err h)"

text \<open>The loop of \<open>write\<close>; \<open>bs\<close> is the memory from \<open>buffer\<close> to the end of its block.\<close>

fun write_slices ::
  "partition_storage \<Rightarrow> file_slice list \<Rightarrow> bytes \<Rightarrow> storage_error \<Rightarrow> os \<Rightarrow> ub + os \<times> storage_error" where
  "write_slices ps [] bs err s = Inr (s, err)"
| "write_slices ps (sl # sls) bs err s =
     bind_res (partition_offset (ps_fs ps) sl) (\<lambda>res. case res of
        Inl e \<Rightarrow> Inr (s, err\<lparr>err_file := fsl_file_index sl, err_ec := parse_failed,
                             err_operation := file_write\<rparr>)
      | Inr off \<Rightarrow>
          (if length bs < size_t (fsl_size sl) then Inl OutOfBounds
           else write_slices ps sls (drop (nat (fsl_size sl)) bs) err
                  (pwrite s (ps_fd ps) (take (size_t (fsl_size sl)) bs) off)))"

definition write_storage ::
  "partition_storage \<Rightarrow> bytes option \<Rightarrow> int \<Rightarrow> int \<Rightarrow> int \<Rightarrow> storage_error \<Rightarrow> os
   \<Rightarrow> ub + os \<times> storage_error" where
  "write_storage ps buffer piece off len err s =
     (case buffer of
        None \<Rightarrow> Inl AssertFail
      | Some bs \<Rightarrow> write_slices ps (fs_map_block (ps_fs ps) piece off len) bs err s)"

section \<open>Where the bytes of a request lie\<close>

text \<open>
  The partition positions of the bytes of a list of slices, in order, when every name parses.
\<close>

fun slice_addrs :: "file_storage \<Rightarrow> file_slice list \<Rightarrow> nat list option" where
  "slice_addrs fs [] = Some []"
| "slice_addrs fs (sl # sls) =
     (case partition_offset fs sl of
        Inl u \<Rightarrow> None
      | Inr (Inl e) \<Rightarrow> None
      | Inr (Inr off) \<Rightarrow>
          if off < 0 \<or> fsl_size sl < 0 \<or> 2147483648 \<le> fsl_size sl then None
          else map_option ((@) [nat off..<nat off + nat (fsl_size sl)]) (slice_addrs fs sls))"

text \<open>A device that moves all the bytes it is asked for.\<close>

definition dev_full :: "device \<Rightarrow> bool" where
  "dev_full d \<longleftrightarrow> (\<forall>off n. n \<le> dev_xfer d off n)"

lemma pread_full:
  assumes "device_of s fd = Some d" "dev_full d" "0 \<le> off"
    and "\<forall>x \<in> set [nat off..<nat off + n]. x < length (dev_data d)"
  shows "pread s fd n off = peek [nat off..<nat off + n] (dev_data d)"
  using assms(1-3) interval_bound [OF assms(4)]
  by (auto simp: pread_def dev_full_def min_absorb1 peek_interval) (simp add: peek_def)

lemma dev_write_full:
  assumes "dev_full d" "\<forall>x \<in> set [off..<off + length bs]. x < length (dev_data d)"
  shows "dev_write d off bs = d\<lparr>dev_data := poke [off..<off + length bs] bs (dev_data d)\<rparr>"
proof (cases "bs = []")
  case False
  then have *: "off + length bs \<le> length (dev_data d)"
    using interval_bound [OF assms(2)] by simp
  then have "take (min (dev_xfer d off (length bs)) (length (dev_data d) - off)) bs = bs"
    using assms(1) by (simp add: dev_full_def)
  then show ?thesis
    by (simp add: dev_write_def blit_poke [OF *])
qed (simp add: dev_write_def)

lemma slice_addrs_ConsE:
  assumes "slice_addrs fs (sl # sls) = Some xs"
  obtains off ys where "partition_offset fs sl = Inr (Inr off)" "0 \<le> off" "0 \<le> fsl_size sl"
    "fsl_size sl < 2147483648" "slice_addrs fs sls = Some ys"
    "xs = [nat off..<nat off + nat (fsl_size sl)] @ ys"
  using assms by (auto split: sum.splits if_splits)

text \<open>
  On a healthy device the loops move the bytes of the slices that parse and go on with the rest.
\<close>

lemma read_slices_full_append:
  assumes "slice_addrs (ps_fs ps) sls = Some xs" "device_of s (ps_fd ps) = Some d" "dev_full d"
    and "\<forall>x \<in> set xs. x < length (dev_data d)" "h a = Some blk" "pos + length xs \<le> length blk"
    and "0 \<le> ret" "ret + int (length xs) < 2147483648"
  shows "read_slices ps s (sls @ rest) a pos ret err h =
           read_slices ps s rest a (pos + length xs) (ret + int (length xs)) err
             (h(a \<mapsto> blit pos (peek xs (dev_data d)) blk))"
  using assms
proof (induction sls arbitrary: pos ret h blk xs)
  case Nil
  then show ?case by (simp add: peek_def fun_upd_idem)
next
  case (Cons sl sls)
  from Cons.prems(1) obtain off ys where off: "partition_offset (ps_fs ps) sl = Inr (Inr off)" "0 \<le> off"
      "0 \<le> fsl_size sl" "fsl_size sl < 2147483648"
    and ys: "slice_addrs (ps_fs ps) sls = Some ys"
    and xs: "xs = [nat off..<nat off + nat (fsl_size sl)] @ ys"
    by (rule slice_addrs_ConsE)
  let ?n = "nat (fsl_size sl)"
  let ?bs = "peek [nat off..<nat off + ?n] (dev_data d)"
  let ?blk = "blit pos ?bs blk"
  have p: "pread s (ps_fd ps) (size_t (fsl_size sl)) off = ?bs"
    using Cons.prems(2-4) off xs by (simp add: pread_full wrap_simps)
  have st: "heap_store h a pos ?bs = Inr (h(a \<mapsto> ?blk))"
    using Cons.prems(5,6) xs by (simp add: heap_simps)
  have ret: "i32 (ret + fsl_size sl) = ret + fsl_size sl"
    using Cons.prems(7,8) off xs by (simp add: wrap_simps)
  have "read_slices ps s (sls @ rest) a (pos + ?n) (ret + fsl_size sl) err (h(a \<mapsto> ?blk)) =
      read_slices ps s rest a (pos + ?n + length ys) (ret + fsl_size sl + int (length ys)) err
        ((h(a \<mapsto> ?blk))(a \<mapsto> blit (pos + ?n) (peek ys (dev_data d)) ?blk))"
    by (rule Cons.IH [OF ys Cons.prems(2,3)]) (use Cons.prems off xs in auto)
  moreover have "blit (pos + ?n) (peek ys (dev_data d)) ?blk = blit pos (peek xs (dev_data d)) blk"
    using xs Cons.prems(6) blit_blit_adjacent [of pos ?bs "peek ys (dev_data d)" blk]
    by (simp add: peek_append)
  moreover have "pos + ?n + length ys = pos + length xs"
    "ret + fsl_size sl + int (length ys) = ret + int (length xs)"
    using off xs by simp_all
  ultimately have "read_slices ps s (sls @ rest) a (pos + ?n) (ret + fsl_size sl) err (h(a \<mapsto> ?blk)) =
      read_slices ps s rest a (pos + length xs) (ret + int (length xs)) err
        (h(a \<mapsto> blit pos (peek xs (dev_data d)) blk))"
    by simp
  then show ?case
    by (simp add: off(1) p st ret fun_upd_def)
qed

lemmas read_slices_full = read_slices_full_append [where rest = "[]", simplified]

lemma write_slices_full_append:
  assumes "slice_addrs (ps_fs ps) sls = Some xs" "os_fds s (ps_fd ps) = Some path"
    and "os_devs s path = Some d" "dev_full d" "\<forall>x \<in> set xs. x < length (dev_data d)"
    and "length xs \<le> length bs"
  shows "write_slices ps (sls @ rest) bs err s =
           write_slices ps rest (drop (length xs) bs) err
             (s\<lparr>os_devs := (os_devs s)(path \<mapsto>
                d\<lparr>dev_data := poke xs (take (length xs) bs) (dev_data d)\<rparr>)\<rparr>)"
  using assms
proof (induction sls arbitrary: bs s xs d)
  case Nil
  then show ?case by (simp add: fun_upd_idem)
next
  case (Cons sl sls)
  from Cons.prems(1) obtain off ys where off: "partition_offset (ps_fs ps) sl = Inr (Inr off)" "0 \<le> off"
      "0 \<le> fsl_size sl" "fsl_size sl < 2147483648"
    and ys: "slice_addrs (ps_fs ps) sls = Some ys"
    and xs: "xs = [nat off..<nat off + nat (fsl_size sl)] @ ys"
    by (rule slice_addrs_ConsE)
  let ?n = "nat (fsl_size sl)"
  let ?d = "d\<lparr>dev_data := poke [nat off..<nat off + ?n] (take ?n bs) (dev_data d)\<rparr>"
  let ?s = "s\<lparr>os_devs := (os_devs s)(path \<mapsto> ?d)\<rparr>"
  have n: "?n \<le> length bs" "size_t (fsl_size sl) = ?n"
    using Cons.prems(6) off xs by (simp_all add: wrap_simps)
  have "dev_write d (nat off) (take ?n bs) = ?d"
    using dev_write_full [OF Cons.prems(4), of "nat off" "take ?n bs"] Cons.prems(5) n xs
    by (simp add: min_absorb1 min_absorb2)
  then have w: "pwrite s (ps_fd ps) (take ?n bs) off = ?s"
    using Cons.prems(2,3) off by (simp add: pwrite_def)
  have "write_slices ps (sls @ rest) (drop ?n bs) err ?s =
      write_slices ps rest (drop (length ys) (drop ?n bs)) err
        (?s\<lparr>os_devs := (os_devs ?s)(path \<mapsto>
          ?d\<lparr>dev_data := poke ys (take (length ys) (drop ?n bs)) (dev_data ?d)\<rparr>)\<rparr>)"
    by (rule Cons.IH [OF ys]) (use Cons.prems n off xs in \<open>auto simp: dev_full_def\<close>)
  moreover have "poke ys (take (length ys) (drop ?n bs)) (dev_data ?d) =
      poke xs (take (length xs) bs) (dev_data d)"
    using n xs by (simp add: poke_append [symmetric] min_absorb1 min_absorb2 take_add)
  moreover have "drop (length ys) (drop ?n bs) = drop (length xs) bs"
    using xs by (simp add: add.commute)
  ultimately have "write_slices ps (sls @ rest) (drop ?n bs) err ?s =
      write_slices ps rest (drop (length xs) bs) err
        (s\<lparr>os_devs := (os_devs s)(path \<mapsto>
          d\<lparr>dev_data := poke xs (take (length xs) bs) (dev_data d)\<rparr>)\<rparr>)"
    by simp
  then show ?case
    using n by (simp add: off(1) w fun_upd_def)
qed

lemmas write_slices_full = write_slices_full_append [where rest = "[]", simplified]

section \<open>Safety on any device\<close>

text \<open>
  Whatever the device does and whatever the file names are, the loops stay inside the buffer, as long as the
  sums of the positions are defined.
\<close>

definition slices_ok :: "file_slice list \<Rightarrow> bool" where
  "slices_ok sls \<longleftrightarrow> (\<forall>sl \<in> set sls. 0 \<le> fsl_size sl \<and> fsl_size sl < 2147483648)"

definition offsets_defined :: "file_storage \<Rightarrow> file_slice list \<Rightarrow> bool" where
  "offsets_defined fs sls \<longleftrightarrow> (\<forall>sl \<in> set sls. \<forall>u. partition_offset fs sl \<noteq> Inl u)"

definition slices_len :: "file_slice list \<Rightarrow> nat" where
  "slices_len sls = sum_list (map (nat \<circ> fsl_size) sls)"

lemma slices_simps [simp]:
  "slices_ok []" "slices_len [] = 0"
  "slices_ok (sl # sls) \<longleftrightarrow> 0 \<le> fsl_size sl \<and> fsl_size sl < 2147483648 \<and> slices_ok sls"
  "slices_len (sl # sls) = nat (fsl_size sl) + slices_len sls" "offsets_defined fs []"
  "offsets_defined fs (sl # sls) \<longleftrightarrow> (\<forall>u. partition_offset fs sl \<noteq> Inl u) \<and> offsets_defined fs sls"
  by (auto simp: slices_ok_def slices_len_def offsets_defined_def)

text \<open>The position of a slice of a list in which every sum is defined.\<close>

lemma offset_cases:
  assumes "offsets_defined fs (sl # sls)"
  obtains (fails) e where "partition_offset fs sl = Inr (Inl e)" | (at) off where "partition_offset fs sl = Inr (Inr off)"
proof (cases "partition_offset fs sl")
  case (Inl u)
  with assms show thesis by simp
next
  case (Inr res)
  with that show thesis by (cases res) auto
qed

lemma slice_addrs_ok: "slice_addrs fs sls = Some xs \<Longrightarrow> slices_ok sls \<and> slices_len sls = length xs"
proof (induction sls arbitrary: xs)
  case (Cons sl sls)
  then show ?case by (elim slice_addrs_ConsE) auto
qed simp

lemma length_pread: "length (pread s fd n off) \<le> n"
  by (auto simp: pread_def split: option.splits)

lemma read_slices_safe:
  assumes "slices_ok sls" "offsets_defined (ps_fs ps) sls" "h a = Some blk" "pos + slices_len sls \<le> length blk"
    and "0 \<le> ret" "ret + int (slices_len sls) < 2147483648"
  shows "\<exists>blk' ret' err'. read_slices ps s sls a pos ret err h = Inr (h(a \<mapsto> blk'), ret', err') \<and>
           length blk' = length blk \<and> ret \<le> ret' \<and> ret' \<le> ret + int (slices_len sls)"
  using assms
proof (induction sls arbitrary: pos ret h blk)
  case Nil
  then show ?case by (auto intro!: exI [of _ blk] simp: fun_upd_idem)
next
  case (Cons sl sls)
  from Cons.prems(2) show ?case
  proof (cases rule: offset_cases)
    case (fails e)
    with Cons.prems show ?thesis by (auto intro!: exI [of _ blk] simp: fun_upd_idem)
  next
    case (at off)
    let ?bs = "pread s (ps_fd ps) (size_t (fsl_size sl)) off"
    let ?blk = "blit pos ?bs blk"
    have "length ?bs \<le> nat (fsl_size sl)"
      using Cons.prems(1) length_pread [of s "ps_fd ps" "size_t (fsl_size sl)" off]
      by (simp add: wrap_simps)
    with Cons.prems have b: "pos + length ?bs \<le> length blk"
      by simp
    have ret: "i32 (ret + fsl_size sl) = ret + fsl_size sl"
      using Cons.prems by (simp add: wrap_simps)
    have "\<exists>blk' ret' err'. read_slices ps s sls a (pos + nat (fsl_size sl)) (ret + fsl_size sl) err
        (h(a \<mapsto> ?blk)) = Inr ((h(a \<mapsto> ?blk))(a \<mapsto> blk'), ret', err') \<and> length blk' = length ?blk \<and>
        ret + fsl_size sl \<le> ret' \<and> ret' \<le> ret + fsl_size sl + int (slices_len sls)"
      by (rule Cons.IH) (use Cons.prems b in auto)
    then obtain blk' ret' err' where r: "read_slices ps s sls a (pos + nat (fsl_size sl))
        (ret + fsl_size sl) err (h(a \<mapsto> ?blk)) = Inr (h(a \<mapsto> blk'), ret', err')"
        "length blk' = length ?blk" "ret + fsl_size sl \<le> ret'"
        "ret' \<le> ret + fsl_size sl + int (slices_len sls)"
      by auto
    have "read_slices ps s (sl # sls) a pos ret err h = Inr (h(a \<mapsto> blk'), ret', err')"
      using r(1) at Cons.prems(3) b ret by (simp add: heap_simps fun_upd_def)
    moreover have "length blk' = length blk" "ret \<le> ret'"
      "ret' \<le> ret + int (slices_len (sl # sls))"
      using r(2-4) b Cons.prems(1) by auto
    ultimately show ?thesis by blast
  qed
qed

lemma write_slices_safe:
  assumes "slices_ok sls" "offsets_defined (ps_fs ps) sls" "slices_len sls \<le> length bs"
  shows "\<exists>s' err'. write_slices ps sls bs err s = Inr (s', err') \<and> os_fds s' = os_fds s"
  using assms
proof (induction sls arbitrary: bs s)
  case (Cons sl sls)
  from Cons.prems(2) show ?case
  proof (cases rule: offset_cases)
    case (at off)
    let ?n = "nat (fsl_size sl)"
    let ?s = "pwrite s (ps_fd ps) (take ?n bs) off"
    obtain s' err' where "write_slices ps sls (drop ?n bs) err ?s = Inr (s', err')"
        "os_fds s' = os_fds ?s"
      using Cons.IH [of "drop ?n bs" ?s] Cons.prems by fastforce
    moreover have "os_fds ?s = os_fds s"
      by (simp add: pwrite_def split: option.splits)
    ultimately show ?thesis
      using at Cons.prems by (simp add: wrap_simps)
  qed simp
qed simp

text \<open>
  What safety needs of \<open>libtorrent::file_storage\<close>: pieces of a sensible size, and slices that do not
  add up to more than the request. Of the torrent: no byte of a file has a position beyond the signed 64-bit
  range, so that the sum of the position of a slice is defined.
\<close>

definition fs_ok :: "file_storage \<Rightarrow> bool" where
  "fs_ok fs \<longleftrightarrow>
     (\<forall>p. 0 \<le> fs_piece_size fs p \<and> fs_piece_size fs p < 2147467264) \<and>
     (\<forall>p off len. 0 \<le> len \<and> len < 2147483648 \<longrightarrow>
        slices_ok (fs_map_block fs p off len) \<and> slices_len (fs_map_block fs p off len) \<le> nat len \<and>
        offsets_defined fs (fs_map_block fs p off len))"

lemma read_storage_safe:
  assumes "fs_ok (ps_fs ps)" "0 \<le> len" "len < 2147483648" "h a = Some blk" "pos + nat len \<le> length blk"
  shows "\<exists>blk' ret' err'. read_storage ps s (Some (a, pos)) p off len err h = Inr (h(a \<mapsto> blk'), ret', err') \<and>
           length blk' = length blk \<and> 0 \<le> ret' \<and> ret' \<le> len"
proof -
  let ?sls = "fs_map_block (ps_fs ps) p off len"
  have "slices_ok ?sls" "slices_len ?sls \<le> nat len" "offsets_defined (ps_fs ps) ?sls"
    using assms(1-3) by (simp_all add: fs_ok_def)
  then show ?thesis
    using read_slices_safe [of ?sls ps h a blk pos 0 s err] assms(2-5)
    by (fastforce simp: read_storage_def)
qed

lemma write_storage_safe:
  assumes "fs_ok (ps_fs ps)" "0 \<le> len" "len < 2147483648" "nat len \<le> length bs"
  shows "\<exists>s' err'. write_storage ps (Some bs) p off len err s = Inr (s', err') \<and> os_fds s' = os_fds s"
proof -
  let ?sls = "fs_map_block (ps_fs ps) p off len"
  have "slices_ok ?sls" "slices_len ?sls \<le> nat len" "offsets_defined (ps_fs ps) ?sls"
    using assms(1-3) by (simp_all add: fs_ok_def)
  then show ?thesis
    using write_slices_safe [of ?sls ps bs err s] assms(4) by (simp add: write_storage_def)
qed

section \<open>Names in the documented format\<close>

text \<open>
  The torrent stores the offset of a range as its file name, in 16 hexadecimal digits
  (\<open>README.md\<close>, section Design).
\<close>

definition hex_char :: "nat \<Rightarrow> char" where
  "hex_char n = char_of (if n < 10 then 48 + n else 87 + n)"

primrec to_hex :: "nat \<Rightarrow> nat \<Rightarrow> string" where
  "to_hex 0 n = []"
| "to_hex (Suc w) n = to_hex w (n div 16) @ [hex_char (n mod 16)]"

lemma to_hex_numeral:
  "to_hex (numeral k) n = to_hex (pred_numeral k) (n div 16) @ [hex_char (n mod 16)]"
  by (simp only: numeral_eq_Suc [of k] to_hex.simps)

lemma hex_digit_hex_char: "n < 16 \<Longrightarrow> hex_digit (hex_char n) = Some (int n)"
  by (auto simp: hex_digit_def hex_char_def Let_def)

lemma hex_digit_not_special:
  assumes "hex_digit c \<noteq> None"
  shows "\<not> is_space c" "c \<noteq> CHR ''-''" "c \<noteq> CHR ''+''" "c \<noteq> CHR ''x''" "c \<noteq> CHR ''X''"
  using assms by (auto simp: hex_digit_def is_space_def Let_def split: if_splits)

lemma hex_digits_all:
  "\<forall>c \<in> set s. hex_digit c \<noteq> None \<Longrightarrow> hex_digits s = map (the \<circ> hex_digit) s"
  by (induction s) auto

lemma stoll16_digits:
  assumes "s \<noteq> []" "\<forall>c \<in> set s. hex_digit c \<noteq> None"
    and "foldl (\<lambda>acc d. 16 * acc + d) 0 (map (the \<circ> hex_digit) s) = v" "0 \<le> v" "v < 2 ^ 63"
  shows "stoll16 s = Inr v"
proof -
  obtain c cs where s: "s = c # cs"
    using assms(1) by (cases s) auto
  have c: "\<not> is_space c" "c \<noteq> CHR ''-''" "c \<noteq> CHR ''+''"
    using assms(2) s hex_digit_not_special [of c] by auto
  have "strip_0x s = s"
    using assms(2) s hex_digit_not_special(4,5)
    by (auto simp: strip_0x_def split: list.splits)
  then have "hex_digits (strip_0x s) = map (the \<circ> hex_digit) s"
    by (simp add: hex_digits_all [OF assms(2)])
  moreover have "take_sign (dropWhile is_space s) = (False, s)"
    using c s by (simp add: take_sign_def)
  ultimately show ?thesis
    using assms(1,3-5) by (simp add: stoll16_def)
qed

lemma to_hex_digits: "c \<in> set (to_hex w n) \<Longrightarrow> hex_digit c \<noteq> None"
  by (induction w arbitrary: n) (auto simp: hex_digit_hex_char)

lemma to_hex_value:
  "foldl (\<lambda>acc d. 16 * acc + d) 0 (map (the \<circ> hex_digit) (to_hex w n)) = int (n mod 16 ^ w)"
proof (induction w arbitrary: n)
  case (Suc w)
  have "int (n mod 16 ^ Suc w) = 16 * int (n div 16 mod 16 ^ w) + int (n mod 16)"
    by (simp add: mod_mult2_eq flip: of_nat_add)
  with Suc show ?case by (simp add: hex_digit_hex_char)
qed simp

lemma stoll16_to_hex:
  assumes "n < 2 ^ 63"
  shows "stoll16 (to_hex 16 n) = Inr (int n)"
proof (rule stoll16_digits)
  have "int (n mod 16 ^ 16) = int n"
    using assms by simp
  then show "foldl (\<lambda>acc d. 16 * acc + d) 0 (map (the \<circ> hex_digit) (to_hex 16 n)) = int n"
    by (simp only: to_hex_value)
  have "length (to_hex w n) = w" for w
    by (induction w arbitrary: n) auto
  from this [of 16] show "to_hex 16 n \<noteq> []" by auto
qed (use assms to_hex_digits in auto)

section \<open>Layouts\<close>

text \<open>
  What is assumed of \<open>map_block\<close>: the request for \<open>len\<close> bytes at \<open>off\<close> of a piece is cut into
  slices that cover exactly those bytes in order, where byte \<open>i\<close> of piece \<open>p\<close> has the one position
  \<open>A p i\<close> on the partition, whatever request asks for it.
\<close>

definition fs_layout :: "file_storage \<Rightarrow> (int \<Rightarrow> nat \<Rightarrow> nat) \<Rightarrow> bool" where
  "fs_layout fs A \<longleftrightarrow>
     (\<forall>p off len. 0 \<le> off \<and> 0 \<le> len \<and> off + len \<le> fs_piece_size fs p \<longrightarrow>
        slice_addrs fs (fs_map_block fs p off len) = Some (map (A p) [nat off..<nat (off + len)]))"

text \<open>
  The layout of a torrent in the documented format, from the list of its ranges (offset and length)
  and the piece length: its slices, computed by walking over the ranges, satisfy \<open>fs_layout\<close>.
\<close>

definition cells :: "(nat \<times> nat) list \<Rightarrow> nat list" where
  "cells files = concat (map (\<lambda>(off, len). [off..<off + len]) files)"

fun slices_from :: "(nat \<times> nat) list \<Rightarrow> nat \<Rightarrow> nat \<Rightarrow> nat \<Rightarrow> file_slice list" where
  "slices_from [] k start len = []"
| "slices_from ((off, n) # files) k start len =
     (if len = 0 then []
      else if n \<le> start then slices_from files (Suc k) (start - n) len
      else let m = min len (n - start)
           in \<lparr>fsl_file_index = int k, fsl_offset = int start, fsl_size = int m\<rparr>
              # slices_from files (Suc k) 0 (len - m))"

definition ranges_storage :: "(nat \<times> nat) list \<Rightarrow> nat \<Rightarrow> file_storage" where
  "ranges_storage files plen =
     \<lparr>fs_map_block = (\<lambda>p off len. slices_from files 0 (nat p * plen + nat off) (nat len)),
      fs_file_name = (\<lambda>i. to_hex 16 (fst (files ! nat i))),
      fs_piece_size = (\<lambda>p. int (min plen (length (cells files) - nat p * plen)))\<rparr>"

lemma cells_Cons [simp]: "cells [] = []" "cells ((off, n) # files) = [off..<off + n] @ cells files"
  by (simp_all add: cells_def)

lemma slice_addrs_slices_from:
  assumes "\<forall>(off, n) \<in> set files. off + n < 2 ^ 63" "len < 2147483648"
    and "\<forall>j < length files. fs_file_name fs (int (k + j)) = to_hex 16 (fst (files ! j))"
    and "start + len \<le> length (cells files)"
  shows "slice_addrs fs (slices_from files k start len) = Some (take len (drop start (cells files)))"
  using assms
proof (induction files k start len rule: slices_from.induct)
  case (2 off n files k start len)
  have names: "\<forall>j < length files. fs_file_name fs (int (Suc k + j)) = to_hex 16 (fst (files ! j))"
    using "2.prems"(3) [rule_format, of "Suc _"] by (simp add: ac_simps)
  consider "len = 0" | "len \<noteq> 0" "n \<le> start" | "len \<noteq> 0" "start < n"
    by linarith
  then show ?case
  proof cases
    case 2
    then show ?thesis
      using "2.IH"(1) "2.prems" names by simp
  next
    case 3
    let ?m = "min len (n - start)"
    have "fs_file_name fs (int k) = to_hex 16 off"
      using "2.prems"(3) [rule_format, of 0] by simp
    then have po: "partition_offset fs \<lparr>fsl_file_index = int k, fsl_offset = int start, fsl_size = int ?m\<rparr> =
        Inr (Inr (int (off + start)))"
      using "2.prems"(1) 3 by (simp add: partition_offset_def stoll16_to_hex wrap_simps)
    have "slice_addrs fs (slices_from files (Suc k) 0 (len - ?m)) =
        Some (take (len - ?m) (drop 0 (cells files)))"
      by (rule "2.IH"(2)) (use 3 "2.prems" names in auto)
    moreover have "take len (drop start [off..<off + n]) = [off + start..<off + start + ?m]"
      by (rule nth_equalityI) (use 3 in auto)
    ultimately show ?thesis
      using 3 po "2.prems"(2,4) by (auto simp: Let_def nat_add_distrib min_def)
  qed simp
qed simp

lemma ranges_layout:
  assumes "\<forall>(off, n) \<in> set files. off + n < 2 ^ 63" "plen < 2147483648"
  shows "fs_layout (ranges_storage files plen) (\<lambda>p i. cells files ! (nat p * plen + i))"
  unfolding fs_layout_def
proof (intro allI impI)
  fix p off len
  let ?fs = "ranges_storage files plen" and ?start = "nat p * plen + nat off"
  assume a: "0 \<le> off \<and> 0 \<le> len \<and> off + len \<le> fs_piece_size ?fs p"
  then have r: "nat off + nat len \<le> plen" "?start + nat len \<le> length (cells files) \<or> nat off + nat len = 0"
    by (auto simp: ranges_storage_def)
  have "slice_addrs ?fs (slices_from files 0 ?start (nat len)) =
      Some (take (nat len) (drop ?start (cells files)))"
  proof (cases "nat len = 0")
    case True
    then show ?thesis by (cases files) auto
  next
    case False
    then show ?thesis
      by (intro slice_addrs_slices_from) (use assms r in \<open>auto simp: ranges_storage_def\<close>)
  qed
  moreover have "take (nat len) (drop ?start (cells files)) =
      map (\<lambda>i. cells files ! (nat p * plen + i)) [nat off..<nat (off + len)]"
    by (rule nth_equalityI) (use r a in \<open>auto simp: nat_add_distrib add.assoc\<close>)
  ultimately show "slice_addrs ?fs (fs_map_block ?fs p off len) =
      Some (map (\<lambda>i. cells files ! (nat p * plen + i)) [nat off..<nat (off + len)])"
    by (simp add: ranges_storage_def)
qed

lemma slices_from_ok:
  "len < 2147483648 \<Longrightarrow>
   slices_ok (slices_from files k start len) \<and> slices_len (slices_from files k start len) \<le> len"
proof (induction files k start len rule: slices_from.induct)
  case (2 off n files k start len)
  show ?case
  proof (cases "len = 0 \<or> n \<le> start")
    case True
    with 2 show ?thesis by auto
  next
    case False
    let ?m = "min len (n - start)"
    have "slices_ok (slices_from files (Suc k) 0 (len - ?m)) \<and>
        slices_len (slices_from files (Suc k) 0 (len - ?m)) \<le> len - ?m"
      by (rule "2.IH"(2)) (use False "2.prems" in auto)
    moreover from this have "?m + slices_len (slices_from files (Suc k) 0 (len - ?m)) \<le> len"
      by linarith
    ultimately show ?thesis
      using False "2.prems" by (simp add: Let_def)
  qed
qed simp

lemma slices_from_offsets:
  assumes "\<forall>(off, n) \<in> set files. off + n < 2 ^ 63"
    and "\<forall>j < length files. fs_file_name fs (int (k + j)) = to_hex 16 (fst (files ! j))"
  shows "offsets_defined fs (slices_from files k start len)"
  using assms
proof (induction files k start len rule: slices_from.induct)
  case (2 off n files k start len)
  have names: "\<forall>j < length files. fs_file_name fs (int (Suc k + j)) = to_hex 16 (fst (files ! j))"
    using "2.prems"(2) [rule_format, of "Suc _"] by (simp add: ac_simps)
  have "fs_file_name fs (int k) = to_hex 16 off"
    using "2.prems"(2) [rule_format, of 0] by simp
  then have "partition_offset fs \<lparr>fsl_file_index = int k, fsl_offset = int start, fsl_size = m\<rparr> = Inr (Inr (int (off + start)))"
    if "start < n" for m
    using "2.prems"(1) that by (simp add: partition_offset_def stoll16_to_hex wrap_simps)
  then show ?case
    using "2.IH" "2.prems"(1) names by (auto simp: Let_def not_le)
qed simp

lemma ranges_fs_ok:
  assumes "plen < 2147467264" "\<forall>(off, n) \<in> set files. off + n < 2 ^ 63"
  shows "fs_ok (ranges_storage files plen)"
proof -
  have "offsets_defined (ranges_storage files plen) (slices_from files 0 start len)" for start len
    by (rule slices_from_offsets [OF assms(2)]) (simp add: ranges_storage_def)
  then show ?thesis
    using assms(1) slices_from_ok by (auto simp: fs_ok_def nat_less_iff) (simp_all add: ranges_storage_def)
qed

section \<open>Storage operations on a layout\<close>

text \<open>The positions on the partition of a request.\<close>

abbreviation block_addrs :: "(int \<Rightarrow> nat \<Rightarrow> nat) \<Rightarrow> int \<Rightarrow> int \<Rightarrow> int \<Rightarrow> nat list" where
  "block_addrs A p off len \<equiv> map (A p) [nat off..<nat (off + len)]"

text \<open>A storage whose descriptor is an open, healthy device at least as large as the layout.\<close>

definition storage_on :: "os \<Rightarrow> partition_storage \<Rightarrow> (int \<Rightarrow> nat \<Rightarrow> nat) \<Rightarrow> string \<Rightarrow> device \<Rightarrow> bool" where
  "storage_on s ps A path d \<longleftrightarrow>
     fs_layout (ps_fs ps) A \<and> os_fds s (ps_fd ps) = Some path \<and> os_devs s path = Some d \<and>
     dev_full d \<and> (\<forall>p i. int i < fs_piece_size (ps_fs ps) p \<longrightarrow> A p i < length (dev_data d))"

definition in_piece :: "partition_storage \<Rightarrow> int \<Rightarrow> int \<Rightarrow> int \<Rightarrow> bool" where
  "in_piece ps p off len \<longleftrightarrow>
     0 \<le> off \<and> 0 \<le> len \<and> off + len \<le> fs_piece_size (ps_fs ps) p \<and> len < 2147483648"

lemma storage_on_addrs:
  assumes "storage_on s ps A path d" "in_piece ps p off len"
  shows "slice_addrs (ps_fs ps) (fs_map_block (ps_fs ps) p off len) = Some (block_addrs A p off len)"
    and "\<forall>x \<in> set (block_addrs A p off len). x < length (dev_data d)"
    and "length (block_addrs A p off len) = nat len"
  using assms by (auto simp: storage_on_def in_piece_def fs_layout_def nat_add_distrib)

lemma read_storage_on:
  assumes "storage_on s ps A path d" "in_piece ps p off len"
    and "h a = Some blk" "pos + nat len \<le> length blk"
  shows "read_storage ps s (Some (a, pos)) p off len err h =
           Inr (h(a \<mapsto> blit pos (peek (block_addrs A p off len) (dev_data d)) blk), len, err)"
proof -
  note xs = storage_on_addrs [OF assms(1,2)]
  have "device_of s (ps_fd ps) = Some d" "dev_full d"
    using assms(1) by (simp_all add: storage_on_def device_of_def)
  from read_slices_full [where h = h and a = a and pos = pos and ret = 0 and err = err, OF xs(1) this xs(2) assms(3)]
  show ?thesis
    using assms(2,4) xs(3) by (auto simp: read_storage_def in_piece_def)
qed

lemma write_storage_on:
  assumes "storage_on s ps A path d" "in_piece ps p off len" "nat len \<le> length bs"
  shows "write_storage ps (Some bs) p off len err s =
           Inr (s\<lparr>os_devs := (os_devs s)(path \<mapsto>
             d\<lparr>dev_data := poke (block_addrs A p off len) (take (nat len) bs) (dev_data d)\<rparr>)\<rparr>, err)"
proof -
  note xs = storage_on_addrs [OF assms(1,2)]
  have "os_fds s (ps_fd ps) = Some path" "os_devs s path = Some d" "dev_full d"
    using assms(1) by (simp_all add: storage_on_def)
  from write_slices_full [OF xs(1) this xs(2), of bs err] show ?thesis
    using assms(3) xs(3) by (simp add: write_storage_def)
qed

lemma storage_on_update:
  assumes "storage_on s ps A path d" "length bs = length (dev_data d)"
  shows "storage_on (s\<lparr>os_devs := (os_devs s)(path \<mapsto> d\<lparr>dev_data := bs\<rparr>)\<rparr>) ps A path
           (d\<lparr>dev_data := bs\<rparr>)"
  using assms by (simp add: storage_on_def dev_full_def)

section \<open>Properties of the partition storage\<close>

text \<open>C31: A file name in the documented format, 16 hexadecimal digits, is parsed back to the offset
  it was printed from, and byte \<open>i\<close> of that file is at that offset plus \<open>i\<close> on the partition, as long
  as the sum fits into a signed 64-bit integer.\<close>

theorem offset_name_roundtrip:
  assumes "fs_file_name fs (fsl_file_index sl) = to_hex 16 n"
    and "0 \<le> fsl_offset sl" "int n + fsl_offset sl < 2 ^ 63"
  shows "stoll16 (to_hex 16 n) = Inr (int n) \<and> partition_offset fs sl = Inr (Inr (int n + fsl_offset sl))"
proof -
  have "int n < 2 ^ 63"
    using assms(2,3) by linarith
  then have "n < 2 ^ 63"
    by (simp only: of_nat_less_iff [where 'a = int, symmetric] of_nat_power of_nat_numeral)
  then have r: "stoll16 (to_hex 16 n) = Inr (int n)"
    by (rule stoll16_to_hex)
  have "i64 (int n + fsl_offset sl) = int n + fsl_offset sl"
    using assms(2,3) by (intro i64_id) auto
  then show ?thesis
    by (simp only: partition_offset_def assms(1) r sum.case simp_thms if_True)
qed

theorem offset_name_roundtrip_witness:
  "to_hex 16 131072 = ''0000000000020000'' \<and>
   partition_offset (ranges_storage [(0, 4), (131072, 8)] 16)
     \<lparr>fsl_file_index = 1, fsl_offset = 5, fsl_size = 3\<rparr> = Inr (Inr 131077)"
proof
  show "to_hex 16 131072 = ''0000000000020000''"
    by (simp add: to_hex_numeral hex_char_def char_of_eq_iff)
  let ?sl = "\<lparr>fsl_file_index = 1, fsl_offset = 5, fsl_size = 3\<rparr>"
  let ?fs = "ranges_storage [(0, 4), (131072, 8)] 16"
  have "fs_file_name ?fs (fsl_file_index ?sl) = to_hex 16 131072"
    by (simp add: ranges_storage_def del: to_hex.simps)
  from offset_name_roundtrip [OF this] show "partition_offset ?fs ?sl = Inr (Inr 131077)"
    by (simp del: to_hex.simps)
qed

text \<open>C30: On a healthy device, writing a request and reading it back returns the bytes written, and
  the write changes no other byte of that device and no other device.\<close>

theorem storage_write_read_roundtrip:
  assumes "storage_on s ps A path d" "in_piece ps p off len" "nat len \<le> length bs"
    and "inj_on (A p) {nat off..<nat (off + len)}" "h a = Some blk" "pos + nat len \<le> length blk"
  shows "\<exists>s'. write_storage ps (Some bs) p off len err s = Inr (s', err) \<and>
           read_storage ps s' (Some (a, pos)) p off len err' h =
             Inr (h(a \<mapsto> blit pos (take (nat len) bs) blk), len, err') \<and>
           (\<forall>path'. path' \<noteq> path \<longrightarrow> os_devs s' path' = os_devs s path') \<and>
           (\<forall>x. x \<notin> A p ` {nat off..<nat (off + len)} \<longrightarrow>
              (\<exists>d'. os_devs s' path = Some d' \<and> dev_data d' ! x = dev_data d ! x))"
proof -
  let ?xs = "block_addrs A p off len"
  let ?d = "d\<lparr>dev_data := poke ?xs (take (nat len) bs) (dev_data d)\<rparr>"
  let ?s = "s\<lparr>os_devs := (os_devs s)(path \<mapsto> ?d)\<rparr>"
  note xs = storage_on_addrs [OF assms(1,2)]
  have "storage_on ?s ps A path ?d"
    by (rule storage_on_update [OF assms(1)]) simp
  moreover have "peek ?xs (dev_data ?d) = take (nat len) bs"
    using assms(3,4) xs(2,3) peek_poke_same [of ?xs "take (nat len) bs" "dev_data d"]
    by (simp add: distinct_map)
  ultimately have "read_storage ps ?s (Some (a, pos)) p off len err' h =
      Inr (h(a \<mapsto> blit pos (take (nat len) bs) blk), len, err')"
    using read_storage_on [of ?s ps A path ?d p off len h a blk pos err'] assms(2,5,6) by simp
  then show ?thesis
    using write_storage_on [OF assms(1-3), of err] by (auto simp: nth_poke_other)
qed

text \<open>The instance of the witnesses: two ranges of a 16-byte device, in one piece of seven bytes.\<close>

definition example_os :: os where
  "example_os = \<lparr>os_fds = [3 \<mapsto> ''/dev/sda1''],
     os_devs = [''/dev/sda1'' \<mapsto> \<lparr>dev_data = replicate 16 0, dev_xfer = (\<lambda>off n. n)\<rparr>]\<rparr>"

definition example_storage :: partition_storage where
  "example_storage = \<lparr>ps_fd = 3, ps_mapping_addr = None, ps_mapping_len = 0,
     ps_fs = ranges_storage [(2, 3), (8, 4)] 7\<rparr>"

definition example_addr :: "int \<Rightarrow> nat \<Rightarrow> nat" where
  "example_addr p i = cells [(2, 3), (8, 4)] ! (nat p * 7 + i)"

lemma example_storage_on:
  "storage_on example_os example_storage example_addr ''/dev/sda1''
     \<lparr>dev_data = replicate 16 0, dev_xfer = (\<lambda>off n. n)\<rparr>"
proof -
  have "fs_layout (ranges_storage [(2, 3), (8, 4)] 7) example_addr"
    using ranges_layout [of "[(2, 3), (8, 4)]" 7] by (simp add: example_addr_def [abs_def])
  moreover have "example_addr p i < 16" if "nat p * 7 + i < 7" for p i
  proof -
    have "example_addr p i \<in> set (cells [(2, 3), (8, 4)])"
      unfolding example_addr_def using that by (intro nth_mem) simp
    then show ?thesis by auto
  qed
  moreover have "nat p * 7 + i < 7" if "int i < fs_piece_size (ranges_storage [(2, 3), (8, 4)] 7) p" for p i
    using that by (auto simp: ranges_storage_def)
  ultimately show ?thesis
    by (simp add: storage_on_def example_os_def example_storage_def dev_full_def)
qed

lemma example_inj: "inj_on (example_addr 0) {..<7}"
proof (rule inj_onI)
  fix x y assume "x \<in> {..<7::nat}" "y \<in> {..<7::nat}" "example_addr 0 x = example_addr 0 y"
  then show "x = y"
    using nth_eq_iff_index_eq [of "cells [(2, 3), (8, 4)]" x y] by (simp add: example_addr_def)
qed

theorem storage_write_read_roundtrip_witness:
  "\<exists>s'. write_storage example_storage (Some [7, 8, 9, 10]) 0 1 4 storage_error_init example_os =
          Inr (s', storage_error_init) \<and>
        read_storage example_storage s' (Some (0, 2)) 0 1 4 storage_error_init
          [0 \<mapsto> replicate 8 0] =
          Inr ([0 \<mapsto> [0, 0, 7, 8, 9, 10, 0, 0]], 4, storage_error_init)"
proof -
  have "in_piece example_storage 0 1 4"
    by (simp add: in_piece_def example_storage_def ranges_storage_def)
  moreover have "inj_on (example_addr 0) {nat 1..<nat (1 + 4)}"
    by (rule inj_on_subset [OF example_inj]) auto
  moreover have "blit 2 [7, 8, 9, 10] (replicate 8 0) = [0, 0, 7, 8, 9, 10, 0, (0 :: byte)]"
    by (simp add: blit_def numeral_eq_Suc)
  ultimately show ?thesis
    using storage_write_read_roundtrip [OF example_storage_on, of 0 1 4 "[7, 8, 9, 10]"
        "[0 \<mapsto> replicate 8 0]" 0 "replicate 8 0" 2 storage_error_init storage_error_init]
    by (auto simp: fun_upd_def)
qed

lemma read_slices_ret:
  assumes "slice_addrs (ps_fs ps) sls = Some xs" "h a = Some blk" "pos + length xs \<le> length blk"
    and "0 \<le> ret" "ret + int (length xs) < 2147483648"
  shows "\<exists>blk'. read_slices ps s sls a pos ret err h = Inr (h(a \<mapsto> blk'), ret + int (length xs), err) \<and>
           ((\<forall>n off. pread s (ps_fd ps) n off = []) \<longrightarrow> blk' = blk)"
  using assms
proof (induction sls arbitrary: pos ret h blk xs)
  case Nil
  then show ?case by (intro exI [of _ blk]) (simp add: fun_upd_idem)
next
  case (Cons sl sls)
  from Cons.prems(1) obtain off ys where off: "partition_offset (ps_fs ps) sl = Inr (Inr off)" "0 \<le> off"
      "0 \<le> fsl_size sl" "fsl_size sl < 2147483648"
    and ys: "slice_addrs (ps_fs ps) sls = Some ys"
    and xs: "xs = [nat off..<nat off + nat (fsl_size sl)] @ ys"
    by (rule slice_addrs_ConsE)
  let ?bs = "pread s (ps_fd ps) (size_t (fsl_size sl)) off"
  let ?blk = "blit pos ?bs blk"
  have b: "pos + length ?bs \<le> length blk"
    using Cons.prems(3) xs off length_pread [of s "ps_fd ps" "size_t (fsl_size sl)" off]
    by (simp add: wrap_simps)
  have ret: "i32 (ret + fsl_size sl) = ret + fsl_size sl"
    using Cons.prems(4,5) off xs by (simp add: wrap_simps)
  have "\<exists>blk'. read_slices ps s sls a (pos + nat (fsl_size sl)) (ret + fsl_size sl) err (h(a \<mapsto> ?blk)) =
      Inr ((h(a \<mapsto> ?blk))(a \<mapsto> blk'), ret + fsl_size sl + int (length ys), err) \<and>
      ((\<forall>n off. pread s (ps_fd ps) n off = []) \<longrightarrow> blk' = ?blk)"
    by (rule Cons.IH [OF ys]) (use Cons.prems off xs b in auto)
  then obtain blk' where r: "read_slices ps s sls a (pos + nat (fsl_size sl)) (ret + fsl_size sl) err
      (h(a \<mapsto> ?blk)) = Inr (h(a \<mapsto> blk'), ret + int (length xs), err)"
    and eq: "(\<forall>n off. pread s (ps_fd ps) n off = []) \<longrightarrow> blk' = ?blk"
    using off xs by (auto simp: add.assoc)
  have "read_slices ps s (sl # sls) a pos ret err h = Inr (h(a \<mapsto> blk'), ret + int (length xs), err)"
    using r off ret b Cons.prems(2) by (simp add: heap_simps fun_upd_def)
  moreover have "(\<forall>n off. pread s (ps_fd ps) n off = []) \<longrightarrow> blk' = blk"
    using eq by simp
  ultimately show ?case by blast
qed

text \<open>A descriptor on which nothing is transferred: it is not open, or its device moves no byte.\<close>

definition moves_nothing :: "os \<Rightarrow> int \<Rightarrow> bool" where
  "moves_nothing s fd \<longleftrightarrow> (case device_of s fd of None \<Rightarrow> True | Some d \<Rightarrow> \<forall>off n. dev_xfer d off n = 0)"

lemma moves_nothing_pread: "moves_nothing s fd \<Longrightarrow> pread s fd n off = []"
  by (auto simp: moves_nothing_def pread_def split: option.splits)

lemma moves_nothing_pwrite: "moves_nothing s fd \<Longrightarrow> pwrite s fd bs off = s"
  by (auto simp: moves_nothing_def device_of_def pwrite_def dev_write_def fun_upd_idem split: option.splits)

lemma write_slices_ret:
  assumes "slice_addrs (ps_fs ps) sls = Some xs" "length xs \<le> length bs"
  shows "\<exists>s'. write_slices ps sls bs err s = Inr (s', err) \<and> (moves_nothing s (ps_fd ps) \<longrightarrow> s' = s)"
  using assms
proof (induction sls arbitrary: bs xs s)
  case (Cons sl sls)
  from Cons.prems(1) obtain off ys where off: "partition_offset (ps_fs ps) sl = Inr (Inr off)"
      "0 \<le> fsl_size sl" "fsl_size sl < 2147483648"
    and ys: "slice_addrs (ps_fs ps) sls = Some ys" and xs: "xs = [nat off..<nat off + nat (fsl_size sl)] @ ys"
    by (rule slice_addrs_ConsE)
  have "length ys \<le> length (drop (nat (fsl_size sl)) bs)"
    using Cons.prems(2) xs by simp
  from Cons.IH [OF ys this, of "pwrite s (ps_fd ps) (take (nat (fsl_size sl)) bs) off"] show ?case
    using off Cons.prems(2) xs moves_nothing_pwrite [of s "ps_fd ps"] by (auto simp: wrap_simps)
qed simp

text \<open>C33: I/O failures go unnoticed: whatever the device does, a transfer whose names parse reports no error, and
  \<open>read\<close> reports its full length. When nothing is transferred, because the descriptor is not open or because the
  device moves no byte, \<open>read\<close> hands out the bytes the buffer had before and \<open>write\<close> has changed nothing.\<close>

theorem io_failures_go_unnoticed:
  assumes "slice_addrs (ps_fs ps) (fs_map_block (ps_fs ps) p off len) = Some xs"
    and "length xs = nat len" "0 \<le> len" "len < 2147483648" "h a = Some blk" "nat len \<le> length blk"
  shows "(\<exists>blk'. read_storage ps s (Some (a, 0)) p off len err h = Inr (h(a \<mapsto> blk'), len, err) \<and>
            (moves_nothing s (ps_fd ps) \<longrightarrow> blk' = blk)) \<and>
         (\<exists>s'. write_storage ps (Some blk) p off len err s = Inr (s', err) \<and>
            (moves_nothing s (ps_fd ps) \<longrightarrow> s' = s))"
proof
  show "\<exists>blk'. read_storage ps s (Some (a, 0)) p off len err h = Inr (h(a \<mapsto> blk'), len, err) \<and>
      (moves_nothing s (ps_fd ps) \<longrightarrow> blk' = blk)"
    using read_slices_ret [where h = h and a = a and pos = 0 and ret = 0, OF assms(1,5)] assms(2-4,6)
    by (force simp: read_storage_def moves_nothing_pread)
  show "\<exists>s'. write_storage ps (Some blk) p off len err s = Inr (s', err) \<and> (moves_nothing s (ps_fd ps) \<longrightarrow> s' = s)"
    using write_slices_ret [OF assms(1)] assms(2,6) by (simp add: write_storage_def)
qed

theorem io_failures_go_unnoticed_witness:
  "let s = \<lparr>os_fds = [3 \<mapsto> ''/dev/sda1''],
            os_devs = [''/dev/sda1'' \<mapsto> \<lparr>dev_data = replicate 16 0, dev_xfer = (\<lambda>off n. 0)\<rparr>]\<rparr>
   in read_storage example_storage s (Some (0, 0)) 0 1 4 storage_error_init [0 \<mapsto> [1, 2, 3, 4]] =
        Inr ([0 \<mapsto> [1, 2, 3, 4]], 4, storage_error_init) \<and>
      write_storage example_storage (Some [1, 2, 3, 4]) 0 1 4 storage_error_init s = Inr (s, storage_error_init)"
proof -
  let ?s = "\<lparr>os_fds = [3 \<mapsto> ''/dev/sda1''],
    os_devs = [''/dev/sda1'' \<mapsto> \<lparr>dev_data = replicate 16 0, dev_xfer = (\<lambda>off n. 0)\<rparr>]\<rparr> :: os"
  let ?h = "[0 \<mapsto> [1, 2, 3, 4]] :: heap"
  have "in_piece example_storage 0 1 4"
    by (simp add: in_piece_def example_storage_def ranges_storage_def)
  note xs = storage_on_addrs [OF example_storage_on this]
  have "moves_nothing ?s (ps_fd example_storage)"
    by (simp add: moves_nothing_def device_of_def example_storage_def)
  then show ?thesis
    using io_failures_go_unnoticed [where h = ?h and a = 0 and s = ?s and err = storage_error_init, OF xs(1,3)]
    by (simp add: Let_def fun_upd_def)
qed

text \<open>C34: The position of a slice can overflow. The number a file name stands for comes from the torrent and only has to
  fit into a signed 64-bit integer; when adding the offset inside the file passes the largest such integer,
  \<open>read\<close> and \<open>write\<close> have undefined behaviour at that slice, whatever was transferred before it.\<close>

theorem offset_sum_overflows:
  assumes "fs_map_block (ps_fs ps) p off len = sls @ bad # rest" "slice_addrs (ps_fs ps) sls = Some xs"
    and "stoll16 (fs_file_name (ps_fs ps) (fsl_file_index bad)) = Inr n"
    and "2 ^ 63 \<le> n + fsl_offset bad"
    and "os_fds s (ps_fd ps) = Some path" "os_devs s path = Some d" "dev_full d"
    and "\<forall>x \<in> set xs. x < length (dev_data d)" "length xs \<le> length blk" "length xs < 2147483648" "h a = Some blk"
  shows "read_storage ps s (Some (a, 0)) p off len err h = Inl SignedOverflow \<and>
         write_storage ps (Some blk) p off len err s = Inl SignedOverflow"
proof
  have "i64 (n + fsl_offset bad) \<noteq> n + fsl_offset bad"
    using assms(4) by (simp add: i64_def signed_take_bit_int_eq_self_iff)
  then have bad: "partition_offset (ps_fs ps) bad = Inl SignedOverflow"
    using assms(3) by (simp add: partition_offset_def)
  have "device_of s (ps_fd ps) = Some d"
    using assms(5,6) by (simp add: device_of_def)
  from read_slices_full_append [where h = h and a = a and pos = 0 and ret = 0 and rest = "bad # rest",
      OF assms(2) this assms(7,8,11)]
  show "read_storage ps s (Some (a, 0)) p off len err h = Inl SignedOverflow"
    using assms(1,9,10) bad by (simp add: read_storage_def)
  show "write_storage ps (Some blk) p off len err s = Inl SignedOverflow"
    using write_slices_full_append [OF assms(2,5-9), of "bad # rest"] assms(1) bad by (simp add: write_storage_def)
qed

theorem offset_sum_overflows_witness:
  "\<exists>fs. fs_file_name fs 0 = ''7fffffffffffffff'' \<and>
     read_storage (example_storage\<lparr>ps_fs := fs\<rparr>) example_os (Some (0, 0)) 0 1 1 storage_error_init [0 \<mapsto> [1, 2]] =
       Inl SignedOverflow"
proof -
  define bad where "bad = \<lparr>fsl_file_index = 0, fsl_offset = 1, fsl_size = 1\<rparr>"
  define fs where "fs = \<lparr>fs_map_block = (\<lambda>p off len. [bad]), fs_file_name = (\<lambda>i. ''7fffffffffffffff''),
     fs_piece_size = (\<lambda>p. 2)\<rparr>"
  have "stoll16 ''7fffffffffffffff'' = Inr 9223372036854775807"
    by (rule stoll16_digits) (auto simp: hex_digit_def)
  then have "read_storage (example_storage\<lparr>ps_fs := fs\<rparr>) example_os (Some (0, 0)) 0 1 1 storage_error_init [0 \<mapsto> [1, 2]] =
      Inl SignedOverflow"
    using offset_sum_overflows [of "example_storage\<lparr>ps_fs := fs\<rparr>" 0 1 1 "[]" bad "[]" "[]" 9223372036854775807 example_os
        "''/dev/sda1''" _ "[1, 2]" "[0 \<mapsto> [1, 2]]" 0 storage_error_init]
    by (auto simp: fs_def bad_def example_os_def example_storage_def dev_full_def)
  then show ?thesis
    by (intro exI [of _ fs]) (simp add: fs_def)
qed

text \<open>C32: A file name that does not parse stops \<open>read\<close> and \<open>write\<close> at that file: the slices in front
  of it have been transferred, nothing behind it is, and the error names the file, the code
  \<open>parse_failed\<close> and the operation.\<close>

theorem parse_failure_stops_transfer:
  assumes "fs_map_block (ps_fs ps) p off len = sls @ bad # rest"
    and "slice_addrs (ps_fs ps) sls = Some xs" "partition_offset (ps_fs ps) bad = Inr (Inl e)"
    and "os_fds s (ps_fd ps) = Some path" "os_devs s path = Some d" "dev_full d"
    and "\<forall>x \<in> set xs. x < length (dev_data d)" "length xs \<le> length blk" "length xs < 2147483648"
    and "h a = Some blk"
  shows "read_storage ps s (Some (a, 0)) p off len err h =
           Inr (h(a \<mapsto> blit 0 (peek xs (dev_data d)) blk), int (length xs),
                err\<lparr>err_file := fsl_file_index bad, err_ec := parse_failed, err_operation := file_read\<rparr>) \<and>
         write_storage ps (Some blk) p off len err s =
           Inr (s\<lparr>os_devs := (os_devs s)(path \<mapsto>
                   d\<lparr>dev_data := poke xs (take (length xs) blk) (dev_data d)\<rparr>)\<rparr>,
                err\<lparr>err_file := fsl_file_index bad, err_ec := parse_failed, err_operation := file_write\<rparr>)"
proof
  have "device_of s (ps_fd ps) = Some d"
    using assms(4,5) by (simp add: device_of_def)
  from read_slices_full_append [where h = h and a = a and pos = 0 and ret = 0 and rest = "bad # rest",
      OF assms(2) this assms(6,7,10)]
  show "read_storage ps s (Some (a, 0)) p off len err h =
      Inr (h(a \<mapsto> blit 0 (peek xs (dev_data d)) blk), int (length xs),
           err\<lparr>err_file := fsl_file_index bad, err_ec := parse_failed, err_operation := file_read\<rparr>)"
    using assms(1,3,8,9) by (simp add: read_storage_def)
  show "write_storage ps (Some blk) p off len err s =
      Inr (s\<lparr>os_devs := (os_devs s)(path \<mapsto>
             d\<lparr>dev_data := poke xs (take (length xs) blk) (dev_data d)\<rparr>)\<rparr>,
           err\<lparr>err_file := fsl_file_index bad, err_ec := parse_failed, err_operation := file_write\<rparr>)"
    using write_slices_full_append [OF assms(2,4-8), of "bad # rest"] assms(1,3)
    by (simp add: write_storage_def)
qed

theorem parse_failure_stops_transfer_witness:
  "\<exists>fs. partition_offset fs \<lparr>fsl_file_index = 1, fsl_offset = 0, fsl_size = 2\<rparr> = Inr (Inl invalid_argument) \<and>
     (\<exists>h' s'. read_storage (example_storage\<lparr>ps_fs := fs\<rparr>) example_os (Some (0, 0)) 0 0 4
          storage_error_init [0 \<mapsto> [1, 2, 3, 4]] =
        Inr (h', 2, \<lparr>err_ec = parse_failed, err_operation = file_read, err_file = 1\<rparr>) \<and>
      write_storage (example_storage\<lparr>ps_fs := fs\<rparr>) (Some [1, 2, 3, 4]) 0 0 4
          storage_error_init example_os =
        Inr (s', \<lparr>err_ec = parse_failed, err_operation = file_write, err_file = 1\<rparr>))"
proof -
  define good where "good = \<lparr>fsl_file_index = 0, fsl_offset = 0, fsl_size = 2\<rparr>"
  define bad where "bad = \<lparr>fsl_file_index = 1, fsl_offset = 0, fsl_size = 2\<rparr>"
  define fs where "fs = \<lparr>fs_map_block = (\<lambda>p off len. [good, bad]),
     fs_file_name = (\<lambda>i. if i = 0 then to_hex 16 5 else ''README''), fs_piece_size = (\<lambda>p. 4)\<rparr>"
  have b: "partition_offset fs bad = Inr (Inl invalid_argument)"
    by (simp add: partition_offset_def fs_def bad_def stoll16_def take_sign_def strip_0x_def
        hex_digit_def is_space_def)
  have g: "slice_addrs fs [good] = Some [5, 6]"
    using stoll16_to_hex [of 5]
    by (simp add: partition_offset_def fs_def good_def wrap_simps del: to_hex.simps)
  let ?h = "[0 \<mapsto> [1, 2, 3, 4]] :: heap"
  note * = parse_failure_stops_transfer [of "example_storage\<lparr>ps_fs := fs\<rparr>" 0 0 4 "[good]" bad "[]"
      "[5, 6]" invalid_argument example_os "''/dev/sda1''" _ "[1, 2, 3, 4]" ?h 0 storage_error_init]
  show ?thesis
    using * b g
    by (intro exI [of _ fs])
      (auto simp: fs_def bad_def example_os_def example_storage_def dev_full_def storage_error_init_def)
qed

end
