(* ===== verification/Raw_Disk_IO.thy ===== *)
theory Raw_Disk_IO
  imports Buffer_Pool Store_Buffer Partition_Storage
begin

text \<open>
  The class \<open>raw_disk_io\<close> (\<open>raw_disk_io.hpp\<close>, \<open>raw_disk_io.cpp\<close>), the disk back end given to
  libtorrent. Its state is a record with the two buffer pools, the store buffer, the jobs posted to
  the three thread pools, the completions posted to the io context, the storages and the free slots;
  \<open>world\<close> adds the memory, the operating system and what the client has been handed. A method is one
  function on the world; a posted lambda is a job value, and running it is a function of its own.
\<close>

unbundle bit_operations_syntax

section \<open>Requests, jobs, completions\<close>

record peer_request =
  pr_piece :: int
  pr_start :: int
  pr_length :: int

type_synonym handler = nat
type_synonym digest = bytes

text \<open>A default constructed \<open>sha1_hash\<close>.\<close>

definition sha1_hash_zero :: digest where
  "sha1_hash_zero = replicate 20 0"

datatype status_t = status_no_error | status_fatal_disk_error

text \<open>
  A call of a completion handler with its arguments. The handler itself is a name; a handler that may
  be an empty \<open>std::function\<close> is an option.
\<close>

datatype completion =
    ReadDone handler "addr option" storage_error
  | WriteDone handler storage_error
  | HashDone handler int digest storage_error
  | MoveDone handler status_t string storage_error
  | CheckDone handler status_t storage_error
  | StopDone "handler option"
  | RenameDone handler string int storage_error
  | DeleteDone handler storage_error
  | PriorityDone handler storage_error "int list"
  | ClearDone handler int

datatype ioc_job = Complete completion | Watermark "observer list"

text \<open>
  The two lambdas posted by \<open>async_read\<close>, with the variables they capture: one for a request of
  which \<open>ret\<close> tells the half that is missing, one for a whole request.
\<close>

datatype read_job =
    ReadPartial int peer_request int int int addr handler
  | ReadWhole int peer_request addr handler

text \<open>
  The lambda posted by \<open>async_write\<close>. Other threads can run between writing to the storage, erasing
  the block from the store buffer and posting the completion.
\<close>

datatype write_stage = Storing | Erasing storage_error | Posting storage_error

record write_job =
  wj_storage :: int
  wj_req :: peer_request
  wj_buf :: addr
  wj_handler :: handler
  wj_stage :: write_stage

text \<open>
  The lambda posted by \<open>async_hash\<close> between two rounds of its loop: the loop variables, the arguments
  of the \<open>update\<close> calls so far, and whether the loop has been left.
\<close>

record hash_job =
  hj_storage :: int
  hj_piece :: int
  hj_buf :: addr
  hj_handler :: handler
  hj_i :: int
  hj_offset :: int
  hj_chunks :: "bytes list"
  hj_error :: storage_error
  hj_done :: bool

section \<open>State\<close>

record raw_disk_io =
  read_buffer_pool :: buffer_pool
  write_buffer_pool :: buffer_pool
  store_buf :: store_buffer
  read_thread_pool :: "read_job list"
  write_thread_pool :: "write_job list"
  hash_thread_pool :: "hash_job list"
  ioc :: "ioc_job list"
  storages :: "(int \<times> partition_storage option) list"
  free_slots :: "int list"

text \<open>
  \<open>client_bufs\<close> are the read buffers handed to the client in a \<open>disk_buffer_holder\<close>; \<open>invoked\<close> and
  \<open>notified\<close> list the handlers called and the observers woken so far.
\<close>

record world = raw_disk_io +
  mem :: heap
  sys :: os
  client_bufs :: "addr list"
  invoked :: "completion list"
  notified :: "observer list"

text \<open>The constructor, in a world with the given memory and operating system.\<close>

definition raw_disk_io_new :: "heap \<Rightarrow> os \<Rightarrow> world" where
  "raw_disk_io_new m s =
     \<lparr>read_buffer_pool = buffer_pool_init, write_buffer_pool = buffer_pool_init,
      store_buf = store_buffer_init, read_thread_pool = [], write_thread_pool = [],
      hash_thread_pool = [], ioc = [], storages = [], free_slots = [],
      mem = m, sys = s, client_bufs = [], invoked = [], notified = []\<rparr>"

text \<open>What \<open>main\<close> gives to the session to make its disk back end; settings and counters are not used.\<close>

definition raw_disk_io_constructor :: "'settings \<Rightarrow> 'counters \<Rightarrow> heap \<Rightarrow> os \<Rightarrow> world" where
  "raw_disk_io_constructor settings counters m s = raw_disk_io_new m s"

text \<open>The number of threads of each pool.\<close>

definition pool_threads :: nat where
  "pool_threads = 8"

definition post_ioc :: "completion \<Rightarrow> world \<Rightarrow> world" where
  "post_ioc c w = w\<lparr>ioc := ioc w @ [Complete c]\<rparr>"

text \<open>A handler that is called: a buffer passed to it belongs to the client from then on.\<close>

definition invoke :: "completion \<Rightarrow> world \<Rightarrow> world" where
  "invoke c w =
     w\<lparr>invoked := invoked w @ [c],
       client_bufs := client_bufs w @
         (case c of ReadDone h (Some buf) e \<Rightarrow> [buf] | _ \<Rightarrow> [])\<rparr>"

definition io_error :: "error_code \<Rightarrow> operation_t \<Rightarrow> storage_error" where
  "io_error ec operation =
     storage_error_init\<lparr>err_ec := ec, err_operation := operation\<rparr>"

section \<open>Torrents and slots\<close>

text \<open>
  \<open>opened\<close> is what \<open>open\<close> returns for the partition. When it fails the process exits (\<open>Inl\<close> of the
  status). \<open>emplace\<close> keeps an entry that is there; the new storage is destroyed in that case.
\<close>

definition new_torrent ::
  "string \<Rightarrow> file_storage \<Rightarrow> int \<Rightarrow> world \<Rightarrow> int + int \<times> world" where
  "new_torrent path fs opened w =
     (let (idx, slots) =
        (case free_slots w of
           [] \<Rightarrow> (i32 (int (length (storages w))), [])
         | i # rest \<Rightarrow> (i, rest))
      in case partition_storage_new path fs opened (sys w) of
           Inl status \<Rightarrow> Inl status
         | Inr (storage, s) \<Rightarrow>
             Inr (idx,
               w\<lparr>free_slots := slots,
                 sys := (if map_of (storages w) idx = None then s
                         else partition_storage_delete storage s),
                 storages := omap_emplace idx (Some storage) (storages w)\<rparr>))"

definition remove_torrent :: "int \<Rightarrow> world \<Rightarrow> world" where
  "remove_torrent idx w =
     w\<lparr>sys := (case map_of (storages w) idx of
                 Some (Some storage) \<Rightarrow> partition_storage_delete storage (sys w)
               | _ \<Rightarrow> sys w),
       storages := omap_erase idx (storages w),
       free_slots := free_slots w @ [idx]\<rparr>"

text \<open>
  \<open>storages_[idx]->\<close>: the index operator makes a null entry for a missing index, so in both cases
  the dereference is of a null pointer.
\<close>

definition deref_storage :: "int \<Rightarrow> world \<Rightarrow> ub + partition_storage" where
  "deref_storage idx w =
     (case map_of (storages w) idx of
        Some (Some storage) \<Rightarrow> Inr storage
      | _ \<Rightarrow> Inl NullDeref)"

section \<open>Reading\<close>

text \<open>\<open>memcpy(dst + dst_off, src + src_off, n)\<close> between heap blocks.\<close>

definition memcpy_block :: "addr \<Rightarrow> nat \<Rightarrow> addr \<Rightarrow> nat \<Rightarrow> nat \<Rightarrow> ub + heap \<Rightarrow> ub + heap" where
  "memcpy_block dst dst_off src src_off n m =
     bind_res m (\<lambda>h. bind_res (heap_load h src src_off n) (heap_store h dst dst_off))"

text \<open>The callback given to \<open>get2\<close>.\<close>

definition copy_halves ::
  "addr \<Rightarrow> int \<Rightarrow> int \<Rightarrow> int \<Rightarrow> addr option \<Rightarrow> addr option \<Rightarrow> ub + heap \<Rightarrow> int \<times> (ub + heap)" where
  "copy_halves buf read_offset len1 len buf1 buf2 m =
     (let m1 = (case buf1 of None \<Rightarrow> m
                | Some b1 \<Rightarrow> memcpy_block buf 0 b1 (nat read_offset) (size_t len1) m);
          m2 = (case buf2 of None \<Rightarrow> m1
                | Some b2 \<Rightarrow> memcpy_block buf (nat len1) b2 0 (size_t (len - len1)) m1)
      in ((if buf1 \<noteq> None then 2 else 0) OR (if buf2 \<noteq> None then 1 else 0), m2))"

definition post_read :: "read_job \<Rightarrow> world \<Rightarrow> world" where
  "post_read j w = w\<lparr>read_thread_pool := read_thread_pool w @ [j]\<rparr>"

definition async_read ::
  "(addr \<times> bytes) option \<Rightarrow> int \<Rightarrow> peer_request \<Rightarrow> handler \<Rightarrow> world \<Rightarrow> ub + world" where
  "async_read mres idx r handler w =
     (if DEFAULT_BLOCK_SIZE < pr_length r then Inl AssertFail
      else if pr_length r \<le> 0 \<or> pr_start r < 0
      then Inr (invoke (ReadDone handler None (io_error invalid_request file_read)) w)
      else case allocate_buffer mres (mem w) (read_buffer_pool w) of
        (None, m, p) \<Rightarrow>
          Inr (invoke (ReadDone handler None (io_error no_memory alloc_cache_piece))
                 (w\<lparr>mem := m, read_buffer_pool := p\<rparr>))
      | (Some buf, m, p) \<Rightarrow>
          let w = w\<lparr>mem := m, read_buffer_pool := p\<rparr>;
              block_offset = pr_start r - pr_start r mod DEFAULT_BLOCK_SIZE;
              read_offset = pr_start r - block_offset
          in if DEFAULT_BLOCK_SIZE < i32 (read_offset + pr_length r)
             then
               let loc1 = torrent_location idx (pr_piece r) block_offset;
                   loc2 = torrent_location idx (pr_piece r) (i32 (block_offset + DEFAULT_BLOCK_SIZE));
                   len1 = DEFAULT_BLOCK_SIZE - read_offset
               in if \<not> len1 < pr_length r then Inl AssertFail
                  else case get2 loc1 loc2 (copy_halves buf read_offset len1 (pr_length r))
                              (store_buf w) (Inr m) of
                    (ret, res) \<Rightarrow> bind_res res (\<lambda>m'.
                      if ret = 3
                      then Inr (invoke (ReadDone handler (Some buf) storage_error_init) (w\<lparr>mem := m'\<rparr>))
                      else if ret \<noteq> 0
                      then Inr (post_read (ReadPartial idx r block_offset len1 ret buf handler)
                                  (w\<lparr>mem := m'\<rparr>))
                      else Inr (post_read (ReadWhole idx r buf handler) (w\<lparr>mem := m'\<rparr>)))
             else
               case get (torrent_location idx (pr_piece r) block_offset)
                      (\<lambda>buf1. memcpy_block buf 0 buf1 (nat read_offset) (size_t (pr_length r)))
                      (store_buf w) (Inr m) of
                 (hit, res) \<Rightarrow> bind_res res (\<lambda>m'.
                   if hit
                   then Inr (invoke (ReadDone handler (Some buf) storage_error_init) (w\<lparr>mem := m'\<rparr>))
                   else Inr (post_read (ReadWhole idx r buf handler) (w\<lparr>mem := m'\<rparr>))))"

text \<open>
  The posted lambdas. The buffer moves from the job into the completion. \<open>read_job_range\<close> gives the
  storage, piece, offset and length of the read and where in the buffer it goes.
\<close>

fun read_job_buf :: "read_job \<Rightarrow> addr" where
  "read_job_buf (ReadPartial idx r block_offset len1 ret buf handler) = buf"
| "read_job_buf (ReadWhole idx r buf handler) = buf"

fun read_job_range :: "read_job \<Rightarrow> int \<times> int \<times> int \<times> int \<times> nat" where
  "read_job_range (ReadPartial idx r block_offset len1 ret buf handler) =
     (idx, pr_piece r,
      if ret = 1 then pr_start r else i32 (block_offset + DEFAULT_BLOCK_SIZE),
      if ret = 1 then len1 else pr_length r - len1,
      if ret = 1 then 0 else nat len1)"
| "read_job_range (ReadWhole idx r buf handler) = (idx, pr_piece r, pr_start r, pr_length r, 0)"

fun read_job_handler :: "read_job \<Rightarrow> handler" where
  "read_job_handler (ReadPartial idx r block_offset len1 ret buf handler) = handler"
| "read_job_handler (ReadWhole idx r buf handler) = handler"

definition run_read :: "read_job \<Rightarrow> world \<Rightarrow> ub + world" where
  "run_read j w =
     (case read_job_range j of (idx, piece, off, len, buf_offset) \<Rightarrow>
        bind_res (deref_storage idx w) (\<lambda>storage.
          bind_res (read_storage storage (sys w) (Some (read_job_buf j, buf_offset)) piece off len
                      storage_error_init (mem w)) (\<lambda>(m, ret, error).
            Inr (post_ioc (ReadDone (read_job_handler j) (Some (read_job_buf j)) error)
                   (w\<lparr>mem := m\<rparr>)))))"

section \<open>Writing\<close>

definition wj_loc :: "write_job \<Rightarrow> torrent_location" where
  "wj_loc j = torrent_location (wj_storage j) (pr_piece (wj_req j)) (pr_start (wj_req j))"

text \<open>
  \<open>data\<close> is the client's memory from \<open>buf\<close> on. The result is the value returned, which tells the
  client whether to stop, and the world.
\<close>

definition async_write ::
  "(addr \<times> bytes) option \<Rightarrow> int \<Rightarrow> peer_request \<Rightarrow> bytes \<Rightarrow> observer option \<Rightarrow> handler \<Rightarrow> world
   \<Rightarrow> ub + bool \<times> world" where
  "async_write mres storage r data ob handler w =
     (if DEFAULT_BLOCK_SIZE < pr_length r then Inl AssertFail
      else case allocate_buffer_observed mres False ob (mem w) (write_buffer_pool w) of
        (Some buf, exceeded, m, p) \<Rightarrow>
          if length data < size_t (pr_length r) then Inl OutOfBounds
          else bind_res (heap_store m buf 0 (take (size_t (pr_length r)) data)) (\<lambda>m'.
            Inr (exceeded,
              w\<lparr>mem := m', write_buffer_pool := p,
                store_buf := insert_block (torrent_location storage (pr_piece r) (pr_start r)) buf
                               (store_buf w),
                write_thread_pool := write_thread_pool w @
                  [\<lparr>wj_storage = storage, wj_req = r, wj_buf = buf, wj_handler = handler,
                    wj_stage = Storing\<rparr>]\<rparr>))
      | (None, exceeded, m, p) \<Rightarrow>
          bind_res (deref_storage storage w) (\<lambda>ps.
            bind_res (write_storage ps (Some data) (pr_piece r) (pr_start r) (pr_length r)
                        storage_error_init (sys w)) (\<lambda>(s, error).
              Inr (exceeded,
                post_ioc (WriteDone handler error)
                  (w\<lparr>mem := m, write_buffer_pool := p, sys := s\<rparr>)))))"

text \<open>A callback posted by a pool goes into the same queue as the completions.\<close>

definition post_watermarks :: "observer list list \<Rightarrow> world \<Rightarrow> world" where
  "post_watermarks qs w = w\<lparr>ioc := ioc w @ map Watermark qs\<rparr>"

definition release_read_buffer :: "addr \<Rightarrow> world \<Rightarrow> ub + world" where
  "release_read_buffer buf w =
     bind_res (free_disk_buffer buf (mem w) (read_buffer_pool w)) (\<lambda>(m, p, qs).
       Inr (post_watermarks qs (w\<lparr>mem := m, read_buffer_pool := p\<rparr>)))"

definition release_write_buffer :: "addr \<Rightarrow> world \<Rightarrow> ub + world" where
  "release_write_buffer buf w =
     bind_res (free_disk_buffer buf (mem w) (write_buffer_pool w)) (\<lambda>(m, p, qs).
       Inr (post_watermarks qs (w\<lparr>mem := m, write_buffer_pool := p\<rparr>)))"

definition remove_at :: "nat \<Rightarrow> 'a list \<Rightarrow> 'a list" where
  "remove_at i xs = take i xs @ drop (Suc i) xs"

text \<open>
  One step of the \<open>i\<close>-th write job: the storage write, the erasure, or the completion followed by
  the destruction of the lambda, which frees its buffer.
\<close>

definition run_write :: "nat \<Rightarrow> world \<Rightarrow> ub + world" where
  "run_write i w =
     (let j = write_thread_pool w ! i in
      case wj_stage j of
        Storing \<Rightarrow>
          (case mem w (wj_buf j) of
             None \<Rightarrow> Inl UseAfterFree
           | Some block \<Rightarrow>
               bind_res (deref_storage (wj_storage j) w) (\<lambda>ps.
                 bind_res (write_storage ps (Some block) (pr_piece (wj_req j)) (pr_start (wj_req j))
                             (pr_length (wj_req j)) storage_error_init (sys w)) (\<lambda>(s, error).
                   Inr (w\<lparr>sys := s,
                          write_thread_pool := (write_thread_pool w)[i := j\<lparr>wj_stage := Erasing error\<rparr>]\<rparr>))))
      | Erasing error \<Rightarrow>
          Inr (w\<lparr>store_buf := erase_block (wj_loc j) (store_buf w),
                 write_thread_pool := (write_thread_pool w)[i := j\<lparr>wj_stage := Posting error\<rparr>]\<rparr>)
      | Posting error \<Rightarrow>
          release_write_buffer (wj_buf j)
            (post_ioc (WriteDone (wj_handler j) error)
               (w\<lparr>write_thread_pool := remove_at i (write_thread_pool w)\<rparr>)))"

section \<open>Hashing\<close>

definition async_hash ::
  "(addr \<times> bytes) option \<Rightarrow> int \<Rightarrow> int \<Rightarrow> handler \<Rightarrow> world \<Rightarrow> world" where
  "async_hash mres storage piece handler w =
     (case allocate_buffer mres (mem w) (read_buffer_pool w) of
        (None, m, p) \<Rightarrow>
          post_ioc (HashDone handler piece sha1_hash_zero (io_error no_memory alloc_cache_piece))
            (w\<lparr>mem := m, read_buffer_pool := p\<rparr>)
      | (Some buf, m, p) \<Rightarrow>
          w\<lparr>mem := m, read_buffer_pool := p,
            hash_thread_pool := hash_thread_pool w @
              [\<lparr>hj_storage = storage, hj_piece = piece, hj_buf = buf, hj_handler = handler,
                hj_i = 0, hj_offset = 0, hj_chunks = [], hj_error = storage_error_init,
                hj_done = False\<rparr>]\<rparr>)"

definition blocks_in_piece :: "int \<Rightarrow> int" where
  "blocks_in_piece psize = trunc_div (i32 (psize + DEFAULT_BLOCK_SIZE - 1)) DEFAULT_BLOCK_SIZE"

text \<open>
  One round of the loop of the hash job for a storage: the block comes from the store buffer if it is
  pending there and from the storage otherwise.
\<close>

definition hash_round :: "partition_storage \<Rightarrow> hash_job \<Rightarrow> world \<Rightarrow> ub + hash_job \<times> heap" where
  "hash_round st j w =
     (let len = min DEFAULT_BLOCK_SIZE (piece_size st (hj_piece j) - hj_offset j);
          loc = torrent_location (hj_storage j) (hj_piece j) (hj_offset j)
      in case get loc (\<lambda>buf1 _. map_sum id (\<lambda>bs. (bs, len)) (heap_load (mem w) buf1 0 (size_t len)))
                (store_buf w) (Inr ([], 0)) of
           (True, res) \<Rightarrow>
             bind_res res (\<lambda>(bs, ret).
               if ret \<le> 0 then Inr (j\<lparr>hj_chunks := hj_chunks j @ [bs], hj_done := True\<rparr>, mem w)
               else Inr (j\<lparr>hj_chunks := hj_chunks j @ [bs], hj_offset := i32 (hj_offset j + ret),
                           hj_i := hj_i j + 1\<rparr>, mem w))
         | (False, _) \<Rightarrow>
             bind_res (read_storage st (sys w) (Some (hj_buf j, 0)) (hj_piece j) (hj_offset j) len
                         (hj_error j) (mem w)) (\<lambda>(m, ret, error).
               if ret \<le> 0 then Inr (j\<lparr>hj_error := error, hj_done := True\<rparr>, m)
               else bind_res (heap_load m (hj_buf j) 0 (size_t ret)) (\<lambda>bs.
                 Inr (j\<lparr>hj_chunks := hj_chunks j @ [bs], hj_error := error,
                        hj_offset := i32 (hj_offset j + ret), hj_i := hj_i j + 1\<rparr>, m))))"

text \<open>
  \<open>libtorrent::hasher\<close> as its three operations; the digest of a job is \<open>final\<close> after the \<open>update\<close>
  calls in order.
\<close>

record 'st hasher_api =
  hs_init :: 'st
  hs_update :: "'st \<Rightarrow> bytes \<Rightarrow> 'st"
  hs_final :: "'st \<Rightarrow> digest"

definition job_digest :: "'st hasher_api \<Rightarrow> bytes list \<Rightarrow> digest" where
  "job_digest api chunks = hs_final api (foldl (hs_update api) (hs_init api) chunks)"

text \<open>
  One step of the \<open>i\<close>-th hash job: a round of its loop, or, when the loop is over, the completion and
  the destruction of the lambda, which frees its buffer. The source takes the pointer \<open>st\<close> and the size
  of the piece once, when the lambda starts; they stay the same as long as the torrent is not removed
  under the job, so each step looks them up again. A step after such a removal is undefined here.
\<close>

definition run_hash :: "'st hasher_api \<Rightarrow> nat \<Rightarrow> world \<Rightarrow> ub + world" where
  "run_hash api i w =
     (let j = hash_thread_pool w ! i in
      bind_res (deref_storage (hj_storage j) w) (\<lambda>st.
        if \<not> hj_done j \<and> hj_i j < blocks_in_piece (piece_size st (hj_piece j))
        then bind_res (hash_round st j w) (\<lambda>(j', m).
               Inr (w\<lparr>mem := m, hash_thread_pool := (hash_thread_pool w)[i := j']\<rparr>))
        else release_read_buffer (hj_buf j)
               (post_ioc (HashDone (hj_handler j) (hj_piece j) (job_digest api (hj_chunks j)) (hj_error j))
                  (w\<lparr>hash_thread_pool := remove_at i (hash_thread_pool w)\<rparr>))))"

section \<open>The remaining operations\<close>

definition async_hash2 :: "int \<Rightarrow> int \<Rightarrow> int \<Rightarrow> handler \<Rightarrow> world \<Rightarrow> world" where
  "async_hash2 storage piece off handler w = w"

definition async_move_storage :: "int \<Rightarrow> string \<Rightarrow> handler \<Rightarrow> world \<Rightarrow> world" where
  "async_move_storage storage p handler w =
     post_ioc (MoveDone handler status_fatal_disk_error p
       (io_error operation_not_supported op_unknown)) w"

definition async_release_files :: "int \<Rightarrow> handler option \<Rightarrow> world \<Rightarrow> world" where
  "async_release_files storage handler w = w"

definition async_check_files :: "int \<Rightarrow> handler \<Rightarrow> world \<Rightarrow> world" where
  "async_check_files storage handler w =
     post_ioc (CheckDone handler status_no_error storage_error_init) w"

definition async_stop_torrent :: "int \<Rightarrow> handler option \<Rightarrow> world \<Rightarrow> world" where
  "async_stop_torrent storage handler w = post_ioc (StopDone handler) w"

definition async_rename_file :: "int \<Rightarrow> int \<Rightarrow> string \<Rightarrow> handler \<Rightarrow> world \<Rightarrow> world" where
  "async_rename_file storage index name handler w =
     post_ioc (RenameDone handler name index storage_error_init) w"

definition async_delete_files :: "int \<Rightarrow> handler \<Rightarrow> world \<Rightarrow> world" where
  "async_delete_files storage handler w = post_ioc (DeleteDone handler storage_error_init) w"

definition async_set_file_priority :: "int \<Rightarrow> int list \<Rightarrow> handler \<Rightarrow> world \<Rightarrow> world" where
  "async_set_file_priority storage prio handler w =
     post_ioc (PriorityDone handler (io_error operation_not_supported op_unknown) prio) w"

definition async_clear_piece :: "int \<Rightarrow> int \<Rightarrow> handler \<Rightarrow> world \<Rightarrow> world" where
  "async_clear_piece storage index handler w = post_ioc (ClearDone handler index) w"

text \<open>The operations that at most post a completion.\<close>

lemmas passive_defs = async_hash2_def async_move_storage_def async_release_files_def async_check_files_def
  async_stop_torrent_def async_rename_file_def async_delete_files_def async_set_file_priority_def async_clear_piece_def

text \<open>Methods with an empty body, and \<open>get_status\<close>, which lists no files.\<close>

definition update_stats_counters :: "world \<Rightarrow> world" where
  "update_stats_counters w = w"

definition get_status :: "int \<Rightarrow> world \<Rightarrow> string list" where
  "get_status storage w = []"

definition abort_io :: "bool \<Rightarrow> world \<Rightarrow> world" where
  "abort_io wait w = w"

definition submit_jobs :: "world \<Rightarrow> world" where
  "submit_jobs w = w"

definition settings_updated :: "world \<Rightarrow> world" where
  "settings_updated w = w"

section \<open>The io context\<close>

text \<open>
  The io context runs its queue in order. \<open>alive\<close> are the observers whose weak pointer can still be
  locked.
\<close>

definition run_ioc :: "(observer \<Rightarrow> bool) \<Rightarrow> world \<Rightarrow> ub + world" where
  "run_ioc alive w =
     (case ioc w of
        [] \<Rightarrow> Inr w
      | Complete (StopDone None) # rest \<Rightarrow> Inl BadFunctionCall
      | Complete c # rest \<Rightarrow> Inr (invoke c (w\<lparr>ioc := rest\<rparr>))
      | Watermark cbs # rest \<Rightarrow>
          Inr (w\<lparr>ioc := rest, notified := notified w @ watermark_callback alive cbs\<rparr>))"

text \<open>The client destroys a \<open>disk_buffer_holder\<close> it was given.\<close>

definition client_release :: "addr \<Rightarrow> world \<Rightarrow> ub + world" where
  "client_release buf w =
     release_read_buffer buf (w\<lparr>client_bufs := remove1 buf (client_bufs w)\<rparr>)"

end
