(* ===== verification/Disk_Steps.thy ===== *)
theory Disk_Steps
  imports Raw_Disk_IO
begin

text \<open>
  The disk back end as a transition system: the client's calls, the steps of the jobs in the three
  thread pools in any interleaving, the io context, and the client giving buffers back. The
  invariant ties the pools, the store buffer, the jobs and the slots together. This theory shows that
  the client's calls keep it.
\<close>

named_theorems step_simps \<open>projections of the world after the basic updates\<close>

section \<open>Steps\<close>

datatype label =
    NewTorrent string file_storage int
  | RemoveTorrent int
  | Read "(addr \<times> bytes) option" int peer_request handler
  | Write "(addr \<times> bytes) option" int peer_request bytes "observer option" handler
  | Hash "(addr \<times> bytes) option" int int handler
  | Hash2 int int int handler
  | MoveStorage int string handler
  | ReleaseFiles int "handler option"
  | CheckFiles int handler
  | StopTorrent int "handler option"
  | RenameFile int int string handler
  | DeleteFiles int handler
  | SetFilePriority int "int list" handler
  | ClearPiece int int handler
  | RunRead nat
  | RunWrite nat
  | RunHash nat
  | RunIoc "observer \<Rightarrow> bool"
  | ClientRelease addr

datatype fault = Undefined ub | ExitProcess int

definition lift_ub :: "ub + world \<Rightarrow> fault + world" where
  "lift_ub r = map_sum Undefined id r"

fun exec :: "'st hasher_api \<Rightarrow> label \<Rightarrow> world \<Rightarrow> fault + world" where
  "exec api (NewTorrent path fs opened) w = map_sum ExitProcess snd (new_torrent path fs opened w)"
| "exec api (RemoveTorrent idx) w = Inr (remove_torrent idx w)"
| "exec api (Read mres idx r h) w = lift_ub (async_read mres idx r h w)"
| "exec api (Write mres idx r data ob h) w = lift_ub (map_sum id snd (async_write mres idx r data ob h w))"
| "exec api (Hash mres idx p h) w = Inr (async_hash mres idx p h w)"
| "exec api (Hash2 idx p off h) w = Inr (async_hash2 idx p off h w)"
| "exec api (MoveStorage idx p h) w = Inr (async_move_storage idx p h w)"
| "exec api (ReleaseFiles idx ho) w = Inr (async_release_files idx ho w)"
| "exec api (CheckFiles idx h) w = Inr (async_check_files idx h w)"
| "exec api (StopTorrent idx ho) w = Inr (async_stop_torrent idx ho w)"
| "exec api (RenameFile idx i name h) w = Inr (async_rename_file idx i name h w)"
| "exec api (DeleteFiles idx h) w = Inr (async_delete_files idx h w)"
| "exec api (SetFilePriority idx prio h) w = Inr (async_set_file_priority idx prio h w)"
| "exec api (ClearPiece idx p h) w = Inr (async_clear_piece idx p h w)"
| "exec api (RunRead i) w =
     lift_ub (run_read (read_thread_pool w ! i)
                (w\<lparr>read_thread_pool := remove_at i (read_thread_pool w)\<rparr>))"
| "exec api (RunWrite i) w = lift_ub (run_write i w)"
| "exec api (RunHash i) w = lift_ub (run_hash api i w)"
| "exec api (RunIoc alive) w = lift_ub (run_ioc alive w)"
| "exec api (ClientRelease buf) w = lift_ub (client_release buf w)"

text \<open>The steps of the threads of the pools.\<close>

fun pool_label :: "label \<Rightarrow> bool" where
  "pool_label (RunRead i) \<longleftrightarrow> True"
| "pool_label (RunWrite i) \<longleftrightarrow> True"
| "pool_label (RunHash i) \<longleftrightarrow> True"
| "pool_label _ \<longleftrightarrow> False"

text \<open>Storages that jobs in the thread pools still refer to.\<close>

fun read_job_idx :: "read_job \<Rightarrow> int" where
  "read_job_idx (ReadPartial idx r block_offset len1 ret buf handler) = idx"
| "read_job_idx (ReadWhole idx r buf handler) = idx"

definition busy :: "world \<Rightarrow> int set" where
  "busy w = read_job_idx ` set (read_thread_pool w) \<union> wj_storage ` set (write_thread_pool w) \<union>
            hj_storage ` set (hash_thread_pool w)"

abbreviation live_idx :: "world \<Rightarrow> int set" where
  "live_idx w \<equiv> fst ` set (storages w)"

text \<open>
  The contract of the client and of the system library. Of the calls: a torrent is opened on a fresh
  descriptor and removed once, with no job left for it; requests name a torrent that is there and stay
  within a block; a stop handler is not empty. A job that runs is one of the first eight of its pool,
  since each pool starts its jobs in order on eight threads. A buffer is given back by who holds it.
\<close>

fun allowed :: "label \<Rightarrow> world \<Rightarrow> bool" where
  "allowed (NewTorrent path fs opened) w \<longleftrightarrow>
     0 \<le> opened \<and> os_fds (sys w) opened = None \<and> fs_ok fs \<and>
     length (storages w) + length (free_slots w) < 2147483647"
| "allowed (RemoveTorrent idx) w \<longleftrightarrow> idx \<in> live_idx w \<and> idx \<notin> busy w"
| "allowed (Read mres idx r h) w \<longleftrightarrow>
     malloc_ok (mem w) mres \<and> idx \<in> live_idx w \<and> pr_length r \<le> 16384 \<and> pr_start r < 2147450880"
| "allowed (Write mres idx r data ob h) w \<longleftrightarrow>
     malloc_ok (mem w) mres \<and> idx \<in> live_idx w \<and> 0 \<le> pr_length r \<and> pr_length r \<le> 16384 \<and>
     nat (pr_length r) \<le> length data"
| "allowed (Hash mres idx p h) w \<longleftrightarrow> malloc_ok (mem w) mres \<and> idx \<in> live_idx w"
| "allowed (StopTorrent idx ho) w \<longleftrightarrow> ho \<noteq> None"
| "allowed (RunRead i) w \<longleftrightarrow> i < length (read_thread_pool w) \<and> i < pool_threads"
| "allowed (RunWrite i) w \<longleftrightarrow> i < length (write_thread_pool w) \<and> i < pool_threads"
| "allowed (RunHash i) w \<longleftrightarrow> i < length (hash_thread_pool w) \<and> i < pool_threads"
| "allowed (ClientRelease buf) w \<longleftrightarrow> buf \<in> set (client_bufs w)"
| "allowed _ w \<longleftrightarrow> True"

inductive io_step :: "'st hasher_api \<Rightarrow> world \<Rightarrow> world \<Rightarrow> bool" for api where
  step: "allowed l w \<Longrightarrow> exec api l w = Inr w' \<Longrightarrow> io_step api w w'"

inductive io_reach :: "'st hasher_api \<Rightarrow> world \<Rightarrow> bool" for api where
  start: "io_reach api (raw_disk_io_new m s)"
| more: "io_reach api w \<Longrightarrow> io_step api w w' \<Longrightarrow> io_reach api w'"

inductive_cases io_stepE: "io_step api w w'"

section \<open>The invariant\<close>

fun completion_bufs :: "completion \<Rightarrow> addr list" where
  "completion_bufs (ReadDone h (Some buf) e) = [buf]"
| "completion_bufs _ = []"

fun ioc_bufs :: "ioc_job \<Rightarrow> addr list" where
  "ioc_bufs (Complete c) = completion_bufs c"
| "ioc_bufs (Watermark cbs) = []"

text \<open>Who holds the blocks of the two pools.\<close>

definition read_bufs :: "world \<Rightarrow> addr list" where
  "read_bufs w = map read_job_buf (read_thread_pool w) @ map hj_buf (hash_thread_pool w) @
                 concat (map ioc_bufs (ioc w)) @ client_bufs w"

definition write_bufs :: "world \<Rightarrow> addr list" where
  "write_bufs w = map wj_buf (write_thread_pool w)"

definition mem_inv :: "world \<Rightarrow> bool" where
  "mem_inv w \<longleftrightarrow>
     pool_ok (read_buffer_pool w) \<and> pool_level (read_buffer_pool w) = length (read_bufs w) \<and>
     pool_ok (write_buffer_pool w) \<and> pool_level (write_buffer_pool w) = length (write_bufs w) \<and>
     owns (mem w) (read_bufs w @ write_bufs w)"

text \<open>The writers whose block may still be in the store buffer.\<close>

fun not_erased :: "write_stage \<Rightarrow> bool" where
  "not_erased (Posting e) = False"
| "not_erased _ = True"

definition pending :: "write_job list \<Rightarrow> (torrent_location \<times> addr) list" where
  "pending js = map (\<lambda>j. (wj_loc j, wj_buf j)) (filter (\<lambda>j. not_erased (wj_stage j)) js)"

definition store_inv :: "world \<Rightarrow> bool" where
  "store_inv w \<longleftrightarrow>
     store_buffer_ok (store_buf w) \<and>
     backed (\<lambda>loc. lookup_block (store_buf w) loc) (pending (write_thread_pool w))"

definition slots_inv :: "world \<Rightarrow> bool" where
  "slots_inv w \<longleftrightarrow>
     omap_ok (storages w) \<and> distinct (free_slots w) \<and>
     set (free_slots w) \<inter> live_idx w = {} \<and>
     set (free_slots w) \<union> live_idx w = {0..<int (length (storages w) + length (free_slots w))} \<and>
     (\<forall>idx st. (idx, st) \<in> set (storages w) \<longrightarrow> (\<exists>ps. st = Some ps \<and> fs_ok (ps_fs ps)))"

definition read_job_ok :: "read_job \<Rightarrow> bool" where
  "read_job_ok j \<longleftrightarrow>
     (case read_job_range j of (idx, piece, off, len, buf_offset) \<Rightarrow>
        idx = read_job_idx j \<and> 0 \<le> len \<and> buf_offset + nat len \<le> 16384)"

definition write_job_ok :: "write_job \<Rightarrow> bool" where
  "write_job_ok j \<longleftrightarrow> 0 \<le> pr_length (wj_req j) \<and> pr_length (wj_req j) \<le> 16384"

definition hash_job_ok :: "hash_job \<Rightarrow> bool" where
  "hash_job_ok j \<longleftrightarrow> 0 \<le> hj_i j \<and> 0 \<le> hj_offset j \<and> hj_offset j \<le> hj_i j * 16384"

definition jobs_inv :: "world \<Rightarrow> bool" where
  "jobs_inv w \<longleftrightarrow>
     busy w \<subseteq> live_idx w \<and> (\<forall>j \<in> set (read_thread_pool w). read_job_ok j) \<and>
     (\<forall>j \<in> set (write_thread_pool w). write_job_ok j) \<and>
     (\<forall>j \<in> set (hash_thread_pool w). hash_job_ok j) \<and>
     Complete (StopDone None) \<notin> set (ioc w)"

definition io_inv :: "world \<Rightarrow> bool" where
  "io_inv w \<longleftrightarrow> mem_inv w \<and> store_inv w \<and> slots_inv w \<and> jobs_inv w"

lemmas inv_defs = mem_inv_def store_inv_def slots_inv_def jobs_inv_def
lemmas buf_defs = read_bufs_def write_bufs_def

lemma io_inv_init: "io_inv (raw_disk_io_new m s)"
  by (simp add: io_inv_def inv_defs buf_defs raw_disk_io_new_def buffer_pool_init_def pool_simps
      store_buffer_init_def store_buffer_ok_def backed_def pending_def busy_def)

section \<open>Helpers\<close>

lemma lift_ub_Inr [simp]: "lift_ub r = Inr w \<longleftrightarrow> r = Inr w"
  by (cases r) (simp_all add: lift_ub_def)

lemma map_sum_snd_Inr [simp]: "map_sum f snd r = Inr y \<longleftrightarrow> (\<exists>x. r = Inr (x, y))"
  by (cases r) auto

lemma owns_mset: "mset xs = mset ys \<Longrightarrow> owns h xs \<longleftrightarrow> owns h ys"
  by (metis owns_def mset_eq_imp_distinct_iff set_mset_mset)

lemma owns_upd:
  "owns h own \<Longrightarrow> h a = Some b \<Longrightarrow> length b' = length b \<Longrightarrow> owns (h(a \<mapsto> b')) own"
  by (auto simp: owns_def)

lemma mset_remove_at: "i < length xs \<Longrightarrow> add_mset (xs ! i) (mset (remove_at i xs)) = mset xs"
  by (metis remove_at_def id_take_nth_drop mset_append mset.simps(2) union_mset_add_mset_right)

lemma set_remove_at: "set (remove_at i xs) \<subseteq> set xs"
  by (auto simp: remove_at_def dest: in_set_takeD in_set_dropD)

lemma map_remove_at: "map f (remove_at i xs) = remove_at i (map f xs)"
  by (simp add: remove_at_def take_map drop_map)

lemma map_update_same: "i < length xs \<Longrightarrow> f y = f (xs ! i) \<Longrightarrow> map f (xs[i := y]) = map f xs"
  by (metis list_update_id map_update)

lemma memcpy_block_ok:
  assumes "h src = Some bs" "h dst = Some bd" "src_off + n \<le> length bs" "dst_off + n \<le> length bd"
  shows "memcpy_block dst dst_off src src_off n (Inr h) =
           Inr (h(dst \<mapsto> blit dst_off (take n (drop src_off bs)) bd))"
  using assms by (simp add: memcpy_block_def heap_simps)

lemma deref_live:
  assumes "slots_inv w" "idx \<in> live_idx w"
  obtains ps where "deref_storage idx w = Inr ps" "fs_ok (ps_fs ps)" "(idx, Some ps) \<in> set (storages w)"
proof -
  obtain st where "(idx, st) \<in> set (storages w)"
    using assms(2) by auto
  moreover from this obtain ps where "st = Some ps" "fs_ok (ps_fs ps)"
    using assms(1) unfolding slots_inv_def by blast
  moreover have "distinct (map fst (storages w))"
    using assms(1) by (simp add: slots_inv_def omap_ok_distinct)
  ultimately show thesis
    by (intro that) (auto simp: deref_storage_def map_of_is_SomeI split: option.splits)
qed

section \<open>Slots\<close>

text \<open>The slot that the next torrent gets.\<close>

definition next_slot :: "world \<Rightarrow> int" where
  "next_slot w = (case free_slots w of [] \<Rightarrow> int (length (storages w)) | i # _ \<Rightarrow> i)"

lemma next_slot_fresh:
  assumes "slots_inv w"
  shows "next_slot w \<notin> live_idx w"
proof (cases "free_slots w")
  case Nil
  then have "live_idx w = {0..<int (length (storages w))}"
    using assms by (simp add: slots_inv_def)
  with Nil show ?thesis by (simp add: next_slot_def)
next
  case (Cons i rest)
  then show ?thesis
    using assms by (auto simp: slots_inv_def next_slot_def)
qed

lemma new_torrent_eq:
  assumes "slots_inv w" "length (storages w) + length (free_slots w) < 2147483647" "0 \<le> opened"
  shows "new_torrent path fs opened w =
           Inr (next_slot w,
             w\<lparr>free_slots := tl (free_slots w),
               sys := (sys w)\<lparr>os_fds := (os_fds (sys w))(opened \<mapsto> path)\<rparr>,
               storages := omap_emplace (next_slot w)
                 (Some \<lparr>ps_fd = opened, ps_mapping_addr = None, ps_mapping_len = 0, ps_fs = fs\<rparr>)
                 (storages w)\<rparr>)"
proof -
  have "map_of (storages w) (next_slot w) = None"
    using next_slot_fresh [OF assms(1)] by (simp add: map_of_eq_None_iff)
  moreover have "(case free_slots w of [] \<Rightarrow> (i32 (int (length (storages w))), [])
      | i # rest \<Rightarrow> (i, rest)) = (next_slot w, tl (free_slots w))"
    using assms(2) by (simp add: next_slot_def wrap_simps split: list.splits)
  ultimately show ?thesis
    using assms(3) by (simp add: new_torrent_def partition_storage_new_def)
qed

lemma omap_emplace_set:
  "omap_ok m \<Longrightarrow> k \<notin> fst ` set m \<Longrightarrow> set (omap_emplace k v m) = insert (k, v) (set m)"
  by (induction k v m rule: omap_emplace.induct) auto

lemma omap_erase_set: "set (omap_erase k m) \<subseteq> set m"
  by (induction k m rule: omap_erase.induct) auto

lemma slots_inv_new:
  assumes "slots_inv w" "fs_ok (ps_fs ps)"
  shows "slots_inv (w\<lparr>free_slots := tl (free_slots w), sys := s,
           storages := omap_emplace (next_slot w) (Some ps) (storages w)\<rparr>)"
proof -
  note fresh = next_slot_fresh [OF assms(1)]
  have ok: "omap_ok (storages w)"
    using assms(1) by (simp add: slots_inv_def)
  have none: "map_of (storages w) (next_slot w) = None"
    using fresh by (simp add: map_of_eq_None_iff)
  have "set (tl (free_slots w)) \<inter> insert (next_slot w) (live_idx w) = {} \<and>
    set (tl (free_slots w)) \<union> insert (next_slot w) (live_idx w) =
      {0..<int (Suc (length (storages w)) + length (tl (free_slots w)))}"
  proof (cases "free_slots w")
    case Nil
    then show ?thesis using assms(1) by (auto simp: slots_inv_def next_slot_def)
  next
    case (Cons i rest)
    then show ?thesis using assms(1) by (auto simp: slots_inv_def next_slot_def)
  qed
  then show ?thesis
    using assms none ok
    by (simp add: slots_inv_def omap_simps omap_emplace_set [OF ok fresh] distinct_tl)
qed

lemma slots_inv_remove:
  assumes "slots_inv w" "idx \<in> live_idx w"
  shows "slots_inv (remove_torrent idx w)"
proof -
  have ok: "omap_ok (storages w)"
    using assms(1) by (simp add: slots_inv_def)
  have "idx \<notin> set (free_slots w)"
    using assms by (auto simp: slots_inv_def)
  moreover have "map_of (storages w) idx \<noteq> None"
    using assms(2) by (simp add: map_of_eq_None_iff)
  moreover have "length (storages w) - 1 + Suc (length (free_slots w)) = length (storages w) + length (free_slots w)"
    using assms(2) by (cases "storages w") auto
  moreover have "set (free_slots w) \<union> {idx} \<union> (live_idx w - {idx}) = set (free_slots w) \<union> live_idx w"
    using assms(2) by auto
  ultimately show ?thesis
    using assms(1) ok omap_erase_set [of idx "storages w"]
    unfolding slots_inv_def remove_torrent_def by (auto simp: omap_simps)
qed

lemma new_torrent_inv:
  assumes "io_inv w" "allowed (NewTorrent path fs opened) w"
  shows "\<exists>idx w'. new_torrent path fs opened w = Inr (idx, w') \<and> io_inv w'"
proof -
  have sl: "slots_inv w"
    using assms(1) by (simp add: io_inv_def)
  show ?thesis
    using assms new_torrent_eq [OF sl, of opened path fs] slots_inv_new [OF sl]
    by (auto simp: io_inv_def mem_inv_def store_inv_def jobs_inv_def buf_defs busy_def omap_simps)
qed

lemma remove_torrent_inv:
  assumes "io_inv w" "allowed (RemoveTorrent idx) w"
  shows "io_inv (remove_torrent idx w)"
proof -
  have "slots_inv (remove_torrent idx w)"
    using assms slots_inv_remove by (simp add: io_inv_def)
  moreover have "omap_ok (storages w)"
    using assms(1) by (simp add: io_inv_def slots_inv_def)
  then have "live_idx (remove_torrent idx w) = live_idx w - {idx}"
    by (simp add: remove_torrent_def omap_simps)
  moreover have "busy (remove_torrent idx w) = busy w"
    by (simp add: busy_def remove_torrent_def)
  ultimately show ?thesis
    using assms
    by (auto simp: io_inv_def mem_inv_def store_inv_def jobs_inv_def buf_defs remove_torrent_def)
qed

section \<open>The ledger of the two pools\<close>

text \<open>The pools count what is listed for them, and everything listed is live and held once.\<close>

definition ledger :: "heap \<Rightarrow> buffer_pool \<Rightarrow> buffer_pool \<Rightarrow> addr list \<Rightarrow> addr list \<Rightarrow> bool" where
  "ledger h p q R W \<longleftrightarrow>
     pool_ok p \<and> pool_level p = length R \<and> pool_ok q \<and> pool_level q = length W \<and> owns h (R @ W)"

lemma mem_inv_ledger:
  "mem_inv w \<longleftrightarrow> ledger (mem w) (read_buffer_pool w) (write_buffer_pool w) (read_bufs w) (write_bufs w)"
  by (auto simp: mem_inv_def ledger_def)

lemma ledger_mset:
  assumes "mset R = mset R'" "mset W = mset W'"
  shows "ledger h p q R W \<longleftrightarrow> ledger h p q R' W'"
  using assms owns_mset [of "R @ W" "R' @ W'" h] mset_eq_length [OF assms(1)] mset_eq_length [OF assms(2)]
  by (simp add: ledger_def)

lemma ledger_upd:
  "ledger h p q R W \<Longrightarrow> h a = Some b \<Longrightarrow> length b' = length b \<Longrightarrow> ledger (h(a \<mapsto> b')) p q R W"
  by (auto simp: ledger_def intro: owns_upd)

lemma ledger_live: "ledger h p q R W \<Longrightarrow> a \<in> set R \<union> set W \<Longrightarrow> \<exists>b. h a = Some b \<and> length b = 16384"
  by (auto simp: ledger_def dest: owns_live)

lemma ledger_none:
  assumes "ledger h p q R W" "allocate_buffer m h p = (None, h', p')"
  shows "h' = h \<and> ledger h p' q R W"
  using assms bp.alloc_none [of p m h h' p'] by (simp add: ledger_def)

lemma ledger_alloc:
  assumes "ledger h p q R W" "malloc_ok h m" "allocate_buffer m h p = (Some a, h', p')"
  shows "ledger h' p' q (a # R) W \<and> h a = None \<and> (\<exists>b. h' = h(a \<mapsto> b) \<and> length b = 16384)"
  using assms bp.alloc_ledger [of p R h "R @ W" m a h' p'] bp.alloc_some [of p m h a h' p']
  by (auto simp: ledger_def malloc_ok_def)

lemma ledger_none_observed:
  assumes "ledger h p q R W" "allocate_buffer_observed m False ob h q = (None, e, h', q')"
  shows "h' = h \<and> ledger h p q' R W"
  using assms bpo.alloc_none [of q ob m h h' q'] by (simp add: ledger_def allocate_observed_def)

lemma ledger_alloc_observed:
  assumes "ledger h p q R W" "malloc_ok h m" "allocate_buffer_observed m False ob h q = (Some a, e, h', q')"
  shows "ledger h' p q' R (a # W) \<and> h a = None \<and> (\<exists>b. h' = h(a \<mapsto> b) \<and> length b = 16384)"
proof -
  have "allocate_observed ob m h q = (Some a, h', q')"
    using assms(3) by (simp add: allocate_observed_def)
  moreover have "mset (R @ a # W) = mset (a # R @ W)"
    by simp
  ultimately show ?thesis
    using assms(1,2) bpo.alloc_ledger [of q W h "R @ W" m ob a h' q'] bpo.alloc_some [of q ob m h a h' q']
      owns_mset [of "R @ a # W" "a # R @ W" h']
    by (auto simp: ledger_def malloc_ok_def)
qed

lemma ledger_free_read:
  assumes "ledger h p q R W" "a \<in> set R"
  shows "\<exists>p' qs. free_disk_buffer a h p = Inr (h(a := None), p', qs) \<and>
           ledger (h(a := None)) p' q (remove1 a R) W"
  using assms bp.release_ledger [of p R h "R @ W" a]
  by (fastforce simp: ledger_def remove1_append)

lemma ledger_free_write:
  assumes "ledger h p q R W" "a \<in> set W"
  shows "\<exists>q' qs. free_disk_buffer a h q = Inr (h(a := None), q', qs) \<and>
           ledger (h(a := None)) p q' R (remove1 a W)"
proof -
  have "a \<notin> set R"
    using assms by (auto simp: ledger_def owns_def)
  then show ?thesis
    using assms bp.release_ledger [of q W h "R @ W" a]
    by (fastforce simp: ledger_def remove1_append)
qed

text \<open>Entries of the store buffer are live, so they are never the buffer just allocated.\<close>

lemma store_live:
  assumes "mem_inv w" "store_inv w" "lookup_block (store_buf w) loc = Some b"
  shows "b \<in> set (write_bufs w)" and "\<exists>x. mem w b = Some x \<and> length x = 16384"
proof -
  show "b \<in> set (write_bufs w)"
    using assms(2,3) by (auto simp: store_inv_def backed_def pending_def write_bufs_def)
  with assms(1) show "\<exists>x. mem w b = Some x \<and> length x = 16384"
    by (auto simp: mem_inv_ledger dest: ledger_live)
qed

section \<open>Reads\<close>

text \<open>The part of a block copied from a store buffer entry, if there is one.\<close>

definition overlay :: "heap \<Rightarrow> addr option \<Rightarrow> nat \<Rightarrow> nat \<Rightarrow> nat \<Rightarrow> bytes \<Rightarrow> bytes" where
  "overlay h x pos off n blk =
     (case x of None \<Rightarrow> blk | Some b \<Rightarrow> blit pos (take n (drop off (the (h b)))) blk)"

definition entry_ok :: "heap \<Rightarrow> addr \<Rightarrow> addr option \<Rightarrow> bool" where
  "entry_ok h buf x \<longleftrightarrow>
     (\<forall>b. x = Some b \<longrightarrow> b \<noteq> buf \<and> (\<exists>bs. h b = Some bs \<and> length bs = 16384))"

lemma length_overlay:
  assumes "entry_ok h buf x" "pos + n \<le> length blk" "off + n \<le> 16384"
  shows "length (overlay h x pos off n blk) = length blk"
  using assms by (auto simp: overlay_def entry_ok_def split: option.splits)

lemma memcpy_overlay:
  assumes "entry_ok h buf x" "h buf = Some blk" "pos + n \<le> length blk" "off + n \<le> 16384"
  shows "(case x of None \<Rightarrow> Inr h | Some b \<Rightarrow> memcpy_block buf pos b off n (Inr h)) =
           Inr (h(buf \<mapsto> overlay h x pos off n blk))"
  using assms
  by (auto simp: overlay_def entry_ok_def memcpy_block_ok fun_upd_idem split: option.splits)

lemma entry_ok_upd: "entry_ok h buf x \<Longrightarrow> entry_ok (h(buf \<mapsto> blk)) buf x"
  by (auto simp: entry_ok_def)

lemma overlay_upd: "entry_ok h buf x \<Longrightarrow> overlay (h(buf \<mapsto> b)) x pos off n blk = overlay h x pos off n blk"
  by (auto simp: overlay_def entry_ok_def split: option.splits)

lemma copy_halves_ok:
  assumes "entry_ok h buf x1" "entry_ok h buf x2" "h buf = Some blk" "length blk = 16384"
    and "0 \<le> off" "len1 = 16384 - off" "0 \<le> len1" "len1 \<le> len" "len \<le> 16384"
  shows "copy_halves buf off len1 len x1 x2 (Inr h) =
           ((if x1 \<noteq> None then 2 else 0) OR (if x2 \<noteq> None then 1 else 0),
            Inr (h(buf \<mapsto> overlay h x2 (nat len1) 0 (nat (len - len1))
                            (overlay h x1 0 (nat off) (nat len1) blk))))"
proof -
  let ?blk = "overlay h x1 0 (nat off) (nat len1) blk"
  have l: "length ?blk = 16384"
    using assms by (simp add: length_overlay)
  have n: "size_t len1 = nat len1" "size_t (len - len1) = nat (len - len1)"
    using assms by (simp_all add: wrap_simps)
  have "(case x1 of None \<Rightarrow> Inr h | Some b1 \<Rightarrow> memcpy_block buf 0 b1 (nat off) (size_t len1) (Inr h)) =
      Inr (h(buf \<mapsto> ?blk))"
    unfolding n by (rule memcpy_overlay) (use assms in auto)
  moreover have "(case x2 of None \<Rightarrow> Inr (h(buf \<mapsto> ?blk))
      | Some b2 \<Rightarrow> memcpy_block buf (nat len1) b2 0 (size_t (len - len1)) (Inr (h(buf \<mapsto> ?blk)))) =
      Inr ((h(buf \<mapsto> ?blk))(buf \<mapsto> overlay (h(buf \<mapsto> ?blk)) x2 (nat len1) 0 (nat (len - len1)) ?blk))"
    unfolding n by (rule memcpy_overlay) (use assms l in \<open>auto simp: entry_ok_upd\<close>)
  ultimately show ?thesis
    using assms(2) by (simp add: copy_halves_def overlay_upd)
qed

text \<open>A request that leaves its block, and the blocks a request touches.\<close>

definition unaligned :: "peer_request \<Rightarrow> bool" where
  "unaligned r \<longleftrightarrow> 16384 < pr_start r mod 16384 + pr_length r"

definition loc_first :: "int \<Rightarrow> peer_request \<Rightarrow> torrent_location" where
  "loc_first idx r = torrent_location idx (pr_piece r) (pr_start r - pr_start r mod 16384)"

definition loc_second :: "int \<Rightarrow> peer_request \<Rightarrow> torrent_location" where
  "loc_second idx r = torrent_location idx (pr_piece r) (pr_start r - pr_start r mod 16384 + 16384)"

definition head_len :: "peer_request \<Rightarrow> int" where
  "head_len r = 16384 - pr_start r mod 16384"

text \<open>What a granted read leaves in its buffer and how it goes on.\<close>

definition read_fill :: "int \<Rightarrow> peer_request \<Rightarrow> world \<Rightarrow> bytes \<Rightarrow> bytes" where
  "read_fill idx r w blk =
     (let x1 = lookup_block (store_buf w) (loc_first idx r);
          x2 = lookup_block (store_buf w) (loc_second idx r)
      in if unaligned r
         then overlay (mem w) x2 (nat (head_len r)) 0 (nat (pr_length r - head_len r))
                (overlay (mem w) x1 0 (nat (pr_start r mod 16384)) (nat (head_len r)) blk)
         else overlay (mem w) x1 0 (nat (pr_start r mod 16384)) (nat (pr_length r)) blk)"

definition read_next :: "int \<Rightarrow> peer_request \<Rightarrow> addr \<Rightarrow> handler \<Rightarrow> world \<Rightarrow> read_job option" where
  "read_next idx r buf handler w =
     (let x1 = lookup_block (store_buf w) (loc_first idx r);
          x2 = lookup_block (store_buf w) (loc_second idx r)
      in if x1 \<noteq> None \<and> (unaligned r \<longrightarrow> x2 \<noteq> None) then None
         else if unaligned r \<and> (x1 \<noteq> None \<or> x2 \<noteq> None)
         then Some (ReadPartial idx r (pr_start r - pr_start r mod 16384) (head_len r)
                      (if x1 \<noteq> None then 2 else 1) buf handler)
         else Some (ReadWhole idx r buf handler))"

definition read_valid :: "peer_request \<Rightarrow> bool" where
  "read_valid r \<longleftrightarrow> 0 < pr_length r \<and> pr_length r \<le> 16384 \<and> 0 \<le> pr_start r \<and> pr_start r < 2147450880"

lemma read_valid_simps:
  assumes "read_valid r"
  shows "pr_start r - (pr_start r - pr_start r mod 16384) = pr_start r mod 16384"
    and "i32 (pr_start r mod 16384 + pr_length r) = pr_start r mod 16384 + pr_length r"
    and "i32 (pr_start r - pr_start r mod 16384 + 16384) = pr_start r - pr_start r mod 16384 + 16384"
    and "size_t (pr_length r) = nat (pr_length r)"
  using assms pos_mod_bound [of 16384 "pr_start r"] pos_mod_sign [of 16384 "pr_start r"]
  by (auto simp: read_valid_def intro!: i32_id size_t_id)


lemma async_read_eq:
  assumes "read_valid r" "allocate_buffer mres (mem w) (read_buffer_pool w) = (Some buf, m, p)"
  shows "async_read mres idx r handler w =
    (case (if unaligned r
           then get2 (loc_first idx r) (loc_second idx r)
                  (copy_halves buf (pr_start r mod 16384) (head_len r) (pr_length r)) (store_buf w) (Inr m)
           else map_prod (\<lambda>hit. if hit then 3 else 0) id
                  (get (loc_first idx r)
                    (\<lambda>buf1. memcpy_block buf 0 buf1 (nat (pr_start r mod 16384)) (nat (pr_length r)))
                    (store_buf w) (Inr m)))
     of (ret, res) \<Rightarrow> bind_res res (\<lambda>m'.
       let w1 = w\<lparr>read_buffer_pool := p, mem := m'\<rparr>
       in Inr (if ret = 3 then invoke (ReadDone handler (Some buf) storage_error_init) w1
               else if ret \<noteq> 0
               then post_read (ReadPartial idx r (pr_start r - pr_start r mod 16384) (head_len r) ret buf handler) w1
               else post_read (ReadWhole idx r buf handler) w1)))"
proof -
  note v = read_valid_simps [OF assms(1)]
  have r: "0 < pr_length r" "pr_length r \<le> 16384" "0 \<le> pr_start r"
    using assms(1) by (simp_all add: read_valid_def)
  show ?thesis
    using r assms(2)
    by (auto simp: async_read_def v unaligned_def loc_first_def loc_second_def head_len_def
        DEFAULT_BLOCK_SIZE_def Let_def get_def bind_res_def split: prod.splits option.splits sum.splits)
qed

text \<open>The part of a request that is pending, copied into a fresh buffer.\<close>

lemma copy_pending:
  assumes "read_valid r" "length blk = 16384" "mem w buf = None"
    and e: "\<And>loc. entry_ok (mem w) buf (lookup_block (store_buf w) loc)"
  defines "m \<equiv> (mem w)(buf \<mapsto> blk)"
  shows "length (read_fill idx r w blk) = 16384"
    and "unaligned r \<Longrightarrow> copy_halves buf (pr_start r mod 16384) (head_len r) (pr_length r)
           (lookup_block (store_buf w) (loc_first idx r)) (lookup_block (store_buf w) (loc_second idx r)) (Inr m) =
         ((if lookup_block (store_buf w) (loc_first idx r) \<noteq> None then 2 else 0) OR
          (if lookup_block (store_buf w) (loc_second idx r) \<noteq> None then 1 else 0),
          Inr ((mem w)(buf \<mapsto> read_fill idx r w blk)))"
    and "\<not> unaligned r \<Longrightarrow> (case lookup_block (store_buf w) (loc_first idx r) of None \<Rightarrow> Inr m | Some b \<Rightarrow>
           memcpy_block buf 0 b (nat (pr_start r mod 16384)) (nat (pr_length r)) (Inr m)) =
         Inr ((mem w)(buf \<mapsto> read_fill idx r w blk))"
proof -
  let ?x1 = "lookup_block (store_buf w) (loc_first idx r)"
  let ?x2 = "lookup_block (store_buf w) (loc_second idx r)"
  have mod: "0 \<le> pr_start r mod 16384" "pr_start r mod 16384 < 16384" by simp_all
  have r: "0 < pr_length r" "pr_length r \<le> 16384" "0 \<le> pr_start r"
    using assms(1) by (simp_all add: read_valid_def)
  show "length (read_fill idx r w blk) = 16384"
    using mod r assms(2) by (auto simp: read_fill_def Let_def length_overlay [OF e] head_len_def unaligned_def)
  show "copy_halves buf (pr_start r mod 16384) (head_len r) (pr_length r) ?x1 ?x2 (Inr m) =
      ((if ?x1 \<noteq> None then 2 else 0) OR (if ?x2 \<noteq> None then 1 else 0), Inr ((mem w)(buf \<mapsto> read_fill idx r w blk)))"
    if u: "unaligned r"
  proof -
    have "copy_halves buf (pr_start r mod 16384) (head_len r) (pr_length r) ?x1 ?x2 (Inr m) =
        ((if ?x1 \<noteq> None then 2 else 0) OR (if ?x2 \<noteq> None then 1 else 0),
         Inr (m(buf \<mapsto> overlay m ?x2 (nat (head_len r)) 0 (nat (pr_length r - head_len r))
           (overlay m ?x1 0 (nat (pr_start r mod 16384)) (nat (head_len r)) blk))))"
      by (rule copy_halves_ok)
        (use e r mod u assms(2) in \<open>auto simp: m_def entry_ok_upd head_len_def unaligned_def\<close>)
    then show ?thesis
      using u by (simp add: m_def overlay_upd [OF e] read_fill_def Let_def)
  qed
  show "(case ?x1 of None \<Rightarrow> Inr m | Some b \<Rightarrow>
      memcpy_block buf 0 b (nat (pr_start r mod 16384)) (nat (pr_length r)) (Inr m)) =
      Inr ((mem w)(buf \<mapsto> read_fill idx r w blk))" if u: "\<not> unaligned r"
  proof -
    have "(case ?x1 of None \<Rightarrow> Inr m | Some b \<Rightarrow>
        memcpy_block buf 0 b (nat (pr_start r mod 16384)) (nat (pr_length r)) (Inr m)) =
        Inr (m(buf \<mapsto> overlay m ?x1 0 (nat (pr_start r mod 16384)) (nat (pr_length r)) blk))"
      by (rule memcpy_overlay) (use e r mod u assms(2) in \<open>auto simp: m_def entry_ok_upd unaligned_def\<close>)
    then show ?thesis
      using u by (simp add: m_def overlay_upd [OF e] read_fill_def Let_def)
  qed
qed

lemma async_read_granted:
  assumes "mem_inv w" "store_inv w" "malloc_ok (mem w) mres" "read_valid r"
    and "allocate_buffer mres (mem w) (read_buffer_pool w) = (Some buf, m, p)"
  shows "\<exists>blk. mem w buf = None \<and> length blk = 16384 \<and> length (read_fill idx r w blk) = 16384 \<and>
    async_read mres idx r handler w =
      (let w1 = w\<lparr>read_buffer_pool := p, mem := (mem w)(buf \<mapsto> read_fill idx r w blk)\<rparr>
       in Inr (case read_next idx r buf handler w of
                 None \<Rightarrow> invoke (ReadDone handler (Some buf) storage_error_init) w1
               | Some j \<Rightarrow> post_read j w1))"
proof -
  have "mem w buf = None \<and> (\<exists>b. m = (mem w)(buf \<mapsto> b) \<and> length b = 16384)"
    using ledger_alloc assms(1,3,5) unfolding mem_inv_ledger by blast
  then obtain blk where blk: "mem w buf = None" "m = (mem w)(buf \<mapsto> blk)" "length blk = 16384"
    by blast
  have e: "entry_ok (mem w) buf (lookup_block (store_buf w) loc)" for loc
    using store_live [OF assms(1,2), of loc] blk by (auto simp: entry_ok_def)
  note c = copy_pending [OF assms(4) blk(3,1) e, of idx, folded blk(2)]
  show ?thesis
  proof (cases "unaligned r")
    case True
    with c blk show ?thesis
      unfolding async_read_eq [OF assms(4,5)]
      by (intro exI [of _ blk]) (auto simp: get2_def read_next_def read_fill_def overlay_def Let_def)
  next
    case False
    with c blk show ?thesis
      unfolding async_read_eq [OF assms(4,5)]
      by (intro exI [of _ blk]) (auto simp: get_def read_next_def Let_def split: option.splits)
  qed
qed

lemma mem_invI:
  assumes "ledger h p q R W" "mem w = h" "read_buffer_pool w = p" "write_buffer_pool w = q"
    and "mset (read_bufs w) = mset R" "mset (write_bufs w) = mset W"
  shows "mem_inv w"
  using assms ledger_mset [OF assms(5,6)] by (simp add: mem_inv_ledger)

lemma invoke_bufs:
  "invoke c w = w\<lparr>invoked := invoked w @ [c], client_bufs := client_bufs w @ completion_bufs c\<rparr>"
  by (cases c rule: completion_bufs.cases) (simp_all add: invoke_def)

lemma io_inv_invoke_none: "completion_bufs c = [] \<Longrightarrow> io_inv (invoke c w) = io_inv w"
  by (simp add: invoke_bufs io_inv_def inv_defs buf_defs busy_def)

lemma io_inv_pool:
  assumes "io_inv w" "allocate_buffer mres (mem w) (read_buffer_pool w) = (None, m, p)"
  shows "io_inv (w\<lparr>mem := m, read_buffer_pool := p\<rparr>)"
  using assms ledger_none [OF _ assms(2)]
  by (auto simp: io_inv_def mem_inv_ledger store_inv_def slots_inv_def jobs_inv_def buf_defs busy_def)

lemma read_next_ok:
  assumes "read_valid r" "read_next idx r buf handler w = Some j"
  shows "read_job_ok j \<and> read_job_buf j = buf \<and> read_job_idx j = idx \<and> read_job_handler j = handler"
proof -
  have "0 \<le> pr_start r mod 16384" "pr_start r mod 16384 < 16384" by simp_all
  then show ?thesis
    using assms
    by (auto simp: read_next_def read_valid_def Let_def read_job_ok_def head_len_def unaligned_def
        split: if_splits)
qed

lemma async_read_granted_inv:
  assumes "io_inv w" "allowed (Read mres idx r h) w" "read_valid r"
    and "allocate_buffer mres (mem w) (read_buffer_pool w) = (Some buf, m, p)"
  shows "\<exists>w'. async_read mres idx r h w = Inr w' \<and> io_inv w'"
proof -
  have inv: "mem_inv w" "store_inv w" "slots_inv w" "jobs_inv w"
    using assms(1) by (simp_all add: io_inv_def)
  have ok: "malloc_ok (mem w) mres" "idx \<in> live_idx w"
    using assms(2) by simp_all
  have l: "ledger m p (write_buffer_pool w) (buf # read_bufs w) (write_bufs w)"
    "\<exists>b. m = (mem w)(buf \<mapsto> b) \<and> length b = 16384"
    using ledger_alloc inv(1) ok(1) assms(4) unfolding mem_inv_ledger by blast+
  obtain blk where blk: "length (read_fill idx r w blk) = 16384"
    and eq: "async_read mres idx r h w =
      (let w1 = w\<lparr>read_buffer_pool := p, mem := (mem w)(buf \<mapsto> read_fill idx r w blk)\<rparr>
       in Inr (case read_next idx r buf h w of
                 None \<Rightarrow> invoke (ReadDone h (Some buf) storage_error_init) w1
               | Some j \<Rightarrow> post_read j w1))"
    using async_read_granted [OF inv(1,2) ok(1) assms(3,4), of idx h] by blast
  define w1 where "w1 = w\<lparr>read_buffer_pool := p, mem := (mem w)(buf \<mapsto> read_fill idx r w blk)\<rparr>"
  have l1: "ledger ((mem w)(buf \<mapsto> read_fill idx r w blk)) p (write_buffer_pool w)
      (buf # read_bufs w) (write_bufs w)"
    using l blk ledger_upd [OF l(1), of buf _ "read_fill idx r w blk"] by auto
  have "io_inv (invoke (ReadDone h (Some buf) storage_error_init) w1)"
    using inv mem_invI [OF l1, of "invoke (ReadDone h (Some buf) storage_error_init) w1"]
    by (simp add: io_inv_def store_inv_def slots_inv_def jobs_inv_def busy_def invoke_bufs w1_def buf_defs)
  moreover have "io_inv (post_read j w1)" if j: "read_next idx r buf h w = Some j" for j
    using inv ok(2) read_next_ok [OF assms(3) j] mem_invI [OF l1, of "post_read j w1"]
    by (simp add: io_inv_def store_inv_def slots_inv_def jobs_inv_def busy_def post_read_def w1_def buf_defs)
  ultimately show ?thesis
    using eq by (cases "read_next idx r buf h w") (simp_all add: w1_def [symmetric])
qed

lemma async_read_inv:
  assumes "io_inv w" "allowed (Read mres idx r h) w"
  shows "\<exists>w'. async_read mres idx r h w = Inr w' \<and> io_inv w'"
proof (cases "read_valid r")
  case False
  then have "async_read mres idx r h w =
      Inr (invoke (ReadDone h None (io_error invalid_request file_read)) w)"
    using assms(2) by (auto simp: async_read_def read_valid_def DEFAULT_BLOCK_SIZE_def)
  then show ?thesis
    using assms(1) by (simp add: io_inv_invoke_none)
next
  case True
  obtain ob m p where a: "allocate_buffer mres (mem w) (read_buffer_pool w) = (ob, m, p)"
    by (metis prod_cases3)
  show ?thesis
  proof (cases ob)
    case None
    then show ?thesis
      using a True io_inv_pool [OF assms(1) a [unfolded None]]
      by (simp add: async_read_def read_valid_def DEFAULT_BLOCK_SIZE_def io_inv_invoke_none)
  next
    case (Some buf)
    then show ?thesis
      using async_read_granted_inv [OF assms True] a by blast
  qed
qed

section \<open>Writes\<close>

lemma pending_append: "pending (js @ js') = pending js @ pending js'"
  by (simp add: pending_def)

text \<open>A write that goes straight to the partition, and one that gets a buffer.\<close>

lemma async_write_direct_inv:
  assumes "io_inv w" "allowed (Write mres idx r data ob h) w"
    and "allocate_buffer_observed mres False ob (mem w) (write_buffer_pool w) = (None, e, m, q)"
  shows "\<exists>w'. async_write mres idx r data ob h w = Inr (e, w') \<and> io_inv w'"
proof -
  have inv: "mem_inv w" "store_inv w" "slots_inv w" "jobs_inv w"
    using assms(1) by (simp_all add: io_inv_def)
  have ok: "idx \<in> live_idx w" "0 \<le> pr_length r" "pr_length r \<le> 16384" "nat (pr_length r) \<le> length data"
    using assms(2) by simp_all
  have l: "m = mem w" "ledger m (read_buffer_pool w) q (read_bufs w) (write_bufs w)"
    using ledger_none_observed inv(1) assms(3) unfolding mem_inv_ledger by blast+
  obtain ps where ps: "deref_storage idx w = Inr ps" "fs_ok (ps_fs ps)"
    using deref_live [OF inv(3) ok(1)] by blast
  obtain s err where s: "write_storage ps (Some data) (pr_piece r) (pr_start r) (pr_length r)
      storage_error_init (sys w) = Inr (s, err)"
    using write_storage_safe [OF ps(2) ok(2) _ ok(4)] ok(3) by force
  have "async_write mres idx r data ob h w =
      Inr (e, post_ioc (WriteDone h err) (w\<lparr>mem := m, write_buffer_pool := q, sys := s\<rparr>))"
    using assms(3) ps(1) s ok(3) by (simp add: async_write_def DEFAULT_BLOCK_SIZE_def)
  moreover have "io_inv (post_ioc (WriteDone h err) (w\<lparr>mem := m, write_buffer_pool := q, sys := s\<rparr>))"
    using l inv
    by (simp add: io_inv_def mem_inv_ledger store_inv_def slots_inv_def jobs_inv_def busy_def post_ioc_def buf_defs)
  ultimately show ?thesis by blast
qed

lemma async_write_buffered_inv:
  assumes "io_inv w" "allowed (Write mres idx r data ob h) w"
    and "allocate_buffer_observed mres False ob (mem w) (write_buffer_pool w) = (Some buf, e, m, q)"
  shows "\<exists>w'. async_write mres idx r data ob h w = Inr (e, w') \<and> io_inv w'"
proof -
  let ?data = "take (nat (pr_length r)) data"
  let ?loc = "torrent_location idx (pr_piece r) (pr_start r)"
  let ?job = "\<lparr>wj_storage = idx, wj_req = r, wj_buf = buf, wj_handler = h, wj_stage = Storing\<rparr>"
  have inv: "mem_inv w" "store_inv w" "slots_inv w" "jobs_inv w"
    using assms(1) by (simp_all add: io_inv_def)
  have ok: "malloc_ok (mem w) mres" "idx \<in> live_idx w" "0 \<le> pr_length r" "pr_length r \<le> 16384"
      "nat (pr_length r) \<le> length data" "size_t (pr_length r) = nat (pr_length r)"
    using assms(2) by (simp_all add: wrap_simps)
  have l: "ledger m (read_buffer_pool w) q (read_bufs w) (buf # write_bufs w)"
    "\<exists>b. m = (mem w)(buf \<mapsto> b) \<and> length b = 16384"
    using ledger_alloc_observed inv(1) ok(1) assms(3) unfolding mem_inv_ledger by blast+
  then obtain b where b: "m buf = Some b" "length b = 16384" by auto
  define w' where "w' = w\<lparr>mem := m(buf \<mapsto> blit 0 ?data b), write_buffer_pool := q,
    store_buf := insert_block ?loc buf (store_buf w), write_thread_pool := write_thread_pool w @ [?job]\<rparr>"
  have eq: "async_write mres idx r data ob h w = Inr (e, w')"
    using assms(3) ok b by (simp add: async_write_def DEFAULT_BLOCK_SIZE_def heap_simps w'_def)
  have "ledger (m(buf \<mapsto> blit 0 ?data b)) (read_buffer_pool w) q (read_bufs w) (buf # write_bufs w)"
    using ledger_upd [OF l(1) b(1)] b(2) ok by simp
  then have "mem_inv w'"
    by (rule mem_invI) (simp_all add: w'_def buf_defs)
  moreover have "store_inv w'"
    using inv(2) sb.backed_emplace [of "store_buf w" "pending (write_thread_pool w)" ?loc buf]
    by (simp add: store_inv_def w'_def sb_simps pending_append)
       (simp add: pending_def wj_loc_def)
  ultimately have "io_inv w'"
    using inv(3,4) ok
    by (simp add: io_inv_def slots_inv_def jobs_inv_def busy_def w'_def write_job_ok_def)
  with eq show ?thesis by blast
qed

lemma async_write_inv:
  assumes "io_inv w" "allowed (Write mres idx r data ob h) w"
  shows "\<exists>e w'. async_write mres idx r data ob h w = Inr (e, w') \<and> io_inv w'"
proof -
  obtain res e m q where "allocate_buffer_observed mres False ob (mem w) (write_buffer_pool w) = (res, e, m, q)"
    by (metis prod_cases4)
  then show ?thesis
    using async_write_direct_inv [OF assms] async_write_buffered_inv [OF assms] by (cases res) blast+
qed

end
