(* ===== verification/Disk_Safety.thy ===== *)
theory Disk_Safety
  imports Disk_Steps
begin

text \<open>
  The jobs of the thread pools, the io context and the return of buffers keep the invariant, and with
  them every step the client's contract allows. From this follow memory safety, the accounting of
  the buffers, and the behaviour of slots and of refused reads.
\<close>

section \<open>Jobs\<close>

lemma nth_remove_at_eqs:
  assumes "i < length xs"
  shows "mset (map f xs) = add_mset (f (xs ! i)) (mset (map f (remove_at i xs)))"
  using mset_remove_at [OF assms] by (metis image_mset_add_mset mset_map)

lemma read_job_live:
  assumes "io_inv w" "j \<in> set (read_thread_pool w)"
  shows "\<exists>piece off len pos ps. read_job_range j = (read_job_idx j, piece, off, len, pos) \<and> 0 \<le> len \<and> len < 2147483648 \<and>
           pos + nat len \<le> 16384 \<and> deref_storage (read_job_idx j) w = Inr ps \<and> fs_ok (ps_fs ps)"
    and "\<exists>blk. mem w (read_job_buf j) = Some blk \<and> length blk = 16384"
proof -
  have j: "read_job_ok j" "read_job_idx j \<in> live_idx w" "read_job_buf j \<in> set (read_bufs w)" and s: "slots_inv w"
    using assms by (auto simp: io_inv_def jobs_inv_def busy_def read_bufs_def)
  obtain ps where "deref_storage (read_job_idx j) w = Inr ps" "fs_ok (ps_fs ps)"
    using deref_live [OF s j(2)] by blast
  then show "\<exists>piece off len pos ps. read_job_range j = (read_job_idx j, piece, off, len, pos) \<and> 0 \<le> len \<and> len < 2147483648 \<and>
           pos + nat len \<le> 16384 \<and> deref_storage (read_job_idx j) w = Inr ps \<and> fs_ok (ps_fs ps)"
    using j(1) by (auto simp: read_job_ok_def split: prod.splits)
  show "\<exists>blk. mem w (read_job_buf j) = Some blk \<and> length blk = 16384"
    using ledger_live assms(1) j(3) unfolding io_inv_def mem_inv_ledger by blast
qed

text \<open>Changes that keep the invariant: the system, the content of a block, and a read job that is done.\<close>

lemma io_inv_sys: "io_inv (w\<lparr>sys := s\<rparr>) = io_inv w"
  by (simp add: io_inv_def inv_defs buf_defs busy_def)

lemma io_inv_mem:
  assumes "io_inv w" "mem w a = Some blk" "length blk' = length blk"
  shows "io_inv (w\<lparr>mem := (mem w)(a \<mapsto> blk')\<rparr>)"
  using assms ledger_upd [of "mem w"]
  by (simp add: io_inv_def mem_inv_ledger store_inv_def slots_inv_def jobs_inv_def buf_defs busy_def)

lemma io_inv_answer:
  assumes "io_inv w" "i < length (read_thread_pool w)"
  shows "io_inv (post_ioc (ReadDone h (Some (read_job_buf (read_thread_pool w ! i))) err)
           (w\<lparr>read_thread_pool := remove_at i (read_thread_pool w)\<rparr>))" (is "io_inv ?w")
proof -
  have inv: "mem_inv w" "store_inv w" "slots_inv w" "jobs_inv w"
    using assms(1) by (simp_all add: io_inv_def)
  have "mset (read_bufs ?w) = mset (read_bufs w)"
    using nth_remove_at_eqs [OF assms(2), of read_job_buf] by (simp add: read_bufs_def post_ioc_def)
  then have "mem_inv ?w"
    by (intro mem_invI [OF inv(1) [unfolded mem_inv_ledger]]) (simp_all add: write_bufs_def post_ioc_def)
  then show ?thesis
    using inv(2-4) set_remove_at [of i "read_thread_pool w"]
    by (auto simp: io_inv_def store_inv_def slots_inv_def jobs_inv_def busy_def post_ioc_def)
qed

lemma run_read_inv:
  assumes "io_inv w" "i < length (read_thread_pool w)"
  shows "\<exists>w'. run_read (read_thread_pool w ! i) (w\<lparr>read_thread_pool := remove_at i (read_thread_pool w)\<rparr>) = Inr w' \<and>
           io_inv w'"
proof -
  define j where "j = read_thread_pool w ! i"
  have "j \<in> set (read_thread_pool w)"
    using assms(2) by (simp add: j_def)
  note live = read_job_live [OF assms(1) this]
  obtain piece off len pos ps where rg: "read_job_range j = (read_job_idx j, piece, off, len, pos)" "0 \<le> len"
      "len < 2147483648" "pos + nat len \<le> 16384" "deref_storage (read_job_idx j) w = Inr ps" "fs_ok (ps_fs ps)"
    using live(1) by blast
  obtain blk where blk: "mem w (read_job_buf j) = Some blk" "length blk = 16384"
    using live(2) by blast
  obtain blk' ret err where r: "read_storage ps (sys w) (Some (read_job_buf j, pos)) piece off len
      storage_error_init (mem w) = Inr ((mem w)(read_job_buf j \<mapsto> blk'), ret, err)" "length blk' = length blk"
    using read_storage_safe [where h = "mem w", OF rg(6,2,3) blk(1)] rg(4) blk(2) by metis
  let ?m = "w\<lparr>mem := (mem w)(read_job_buf j \<mapsto> blk')\<rparr>"
  have "run_read j (w\<lparr>read_thread_pool := remove_at i (read_thread_pool w)\<rparr>) =
      Inr (post_ioc (ReadDone (read_job_handler j) (Some (read_job_buf j)) err)
        (?m\<lparr>read_thread_pool := remove_at i (read_thread_pool w)\<rparr>))"
    using rg(1,5) r(1) by (simp add: run_read_def deref_storage_def post_ioc_def)
  moreover have "io_inv ?m"
    by (rule io_inv_mem [OF assms(1) blk(1) r(2)])
  ultimately show ?thesis
    using io_inv_answer [of ?m i "read_job_handler j" err] assms(2) by (simp add: j_def)
qed

lemma pending_update_same:
  assumes "i < length js" "wj_loc j' = wj_loc (js ! i)" "wj_buf j' = wj_buf (js ! i)"
    and "not_erased (wj_stage j') = not_erased (wj_stage (js ! i))"
  shows "pending (js[i := j']) = pending js"
proof -
  have "pending js = map snd (filter fst (map (\<lambda>j. (not_erased (wj_stage j), wj_loc j, wj_buf j)) js))" for js
    by (simp add: pending_def filter_map o_def)
  then show ?thesis
    using assms by (simp add: map_update_same)
qed

lemma pending_update_erased:
  assumes "i < length js" "not_erased (wj_stage (js ! i))" "\<not> not_erased (wj_stage j')"
  shows "mset (pending js) = add_mset (wj_loc (js ! i), wj_buf (js ! i)) (mset (pending (js[i := j'])))"
proof -
  have "pending js = pending (take i js @ js ! i # drop (Suc i) js)"
    using assms(1) by (simp add: id_take_nth_drop [symmetric])
  then show ?thesis
    using assms by (simp add: upd_conv_take_nth_drop pending_append) (simp add: pending_def)
qed

lemma pending_remove_erased:
  assumes "i < length js" "\<not> not_erased (wj_stage (js ! i))"
  shows "pending (remove_at i js) = pending js"
proof -
  have "pending js = pending (take i js @ js ! i # drop (Suc i) js)"
    using assms(1) by (simp add: id_take_nth_drop [symmetric])
  then show ?thesis
    using assms(2) by (simp add: remove_at_def pending_append) (simp add: pending_def)
qed

lemma store_inv_erase:
  assumes "store_inv w" "i < length (write_thread_pool w)" "not_erased (wj_stage (write_thread_pool w ! i))"
    and "\<not> not_erased (wj_stage j')"
  shows "store_inv (w\<lparr>store_buf := erase_block (wj_loc (write_thread_pool w ! i)) (store_buf w),
                      write_thread_pool := (write_thread_pool w)[i := j']\<rparr>)"
proof -
  let ?ws = "pending (write_thread_pool w)"
  let ?j = "write_thread_pool w ! i"
  have "mset (remove1 (wj_loc ?j, wj_buf ?j) ?ws) = mset (pending ((write_thread_pool w)[i := j']))"
    using pending_update_erased [OF assms(2-4)] by simp
  then have "set (remove1 (wj_loc ?j, wj_buf ?j) ?ws) \<subseteq> set (pending ((write_thread_pool w)[i := j']))"
    by (metis set_mset_mset subset_refl)
  then show ?thesis
    using assms(1) sb.backed_erase [of "store_buf w" ?ws "wj_loc ?j" "wj_buf ?j"]
    by (auto simp: store_inv_def sb_simps intro: backed_mono)
qed

lemma ioc_bufs_watermarks [simp]: "concat (map (ioc_bufs \<circ> Watermark) qs) = []"
  by (induction qs) auto

text \<open>A job that only changes its stage keeps the parts of the invariant that do not look at stages.\<close>

lemma write_stage_frame:
  fixes w i st
  defines "w' \<equiv> w\<lparr>write_thread_pool := (write_thread_pool w)[i := (write_thread_pool w ! i)\<lparr>wj_stage := st\<rparr>]\<rparr>"
  assumes "i < length (write_thread_pool w)"
  shows "write_bufs w' = write_bufs w" "busy w' = busy w"
    and "(\<forall>j \<in> set (write_thread_pool w). write_job_ok j) \<Longrightarrow> \<forall>j \<in> set (write_thread_pool w'). write_job_ok j"
proof -
  let ?j = "(write_thread_pool w ! i)\<lparr>wj_stage := st\<rparr>"
  have "map wj_buf ((write_thread_pool w)[i := ?j]) = map wj_buf (write_thread_pool w)"
    "map wj_storage ((write_thread_pool w)[i := ?j]) = map wj_storage (write_thread_pool w)"
    "map write_job_ok ((write_thread_pool w)[i := ?j]) = map write_job_ok (write_thread_pool w)"
    using assms(2) by (simp_all add: map_update_same write_job_ok_def)
  note m = this
  show "write_bufs w' = write_bufs w"
    using m(1) by (simp add: w'_def write_bufs_def)
  have "wj_storage ` set ((write_thread_pool w)[i := ?j]) = wj_storage ` set (write_thread_pool w)"
    by (metis m(2) list.set_map)
  then show "busy w' = busy w"
    by (simp add: w'_def busy_def)
  have "write_job_ok ` set ((write_thread_pool w)[i := ?j]) = write_job_ok ` set (write_thread_pool w)"
    by (metis m(3) list.set_map)
  then show "\<forall>j \<in> set (write_thread_pool w'). write_job_ok j" if "\<forall>j \<in> set (write_thread_pool w). write_job_ok j"
    using that by (auto simp: w'_def)
qed

text \<open>What the invariant gives for the job that runs.\<close>

lemma write_job_live:
  assumes "io_inv w" "i < length (write_thread_pool w)" "j = write_thread_pool w ! i"
  shows "write_job_ok j" "wj_storage j \<in> live_idx w" "wj_buf j \<in> set (write_bufs w)"
    and "\<exists>blk. mem w (wj_buf j) = Some blk \<and> length blk = 16384"
proof -
  have "j \<in> set (write_thread_pool w)"
    using assms(2,3) by simp
  then show j: "write_job_ok j" "wj_storage j \<in> live_idx w" "wj_buf j \<in> set (write_bufs w)"
    using assms(1) by (auto simp: io_inv_def jobs_inv_def busy_def write_bufs_def)
  show "\<exists>blk. mem w (wj_buf j) = Some blk \<and> length blk = 16384"
    using ledger_live assms(1) j(3) unfolding io_inv_def mem_inv_ledger by blast
qed

lemma io_inv_stored:
  assumes "io_inv w" "i < length (write_thread_pool w)" "wj_stage (write_thread_pool w ! i) = Storing"
  shows "io_inv (w\<lparr>write_thread_pool := (write_thread_pool w)[i := (write_thread_pool w ! i)\<lparr>wj_stage := Erasing err\<rparr>]\<rparr>)"
proof -
  have inv: "mem_inv w" "store_inv w" "slots_inv w" "jobs_inv w"
    using assms(1) by (simp_all add: io_inv_def)
  have "pending ((write_thread_pool w)[i := (write_thread_pool w ! i)\<lparr>wj_stage := Erasing err\<rparr>]) = pending (write_thread_pool w)"
    using assms(2,3) by (intro pending_update_same) (simp_all add: wj_loc_def)
  then show ?thesis
    using inv write_stage_frame [OF assms(2), of "Erasing err"]
    by (simp add: io_inv_def inv_defs read_bufs_def)
qed

lemma run_write_store_inv:
  assumes "io_inv w" "i < length (write_thread_pool w)" "j = write_thread_pool w ! i" "wj_stage j = Storing"
  shows "\<exists>w'. run_write i w = Inr w' \<and> io_inv w'"
proof -
  note j = write_job_live [OF assms(1-3)]
  obtain blk where blk: "mem w (wj_buf j) = Some blk" "length blk = 16384"
    using j(4) by blast
  obtain ps where ps: "deref_storage (wj_storage j) w = Inr ps" "fs_ok (ps_fs ps)"
    using deref_live [OF _ j(2)] assms(1) by (auto simp: io_inv_def)
  have "0 \<le> pr_length (wj_req j)" "pr_length (wj_req j) < 2147483648" "nat (pr_length (wj_req j)) \<le> length blk"
    using j(1) blk(2) by (simp_all add: write_job_ok_def nat_le_iff)
  then obtain s err where s: "write_storage ps (Some blk) (pr_piece (wj_req j)) (pr_start (wj_req j))
      (pr_length (wj_req j)) storage_error_init (sys w) = Inr (s, err)"
    using write_storage_safe [OF ps(2)] by blast
  then show ?thesis
    using assms(3,4) blk(1) ps(1) io_inv_stored [of "w\<lparr>sys := s\<rparr>" i err] assms(1,2)
    by (simp add: run_write_def io_inv_sys)
qed

lemma run_write_erase_inv:
  assumes "io_inv w" "i < length (write_thread_pool w)" "j = write_thread_pool w ! i" "wj_stage j = Erasing err"
  shows "\<exists>w'. run_write i w = Inr w' \<and> io_inv w'"
proof -
  have inv: "mem_inv w" "store_inv w" "slots_inv w" "jobs_inv w"
    using assms(1) by (simp_all add: io_inv_def)
  have "store_inv (w\<lparr>store_buf := erase_block (wj_loc j) (store_buf w),
      write_thread_pool := (write_thread_pool w)[i := j\<lparr>wj_stage := Posting err\<rparr>]\<rparr>)"
    using store_inv_erase [OF inv(2) assms(2)] assms(3,4) by simp
  then show ?thesis
    using assms(4) inv write_stage_frame [OF assms(2), folded assms(3), of "Posting err"]
    by (simp add: run_write_def assms(3) [symmetric] io_inv_def mem_inv_def slots_inv_def jobs_inv_def read_bufs_def)
      (simp add: write_bufs_def busy_def)
qed

lemma run_write_post_inv:
  assumes "io_inv w" "i < length (write_thread_pool w)" "j = write_thread_pool w ! i" "wj_stage j = Posting err"
  shows "\<exists>w'. run_write i w = Inr w' \<and> io_inv w'"
proof -
  have inv: "mem_inv w" "store_inv w" "slots_inv w" "jobs_inv w"
    using assms(1) by (simp_all add: io_inv_def)
  obtain q' qs where f: "free_disk_buffer (wj_buf j) (mem w) (write_buffer_pool w) =
      Inr ((mem w)(wj_buf j := None), q', qs)"
    and l: "ledger ((mem w)(wj_buf j := None)) (read_buffer_pool w) q' (read_bufs w) (remove1 (wj_buf j) (write_bufs w))"
    using ledger_free_write inv(1) write_job_live(3) [OF assms(1-3)] unfolding mem_inv_ledger by blast
  define w' where "w' = w\<lparr>write_thread_pool := remove_at i (write_thread_pool w),
    ioc := (ioc w @ [Complete (WriteDone (wj_handler j) err)]) @ map Watermark qs,
    mem := (mem w)(wj_buf j := None), write_buffer_pool := q'\<rparr>"
  have eq: "run_write i w = Inr w'"
    using assms(4) f by (simp add: run_write_def assms(3) [symmetric] release_write_buffer_def post_ioc_def
        post_watermarks_def w'_def)
  have "mem_inv w'"
    using nth_remove_at_eqs [OF assms(2), of wj_buf]
    by (intro mem_invI [OF l]) (simp_all add: w'_def buf_defs assms(3))
  moreover have "store_inv w'"
    using inv(2) pending_remove_erased [OF assms(2)] assms(3,4) by (simp add: store_inv_def w'_def)
  moreover have "busy w' \<subseteq> busy w" "set (write_thread_pool w') \<subseteq> set (write_thread_pool w)"
    using set_remove_at [of i "write_thread_pool w"] by (auto simp: busy_def w'_def)
  ultimately have "io_inv w'"
    using inv(3,4) by (auto simp: io_inv_def slots_inv_def jobs_inv_def w'_def)
  with eq show ?thesis by blast
qed

lemma run_write_inv:
  assumes "io_inv w" "i < length (write_thread_pool w)"
  shows "\<exists>w'. run_write i w = Inr w' \<and> io_inv w'"
  using run_write_store_inv [OF assms refl] run_write_erase_inv [OF assms refl] run_write_post_inv [OF assms refl]
  by (cases "wj_stage (write_thread_pool w ! i)") auto

section \<open>Hash jobs\<close>

lemma blocks_in_piece_bound:
  assumes "0 \<le> n" "n < 2147467264" "0 \<le> i" "i < blocks_in_piece n"
  shows "i * 16384 < n"
proof -
  have "blocks_in_piece n = (n + 16383) div 16384"
    using assms(1,2) by (simp add: blocks_in_piece_def DEFAULT_BLOCK_SIZE_def wrap_simps)
  then have "i + 1 \<le> (n + 16383) div 16384"
    using assms(4) by simp
  then show ?thesis
    by linarith
qed

text \<open>The length of a round: positive, within a block and within the piece.\<close>

definition round_len :: "partition_storage \<Rightarrow> hash_job \<Rightarrow> int" where
  "round_len st j = min 16384 (piece_size st (hj_piece j) - hj_offset j)"

lemma round_len_bounds:
  assumes "fs_ok (ps_fs st)" "hash_job_ok j" "hj_i j < blocks_in_piece (piece_size st (hj_piece j))"
  shows "0 < round_len st j" "round_len st j \<le> 16384" "size_t (round_len st j) = nat (round_len st j)"
    and "hj_offset j + round_len st j < 2147467264"
proof -
  have ps: "0 \<le> piece_size st (hj_piece j)" "piece_size st (hj_piece j) < 2147467264"
    using assms(1) by (simp_all add: piece_size_def fs_ok_def)
  have j: "0 \<le> hj_i j" "0 \<le> hj_offset j" "hj_offset j \<le> hj_i j * 16384"
    using assms(2) by (simp_all add: hash_job_ok_def)
  have "hj_offset j < piece_size st (hj_piece j)"
    using blocks_in_piece_bound [OF ps j(1) assms(3)] j(3) by simp
  then show "0 < round_len st j" "round_len st j \<le> 16384" "size_t (round_len st j) = nat (round_len st j)"
    "hj_offset j + round_len st j < 2147467264"
    using ps by (auto simp: round_len_def wrap_simps)
qed

lemma hash_round_advance:
  assumes "hash_job_ok j" "0 < ret" "ret \<le> round_len st j" "round_len st j \<le> 16384" "hj_offset j + round_len st j < 2147467264"
  shows "hash_job_ok (j\<lparr>hj_chunks := c, hj_error := e, hj_offset := i32 (hj_offset j + ret), hj_i := hj_i j + 1\<rparr>)"
proof -
  have "i32 (hj_offset j + ret) = hj_offset j + ret"
    using assms by (intro i32_id) (auto simp: hash_job_ok_def)
  then show ?thesis
    using assms by (simp add: hash_job_ok_def)
qed

text \<open>The round on a block that is pending, and on one that is read from the storage.\<close>

lemma hash_round_hit:
  assumes "lookup_block (store_buf w) (torrent_location (hj_storage j) (hj_piece j) (hj_offset j)) = Some b"
    and "mem w b = Some x" "length x = 16384" "0 < round_len st j" "round_len st j \<le> 16384"
  shows "hash_round st j w = Inr (j\<lparr>hj_chunks := hj_chunks j @ [take (nat (round_len st j)) x],
           hj_offset := i32 (hj_offset j + round_len st j), hj_i := hj_i j + 1\<rparr>, mem w)"
  using assms
  by (simp add: hash_round_def get_def DEFAULT_BLOCK_SIZE_def round_len_def [symmetric] heap_simps wrap_simps Let_def)

lemma hash_round_miss:
  assumes "lookup_block (store_buf w) (torrent_location (hj_storage j) (hj_piece j) (hj_offset j)) = None"
    and "read_storage st (sys w) (Some (hj_buf j, 0)) (hj_piece j) (hj_offset j) (round_len st j)
        (hj_error j) (mem w) = Inr ((mem w)(hj_buf j \<mapsto> blk'), ret, err)"
    and "length blk' = 16384" "0 \<le> ret" "ret \<le> 16384"
  shows "hash_round st j w =
    Inr (if ret \<le> 0 then j\<lparr>hj_error := err, hj_done := True\<rparr>
         else j\<lparr>hj_chunks := hj_chunks j @ [take (nat ret) blk'], hj_error := err,
                hj_offset := i32 (hj_offset j + ret), hj_i := hj_i j + 1\<rparr>, (mem w)(hj_buf j \<mapsto> blk'))"
  using assms
  by (auto simp: hash_round_def get_def DEFAULT_BLOCK_SIZE_def round_len_def [symmetric] heap_simps wrap_simps)

text \<open>A round stays inside the piece and inside its buffer, and keeps what the job was posted with.\<close>

lemma hash_round_safe:
  assumes "fs_ok (ps_fs st)" "hash_job_ok j" "hj_i j < blocks_in_piece (piece_size st (hj_piece j))"
    and "\<And>loc b. lookup_block (store_buf w) loc = Some b \<Longrightarrow> \<exists>x. mem w b = Some x \<and> length x = 16384"
    and "mem w (hj_buf j) = Some blk" "length blk = 16384"
  shows "\<exists>j' blk'. hash_round st j w = Inr (j', (mem w)(hj_buf j \<mapsto> blk')) \<and> length blk' = 16384 \<and>
           hash_job_ok j' \<and> hj_storage j' = hj_storage j \<and> hj_piece j' = hj_piece j \<and>
           hj_buf j' = hj_buf j \<and> hj_handler j' = hj_handler j"
proof -
  note len = round_len_bounds [OF assms(1-3)]
  note adv = hash_round_advance [OF assms(2) _ _ len(2,4)]
  show ?thesis
  proof (cases "lookup_block (store_buf w) (torrent_location (hj_storage j) (hj_piece j) (hj_offset j))")
    case (Some b)
    then obtain x where "mem w b = Some x" "length x = 16384"
      using assms(4) by blast
    from hash_round_hit [OF Some this len(1,2)] show ?thesis
      using adv [of "round_len st j" "hj_error j" "hj_chunks j @ [take (nat (round_len st j)) x]"] len(1) assms(5,6)
      by (auto simp: fun_upd_idem intro!: exI [of _ blk])
  next
    case None
    have "round_len st j < 2147483648" "0 + nat (round_len st j) \<le> length blk" "0 \<le> round_len st j"
      using len assms(6) by auto
    from read_storage_safe [where h = "mem w" and s = "sys w" and p = "hj_piece j" and off = "hj_offset j"
        and err = "hj_error j" and ps = st, OF assms(1) this(3,1) assms(5) this(2)]
    obtain blk' ret err where r: "read_storage st (sys w) (Some (hj_buf j, 0)) (hj_piece j) (hj_offset j) (round_len st j)
        (hj_error j) (mem w) = Inr ((mem w)(hj_buf j \<mapsto> blk'), ret, err)" "length blk' = 16384" "0 \<le> ret" "ret \<le> round_len st j"
      using assms(6) by auto
    from hash_round_miss [OF None r(1-3)] show ?thesis
      using adv [of ret err "hj_chunks j @ [take (nat ret) blk']"] r(2,4) len(2) assms(2)
      by (cases "ret \<le> 0") (auto simp: hash_job_ok_def)
  qed
qed

lemma release_read_inv:
  assumes "mem_inv w" "a \<in> set (read_bufs w)"
  shows "\<exists>p' qs. free_disk_buffer a (mem w) (read_buffer_pool w) = Inr ((mem w)(a := None), p', qs) \<and>
           ledger ((mem w)(a := None)) p' (write_buffer_pool w) (remove1 a (read_bufs w)) (write_bufs w)"
  using assms ledger_free_read unfolding mem_inv_ledger by blast

lemma hash_job_live:
  assumes "io_inv w" "i < length (hash_thread_pool w)" "j = hash_thread_pool w ! i"
  shows "hash_job_ok j" "hj_storage j \<in> live_idx w" "hj_buf j \<in> set (read_bufs w)"
    and "\<exists>blk. mem w (hj_buf j) = Some blk \<and> length blk = 16384"
    and "\<exists>st. deref_storage (hj_storage j) w = Inr st \<and> fs_ok (ps_fs st)"
proof -
  have "j \<in> set (hash_thread_pool w)"
    using assms(2,3) by simp
  then show j: "hash_job_ok j" "hj_storage j \<in> live_idx w" "hj_buf j \<in> set (read_bufs w)"
    using assms(1) by (auto simp: io_inv_def jobs_inv_def busy_def read_bufs_def)
  show "\<exists>blk. mem w (hj_buf j) = Some blk \<and> length blk = 16384"
    using ledger_live assms(1) j(3) unfolding io_inv_def mem_inv_ledger by blast
  show "\<exists>st. deref_storage (hj_storage j) w = Inr st \<and> fs_ok (ps_fs st)"
    using deref_live [OF _ j(2)] assms(1) unfolding io_inv_def by blast
qed

lemma run_hash_round_inv:
  assumes "io_inv w" "i < length (hash_thread_pool w)" "j = hash_thread_pool w ! i"
    and "deref_storage (hj_storage j) w = Inr st" "fs_ok (ps_fs st)"
    and "\<not> hj_done j \<and> hj_i j < blocks_in_piece (piece_size st (hj_piece j))"
  shows "\<exists>w'. run_hash api i w = Inr w' \<and> io_inv w'"
proof -
  have inv: "mem_inv w" "store_inv w" "slots_inv w" "jobs_inv w"
    using assms(1) by (simp_all add: io_inv_def)
  note j = hash_job_live [OF assms(1-3)]
  obtain blk where blk: "mem w (hj_buf j) = Some blk" "length blk = 16384"
    using j(4) by blast
  obtain j' blk' where r: "hash_round st j w = Inr (j', (mem w)(hj_buf j \<mapsto> blk'))" "length blk' = 16384"
    and j': "hash_job_ok j'" "hj_storage j' = hj_storage j" "hj_buf j' = hj_buf j"
    using hash_round_safe [OF assms(5) j(1) conjunct2 [OF assms(6)] _ blk] store_live(2) [OF inv(1,2)] by blast
  define w' where "w' = w\<lparr>mem := (mem w)(hj_buf j \<mapsto> blk'), hash_thread_pool := (hash_thread_pool w)[i := j']\<rparr>"
  have eq: "run_hash api i w = Inr w'"
    using assms(4,6) r(1) by (simp add: run_hash_def assms(3) [symmetric] w'_def)
  have l: "ledger ((mem w)(hj_buf j \<mapsto> blk')) (read_buffer_pool w) (write_buffer_pool w) (read_bufs w) (write_bufs w)"
    using ledger_upd [of "mem w"] inv(1) blk r(2) by (simp add: mem_inv_ledger)
  have "map hj_buf ((hash_thread_pool w)[i := j']) = map hj_buf (hash_thread_pool w)"
    using assms(2,3) j'(3) by (simp add: map_update_same)
  then have "mem_inv w'"
    by (intro mem_invI [OF l]) (simp_all add: w'_def buf_defs)
  moreover have jobs: "set (hash_thread_pool w') \<subseteq> insert j' (set (hash_thread_pool w))"
    unfolding w'_def by (simp add: set_update_subset_insert)
  moreover have "busy w' \<subseteq> insert (hj_storage j) (busy w)"
    using jobs j'(2) by (auto simp: busy_def w'_def)
  then have "busy w' \<subseteq> live_idx w"
    using inv(4) j(2) by (auto simp: jobs_inv_def)
  ultimately have "io_inv w'"
    using inv(2-4) j'(1) by (auto simp: io_inv_def store_inv_def slots_inv_def jobs_inv_def w'_def)
  with eq show ?thesis by blast
qed

lemma run_hash_finish_inv:
  assumes "io_inv w" "i < length (hash_thread_pool w)" "j = hash_thread_pool w ! i"
    and "deref_storage (hj_storage j) w = Inr st"
    and "\<not> (\<not> hj_done j \<and> hj_i j < blocks_in_piece (piece_size st (hj_piece j)))"
  shows "\<exists>w'. run_hash api i w = Inr w' \<and> io_inv w'"
proof -
  have inv: "mem_inv w" "store_inv w" "slots_inv w" "jobs_inv w"
    using assms(1) by (simp_all add: io_inv_def)
  obtain p' qs where f: "free_disk_buffer (hj_buf j) (mem w) (read_buffer_pool w) =
      Inr ((mem w)(hj_buf j := None), p', qs)"
    and l: "ledger ((mem w)(hj_buf j := None)) p' (write_buffer_pool w) (remove1 (hj_buf j) (read_bufs w)) (write_bufs w)"
    using release_read_inv [OF inv(1) hash_job_live(3) [OF assms(1-3)]] by blast
  define w' where "w' = w\<lparr>hash_thread_pool := remove_at i (hash_thread_pool w),
    ioc := (ioc w @ [Complete (HashDone (hj_handler j) (hj_piece j) (job_digest api (hj_chunks j)) (hj_error j))])
      @ map Watermark qs, mem := (mem w)(hj_buf j := None), read_buffer_pool := p'\<rparr>"
  have eq: "run_hash api i w = Inr w'"
    using assms(4,5) f by (auto simp: run_hash_def assms(3) [symmetric] release_read_buffer_def post_ioc_def
        post_watermarks_def w'_def)
  have "mem_inv w'"
    using nth_remove_at_eqs [OF assms(2), of hj_buf]
    by (intro mem_invI [OF l]) (simp_all add: w'_def buf_defs assms(3))
  moreover have "busy w' \<subseteq> busy w" "set (hash_thread_pool w') \<subseteq> set (hash_thread_pool w)"
    using set_remove_at [of i "hash_thread_pool w"] by (auto simp: busy_def w'_def)
  ultimately have "io_inv w'"
    using inv(2-4) by (auto simp: io_inv_def store_inv_def slots_inv_def jobs_inv_def w'_def)
  with eq show ?thesis by blast
qed

lemma run_hash_inv:
  assumes "io_inv w" "i < length (hash_thread_pool w)"
  shows "\<exists>w'. run_hash api i w = Inr w' \<and> io_inv w'"
proof -
  obtain st where "deref_storage (hj_storage (hash_thread_pool w ! i)) w = Inr st" "fs_ok (ps_fs st)"
    using hash_job_live(5) [OF assms refl] by blast
  then show ?thesis
    using run_hash_round_inv [OF assms refl] run_hash_finish_inv [OF assms refl] by blast
qed

lemma async_hash_inv:
  assumes "io_inv w" "allowed (Hash mres idx piece h) w"
  shows "io_inv (async_hash mres idx piece h w)"
proof -
  obtain ob m p where a: "allocate_buffer mres (mem w) (read_buffer_pool w) = (ob, m, p)"
    by (metis prod_cases3)
  have inv: "mem_inv w" "store_inv w" "slots_inv w" "jobs_inv w"
    using assms(1) by (simp_all add: io_inv_def)
  show ?thesis
  proof (cases ob)
    case None
    then show ?thesis
      using a io_inv_pool [OF assms(1) a [unfolded None]]
      by (simp add: async_hash_def post_ioc_def io_inv_def inv_defs buf_defs busy_def)
  next
    case (Some buf)
    have l: "ledger m p (write_buffer_pool w) (buf # read_bufs w) (write_bufs w)"
      using ledger_alloc inv(1) assms(2) a [unfolded Some] unfolding mem_inv_ledger by auto
    have "mem_inv (async_hash mres idx piece h w)"
      using a Some by (intro mem_invI [OF l]) (simp_all add: async_hash_def buf_defs)
    then show ?thesis
      using inv(2-4) assms(2) a Some
      by (simp add: async_hash_def io_inv_def store_inv_def slots_inv_def jobs_inv_def busy_def hash_job_ok_def)
  qed
qed

section \<open>The io context and the client\<close>

lemma post_ioc_inv:
  "completion_bufs c = [] \<Longrightarrow> c \<noteq> StopDone None \<Longrightarrow> io_inv (post_ioc c w) = io_inv w"
  by (auto simp: post_ioc_def io_inv_def inv_defs buf_defs busy_def)

lemma run_ioc_inv:
  assumes "io_inv w"
  shows "\<exists>w'. run_ioc alive w = Inr w' \<and> io_inv w'"
proof (cases "ioc w")
  case Nil
  with assms show ?thesis by (simp add: run_ioc_def)
next
  case (Cons a rest)
  have inv: "mem_inv w" "store_inv w" "slots_inv w" "jobs_inv w"
    using assms(1) by (simp_all add: io_inv_def)
  define w' where "w' = (case a of Complete c \<Rightarrow> invoke c (w\<lparr>ioc := rest\<rparr>)
    | Watermark cbs \<Rightarrow> w\<lparr>ioc := rest, notified := notified w @ watermark_callback alive cbs\<rparr>)"
  have "a \<noteq> Complete (StopDone None)"
    using inv(4) Cons by (auto simp: jobs_inv_def)
  then have eq: "run_ioc alive w = Inr w'"
    using Cons by (auto simp: run_ioc_def w'_def split: ioc_job.splits completion.splits option.splits)
  have "mem_inv w'"
    using inv(1) Cons
    by (intro mem_invI [OF inv(1) [unfolded mem_inv_ledger]])
      (auto simp: w'_def buf_defs invoke_bufs split: ioc_job.splits)
  then have "io_inv w'"
    using inv(2-4) Cons
    by (auto simp: io_inv_def store_inv_def slots_inv_def jobs_inv_def busy_def w'_def invoke_bufs
        split: ioc_job.splits)
  with eq show ?thesis by blast
qed

lemma mset_remove1_tail: "a \<in> set ys \<Longrightarrow> mset (xs @ remove1 a ys) = mset (remove1 a (xs @ ys))"
  by (simp only: mset_append mset_remove1 diff_union_single_conv set_mset_mset)

lemma client_release_inv:
  assumes "io_inv w" "buf \<in> set (client_bufs w)"
  shows "\<exists>w'. client_release buf w = Inr w' \<and> io_inv w'"
proof -
  have inv: "mem_inv w" "store_inv w" "slots_inv w" "jobs_inv w"
    using assms(1) by (simp_all add: io_inv_def)
  have "buf \<in> set (read_bufs w)"
    using assms(2) by (simp add: read_bufs_def)
  then obtain p' qs where f: "free_disk_buffer buf (mem w) (read_buffer_pool w) = Inr ((mem w)(buf := None), p', qs)"
    and l: "ledger ((mem w)(buf := None)) p' (write_buffer_pool w) (remove1 buf (read_bufs w)) (write_bufs w)"
    using release_read_inv [OF inv(1)] by blast
  define w' where "w' = w\<lparr>client_bufs := remove1 buf (client_bufs w), mem := (mem w)(buf := None),
    read_buffer_pool := p', ioc := ioc w @ map Watermark qs\<rparr>"
  have eq: "client_release buf w = Inr w'"
    using f by (simp add: client_release_def release_read_buffer_def post_watermarks_def w'_def)
  have "mem_inv w'"
  proof (rule mem_invI [OF l])
    show "mset (read_bufs w') = mset (remove1 buf (read_bufs w))"
      using mset_remove1_tail [OF assms(2), of "map read_job_buf (read_thread_pool w) @
          map hj_buf (hash_thread_pool w) @ concat (map ioc_bufs (ioc w))"]
      by (simp only: append_assoc) (simp add: w'_def read_bufs_def)
  qed (simp_all add: w'_def write_bufs_def)
  then have "io_inv w'"
    using inv(2-4)
    by (auto simp: io_inv_def store_inv_def slots_inv_def jobs_inv_def busy_def w'_def)
  with eq show ?thesis by blast
qed

section \<open>Every allowed step succeeds and keeps the invariant\<close>

lemma exec_inv:
  assumes "io_inv w" "allowed l w"
  shows "\<exists>w'. exec api l w = Inr w' \<and> io_inv w'"
proof (cases l)
  case (NewTorrent path fs opened)
  with assms show ?thesis using new_torrent_inv [of w path fs opened] by auto
next
  case (RemoveTorrent idx)
  with assms show ?thesis using remove_torrent_inv by simp
next
  case (Read mres idx r h)
  with assms show ?thesis using async_read_inv [of w mres idx r h] by auto
next
  case (Write mres idx r data ob h)
  with assms show ?thesis using async_write_inv [of w mres idx r data ob h] by auto
next
  case (Hash mres idx p h)
  with assms show ?thesis using async_hash_inv [of w mres idx p h] by simp
next
  case (RunRead i)
  with assms show ?thesis using run_read_inv [of w i] by auto
next
  case (RunWrite i)
  with assms show ?thesis using run_write_inv [of w i] by auto
next
  case (RunHash i)
  with assms show ?thesis using run_hash_inv [of w i api] by auto
next
  case (RunIoc alive)
  with assms show ?thesis using run_ioc_inv [of w alive] by auto
next
  case (ClientRelease buf)
  with assms show ?thesis using client_release_inv [of w buf] by auto
qed (use assms in \<open>simp_all add: post_ioc_inv passive_defs\<close>)

lemma io_reach_inv: "io_reach api w \<Longrightarrow> io_inv w"
proof (induction rule: io_reach.induct)
  case (start m s)
  show ?case by (rule io_inv_init)
next
  case (more w w')
  from more.hyps(2) obtain l where "allowed l w" "exec api l w = Inr w'"
    by (rule io_stepE)
  with more.IH show ?case
    using exec_inv [of w l api] by auto
qed

section \<open>An example world\<close>

text \<open>A torrent of two ranges opened on the example device, and a write of its seven bytes accepted for it.\<close>

definition example_world :: world where
  "example_world =
     (raw_disk_io_new Map.empty example_os)
       \<lparr>free_slots := [], sys := example_os\<lparr>os_fds := (os_fds example_os)(4 \<mapsto> ''/dev/sda1'')\<rparr>,
        storages := [(0, Some (example_storage\<lparr>ps_fd := 4\<rparr>))]\<rparr>"

definition example_request :: peer_request where
  "example_request = \<lparr>pr_piece = 0, pr_start = 0, pr_length = 7\<rparr>"

definition example_written :: world where
  "example_written =
     example_world
       \<lparr>mem := [9 \<mapsto> blit 0 [1, 2, 3, 4, 5, 6, 7] (replicate 16384 0)],
        write_buffer_pool := \<lparr>m_size = 1, m_exceeded_max_size = False, m_observers = []\<rparr>,
        store_buf := \<lparr>m_store_buffer = [(torrent_location 0 0 0, 9)]\<rparr>,
        write_thread_pool := [\<lparr>wj_storage = 0, wj_req = example_request, wj_buf = 9, wj_handler = 5,
                               wj_stage = Storing\<rparr>]\<rparr>"

text \<open>A stand-in for the hash function.\<close>

definition example_hasher :: "bytes hasher_api" where
  "example_hasher = \<lparr>hs_init = [], hs_update = (@), hs_final = (\<lambda>st. take 20 (st @ replicate 20 0))\<rparr>"

lemma example_open_step:
  "allowed (NewTorrent ''/dev/sda1'' (ranges_storage [(2, 3), (8, 4)] 7) 4) (raw_disk_io_new Map.empty example_os)"
  "exec api (NewTorrent ''/dev/sda1'' (ranges_storage [(2, 3), (8, 4)] 7) 4) (raw_disk_io_new Map.empty example_os) =
     Inr example_world"
  by (simp_all add: raw_disk_io_new_def example_os_def ranges_fs_ok new_torrent_def
      partition_storage_new_def example_world_def example_storage_def i32_id)

lemma example_write_step:
  "allowed (Write (Some (9, replicate 16384 0)) 0 example_request [1, 2, 3, 4, 5, 6, 7] None 5) example_world"
  "exec api (Write (Some (9, replicate 16384 0)) 0 example_request [1, 2, 3, 4, 5, 6, 7] None 5) example_world =
     Inr example_written"
proof -
  show "allowed (Write (Some (9, replicate 16384 0)) 0 example_request [1, 2, 3, 4, 5, 6, 7] None 5) example_world"
    by (simp add: example_world_def raw_disk_io_new_def malloc_ok_def example_request_def)
  show "exec api (Write (Some (9, replicate 16384 0)) 0 example_request [1, 2, 3, 4, 5, 6, 7] None 5) example_world =
     Inr example_written"
    by (simp add: async_write_def allocate_buffer_observed_def allocate_buffer_impl_def example_world_def
        raw_disk_io_new_def buffer_pool_init_def pool_simps DEFAULT_BLOCK_SIZE_def lift_ub_def
        example_request_def example_written_def size_t_id heap_store_def insert_block_def store_buffer_init_def)
qed

lemma example_reach: "io_reach api example_world" "io_reach api example_written"
proof -
  show w: "io_reach api example_world"
    using io_reach.start io_step.step [OF example_open_step] by (rule io_reach.more)
  show "io_reach api example_written"
    using w io_step.step [OF example_write_step] by (rule io_reach.more)
qed

section \<open>Properties of the disk back end: safety\<close>

text \<open>C8: Memory safety under every interleaving: in a reachable state each step the client's contract
  allows, a call, a step of any job on any of the pool threads, the io context or the return of a
  buffer, succeeds. No null or freed pointer is used, no block is left or freed twice, no assertion fails, no
  empty function is called, and the process does not exit.\<close>

theorem io_memory_safe:
  assumes "io_reach api w" "allowed l w"
  shows "\<exists>w'. exec api l w = Inr w' \<and> io_reach api w'"
proof -
  obtain w' where "exec api l w = Inr w'"
    using exec_inv [OF io_reach_inv [OF assms(1)] assms(2)] by blast
  then show ?thesis
    using assms by (blast intro: io_reach.more io_step.step)
qed

theorem io_memory_safe_witness:
  "allowed (RunWrite 0) example_written \<and> (\<exists>w'. exec example_hasher (RunWrite 0) example_written = Inr w')"
proof -
  have "allowed (RunWrite 0) example_written"
    by (simp add: example_written_def pool_threads_def)
  then show ?thesis
    using io_memory_safe [OF example_reach(2) [of example_hasher], of "RunWrite 0"] by auto
qed

text \<open>C21: Every buffer is accounted for: the counter of the read pool is the number of buffers held by
  read jobs, hash jobs, queued completions and the client, that of the write pool is the number of
  write jobs, neither passes 1024, and no buffer has two holders.\<close>

theorem buffers_accounted:
  assumes "io_reach api w"
  shows "sint (m_size (read_buffer_pool w)) = int (length (read_bufs w)) \<and> length (read_bufs w) \<le> 1024 \<and>
         sint (m_size (write_buffer_pool w)) = int (length (write_thread_pool w)) \<and>
         length (write_thread_pool w) \<le> 1024 \<and>
         distinct (read_bufs w @ write_bufs w) \<and> set (read_bufs w @ write_bufs w) \<subseteq> dom (mem w)"
proof -
  have l: "ledger (mem w) (read_buffer_pool w) (write_buffer_pool w) (read_bufs w) (write_bufs w)"
    using io_reach_inv [OF assms] by (simp add: io_inv_def mem_inv_ledger)
  then have "length (read_bufs w) \<le> 1024" "length (write_bufs w) \<le> 1024"
    using bp.level_cap [of "read_buffer_pool w"] bp.level_cap [of "write_buffer_pool w"]
    by (simp_all add: ledger_def)
  then show ?thesis
    using l by (auto simp: ledger_def owns_def lvl_def lvl_ok_def write_bufs_def)
qed

theorem buffers_accounted_witness:
  "sint (m_size (write_buffer_pool example_written)) = 1 \<and> 9 \<in> dom (mem example_written)"
  using buffers_accounted [OF example_reach(2) [of example_hasher]] by (simp add: example_written_def write_bufs_def)

text \<open>C22: The memory of the buffers is bounded: in every reachable state the blocks in use by reads, writes,
  hashes and the client have at most twice the size of a pool together, and a pool is 16 MiB, 1024
  blocks of 16 KiB. The header's comment says 256 MB.\<close>

theorem buffer_memory_bounded:
  assumes "io_reach api w"
  shows "(\<Sum>a \<in> set (read_bufs w @ write_bufs w). length (the (mem w a))) \<le> 2 * unat MAX_BUFFER_POOL_SIZE \<and>
         unat MAX_BUFFER_POOL_SIZE = 16 * 1024 * 1024 \<and>
         unat BUFFER_COUNT * nat DEFAULT_BLOCK_SIZE = unat MAX_BUFFER_POOL_SIZE"
proof -
  let ?A = "set (read_bufs w @ write_bufs w)"
  have l: "ledger (mem w) (read_buffer_pool w) (write_buffer_pool w) (read_bufs w) (write_bufs w)"
    using io_reach_inv [OF assms] by (simp add: io_inv_def mem_inv_ledger)
  then have "length (read_bufs w) \<le> 1024" "length (write_bufs w) \<le> 1024"
    using bp.level_cap [of "read_buffer_pool w"] bp.level_cap [of "write_buffer_pool w"]
    by (simp_all add: ledger_def)
  then have "card ?A \<le> 2048"
    using card_length [of "read_bufs w @ write_bufs w"] by simp
  moreover have "(\<Sum>a \<in> ?A. length (the (mem w a))) = (\<Sum>a \<in> ?A. 16384)"
    using ledger_live [OF l] by (intro sum.cong) force+
  ultimately show ?thesis
    by (simp add: pool_simps MAX_BUFFER_POOL_SIZE_def DEFAULT_BLOCK_SIZE_def)
qed

theorem buffer_memory_bounded_witness:
  "length (the (mem example_written 9)) \<le> 33554432 \<and> write_bufs example_written = [9]"
  using buffer_memory_bounded [OF example_reach(2) [of example_hasher]]
  by (simp add: example_written_def example_world_def raw_disk_io_new_def buf_defs MAX_BUFFER_POOL_SIZE_def)

text \<open>C23: The store buffer never dangles: an entry of a reachable state is the live 16 KiB buffer of a
  write job for exactly that block which has not erased the block yet.\<close>

theorem store_buffer_never_dangles:
  assumes "io_reach api w" "lookup_block (store_buf w) loc = Some b"
  shows "\<exists>j blk. j \<in> set (write_thread_pool w) \<and> wj_loc j = loc \<and> wj_buf j = b \<and>
           not_erased (wj_stage j) \<and> mem w b = Some blk \<and> length blk = 16384"
proof -
  have inv: "mem_inv w" "store_inv w"
    using io_reach_inv [OF assms(1)] by (simp_all add: io_inv_def)
  then have "(loc, b) \<in> set (pending (write_thread_pool w))"
    using assms(2) by (simp add: store_inv_def backed_def)
  then show ?thesis
    using store_live(2) [OF inv assms(2)] by (auto simp: pending_def)
qed

theorem store_buffer_never_dangles_witness:
  "lookup_block (store_buf example_written) (torrent_location 0 0 0) = Some 9 \<and>
   (\<exists>j \<in> set (write_thread_pool example_written). wj_buf j = 9 \<and> not_erased (wj_stage j))"
proof -
  have l: "lookup_block (store_buf example_written) (torrent_location 0 0 0) = Some 9"
    by (simp add: example_written_def)
  from store_buffer_never_dangles [OF example_reach(2) [of example_hasher] l] l show ?thesis by blast
qed

text \<open>C26: \<open>new_torrent\<close> gives a torrent a slot that no live torrent has, the oldest freed one if there
  is any and the next number otherwise; the slot then leads to the new storage, every other torrent
  keeps its own, and the descriptor stays open.\<close>

theorem new_torrent_fresh_slot:
  assumes "io_reach api w" "allowed (NewTorrent path fs opened) w"
  shows "\<exists>idx w'. new_torrent path fs opened w = Inr (idx, w') \<and> idx \<notin> live_idx w \<and>
           idx = (case free_slots w of [] \<Rightarrow> int (length (storages w)) | i # _ \<Rightarrow> i) \<and>
           deref_storage idx w' =
             Inr \<lparr>ps_fd = opened, ps_mapping_addr = None, ps_mapping_len = 0, ps_fs = fs\<rparr> \<and>
           (\<forall>i. i \<noteq> idx \<longrightarrow> deref_storage i w' = deref_storage i w) \<and>
           os_fds (sys w') opened = Some path"
proof -
  have sl: "slots_inv w"
    using io_reach_inv [OF assms(1)] by (simp add: io_inv_def)
  have none: "map_of (storages w) (next_slot w) = None"
    using next_slot_fresh [OF sl] by (simp add: map_of_eq_None_iff)
  have ok: "omap_ok (storages w)"
    using sl by (simp add: slots_inv_def)
  show ?thesis
    using new_torrent_eq [OF sl, of opened path fs] assms(2) next_slot_fresh [OF sl] none
    by (auto simp: deref_storage_def om.lookup_emplace [OF ok] next_slot_def)
qed

theorem new_torrent_fresh_slot_witness:
  "\<exists>w'. new_torrent ''/dev/sda1'' (ranges_storage [(2, 3), (8, 4)] 7) 6 example_world = Inr (1, w') \<and>
        deref_storage 0 w' = deref_storage 0 example_world"
proof -
  have "allowed (NewTorrent ''/dev/sda1'' (ranges_storage [(2, 3), (8, 4)] 7) 6) example_world"
    by (simp add: example_world_def raw_disk_io_new_def example_os_def ranges_fs_ok)
  from new_torrent_fresh_slot [OF example_reach(1) [of example_hasher] this] show ?thesis
    by (auto simp: example_world_def raw_disk_io_new_def)
qed

text \<open>C27: The contract's clause on removal is needed: \<open>remove_torrent\<close> does not wait for the torrent's
  jobs, and a read, write or hash job that starts after it dereferences a null storage.\<close>

theorem remove_torrent_breaks_pending_jobs:
  assumes "io_reach api w" "idx \<in> live_idx w"
  shows "(j \<in> set (read_thread_pool w) \<and> read_job_idx j = idx \<longrightarrow>
            run_read j (remove_torrent idx w) = Inl NullDeref) \<and>
         (i < length (write_thread_pool w) \<and> wj_storage (write_thread_pool w ! i) = idx \<and>
          wj_stage (write_thread_pool w ! i) = Storing \<longrightarrow>
            run_write i (remove_torrent idx w) = Inl NullDeref) \<and>
         (k < length (hash_thread_pool w) \<and> hj_storage (hash_thread_pool w ! k) = idx \<and>
          hj_i (hash_thread_pool w ! k) = 0 \<and> \<not> hj_done (hash_thread_pool w ! k) \<longrightarrow>
            run_hash api k (remove_torrent idx w) = Inl NullDeref)"
proof -
  have inv: "mem_inv w" "slots_inv w" "jobs_inv w"
    using io_reach_inv [OF assms(1)] by (simp_all add: io_inv_def)
  have "omap_ok (storages w)"
    using inv(2) by (simp add: slots_inv_def)
  then have null: "deref_storage idx (remove_torrent idx w) = Inl NullDeref"
    by (simp add: deref_storage_def remove_torrent_def omap_simps)
  have "\<exists>x. mem w (wj_buf (write_thread_pool w ! i)) = Some x" if "i < length (write_thread_pool w)"
  proof -
    have "wj_buf (write_thread_pool w ! i) \<in> set (write_bufs w)"
      using that by (simp add: write_bufs_def)
    then show ?thesis
      using inv(1) ledger_live unfolding mem_inv_ledger by blast
  qed
  then have "run_write i (remove_torrent idx w) = Inl NullDeref"
    if "i < length (write_thread_pool w)" "wj_storage (write_thread_pool w ! i) = idx"
      "wj_stage (write_thread_pool w ! i) = Storing"
    using that null by (auto simp: run_write_def) (auto simp: remove_torrent_def)
  moreover have "run_read j (remove_torrent idx w) = Inl NullDeref"
    if "j \<in> set (read_thread_pool w)" "read_job_idx j = idx"
    using that null inv(3) by (auto simp: run_read_def jobs_inv_def read_job_ok_def split: prod.splits)
  moreover have "run_hash api k (remove_torrent idx w) = Inl NullDeref"
    if "k < length (hash_thread_pool w)" "hj_storage (hash_thread_pool w ! k) = idx"
    using that null by (simp add: run_hash_def remove_torrent_def)
  ultimately show ?thesis by blast
qed

theorem remove_torrent_breaks_pending_jobs_witness:
  "run_write 0 (remove_torrent 0 example_written) = Inl NullDeref"
proof -
  have "0 \<in> live_idx example_written" "0 < length (write_thread_pool example_written)"
    "wj_storage (write_thread_pool example_written ! 0) = 0"
    "wj_stage (write_thread_pool example_written ! 0) = Storing"
    by (simp_all add: example_written_def example_world_def)
  then show ?thesis
    using remove_torrent_breaks_pending_jobs [OF example_reach(2) [of example_hasher], of 0 "ReadWhole 0 example_request 0 0" 0 0] by blast
qed

text \<open>The error paths of \<open>async_read\<close>: a request with no bytes or a negative start is answered at
  once with \<open>invalid_request\<close> and changes nothing else; a valid request is answered at once with
  \<open>no_memory\<close> exactly when the pool's 1024 blocks are out or \<open>malloc\<close> fails; in every other case it gets
  a buffer, and the answer is immediate or left to one job, which carries that buffer.\<close>

theorem async_read_outcomes:
  assumes "io_reach api w" "allowed (Read mres idx r h) w"
  shows "if pr_length r \<le> 0 \<or> pr_start r < 0
         then async_read mres idx r h w =
                Inr (invoke (ReadDone h None (io_error invalid_request file_read)) w)
         else if length (read_bufs w) = 1024 \<or> mres = None
         then \<exists>p. m_exceeded_max_size p \<and> m_size p = m_size (read_buffer_pool w) \<and>
                async_read mres idx r h w =
                  Inr (invoke (ReadDone h None (io_error no_memory alloc_cache_piece))
                         (w\<lparr>mem := mem w, read_buffer_pool := p\<rparr>))
         else \<exists>buf blk p. mem w buf = None \<and> length blk = 16384 \<and>
                m_size p = m_size (read_buffer_pool w) + 1 \<and>
                async_read mres idx r h w =
                  (let w1 = w\<lparr>read_buffer_pool := p, mem := (mem w)(buf \<mapsto> blk)\<rparr>
                   in Inr (case read_next idx r buf h w of
                             None \<Rightarrow> invoke (ReadDone h (Some buf) storage_error_init) w1
                           | Some j \<Rightarrow> post_read j w1))"
proof -
  have inv: "mem_inv w" "store_inv w"
    using io_reach_inv [OF assms(1)] by (simp_all add: io_inv_def)
  then have ok: "pool_ok (read_buffer_pool w)" "pool_level (read_buffer_pool w) = length (read_bufs w)"
    by (simp_all add: mem_inv_def)
  have full: "length (read_bufs w) = 1024 \<longleftrightarrow> BUFFER_COUNT \<le> int_to_ull (m_size (read_buffer_pool w))"
    using ok bp.level_cap [OF ok(1)] by (auto simp: pool_simps)
  show ?thesis
  proof (cases "pr_length r \<le> 0 \<or> pr_start r < 0")
    case True
    then show ?thesis
      using assms(2) by (auto simp: async_read_def DEFAULT_BLOCK_SIZE_def)
  next
    case False
    then have v: "read_valid r"
      using assms(2) by (simp add: read_valid_def)
    show ?thesis
    proof (cases "length (read_bufs w) = 1024 \<or> mres = None")
      case True
      then obtain p where "allocate_buffer mres (mem w) (read_buffer_pool w) = (None, mem w, p)"
        "m_exceeded_max_size p" "m_size p = m_size (read_buffer_pool w)"
        unfolding full by (auto simp: allocate_buffer_def allocate_buffer_impl_def Let_def)
      then show ?thesis
        using True False v by (auto simp: async_read_def read_valid_def DEFAULT_BLOCK_SIZE_def)
    next
      case free: False
      then obtain buf blk p where a: "allocate_buffer mres (mem w) (read_buffer_pool w) =
          (Some buf, (mem w)(buf \<mapsto> blk), p)" "m_size p = m_size (read_buffer_pool w) + 1"
        unfolding full by (auto simp: allocate_buffer_def allocate_buffer_impl_def Let_def)
      have "malloc_ok (mem w) mres"
        using assms(2) by simp
      from async_read_granted [OF inv this v a(1), of idx h] show ?thesis
        using False free a(2) by auto
    qed
  qed
qed

theorem async_read_outcomes_witness:
  "async_read None 0 example_request 8 example_written =
     Inr (invoke (ReadDone 8 None (io_error no_memory alloc_cache_piece))
            (example_written\<lparr>mem := mem example_written,
               read_buffer_pool := buffer_pool_init\<lparr>m_exceeded_max_size := True\<rparr>\<rparr>)) \<and>
   async_read None 0 (example_request\<lparr>pr_length := 0\<rparr>) 8 example_written =
     Inr (invoke (ReadDone 8 None (io_error invalid_request file_read)) example_written)"
proof
  have a: "allowed (Read None 0 example_request 8) example_written"
    "allowed (Read None 0 (example_request\<lparr>pr_length := 0\<rparr>) 8) example_written"
    by (simp_all add: example_written_def example_world_def malloc_ok_def example_request_def)
  show "async_read None 0 (example_request\<lparr>pr_length := 0\<rparr>) 8 example_written =
      Inr (invoke (ReadDone 8 None (io_error invalid_request file_read)) example_written)"
    using async_read_outcomes [OF example_reach(2) [of example_hasher] a(2)] by simp
  show "async_read None 0 example_request 8 example_written =
      Inr (invoke (ReadDone 8 None (io_error no_memory alloc_cache_piece))
            (example_written\<lparr>mem := mem example_written,
               read_buffer_pool := buffer_pool_init\<lparr>m_exceeded_max_size := True\<rparr>\<rparr>))"
    by (simp add: async_read_def allocate_buffer_def allocate_buffer_impl_def example_written_def
        example_world_def raw_disk_io_new_def buffer_pool_init_def pool_simps example_request_def
        DEFAULT_BLOCK_SIZE_def)
qed

end
