(* ===== verification/Disk_Progress.thy ===== *)
theory Disk_Progress
  imports Disk_Safety
begin

text \<open>
  Runs of the disk back end, the handlers they call, and their end: every handler that comes in with
  a call, but for the two calls that drop theirs, is either still in a queue or has been called exactly once, and from every reachable state
  the jobs and the io context finish after a bounded number of steps.
\<close>

section \<open>Runs\<close>

inductive io_run :: "'st hasher_api \<Rightarrow> world \<Rightarrow> label list \<Rightarrow> world \<Rightarrow> bool" for api where
  none: "io_run api w [] w"
| step: "allowed l w \<Longrightarrow> exec api l w = Inr w1 \<Longrightarrow> io_run api w1 ls w' \<Longrightarrow> io_run api w (l # ls) w'"

inductive_cases io_run_NilE: "io_run api w [] w'"
inductive_cases io_run_ConsE: "io_run api w (l # ls) w'"

lemma io_run_reach: "io_run api w ls w' \<Longrightarrow> io_reach api w \<Longrightarrow> io_reach api w'"
  by (induction rule: io_run.induct) (auto intro: io_reach.more io_step.step)

lemma io_run_append:
  "io_run api w ls w1 \<Longrightarrow> io_run api w1 ls' w' \<Longrightarrow> io_run api w (ls @ ls') w'"
  by (induction rule: io_run.induct) (auto intro: io_run.step)

section \<open>Handlers\<close>

text \<open>The handlers a completion calls, the handlers still to be called, and those called so far.\<close>

fun completion_tickets :: "completion \<Rightarrow> handler list" where
  "completion_tickets (ReadDone h b e) = [h]"
| "completion_tickets (WriteDone h e) = [h]"
| "completion_tickets (HashDone h p d e) = [h]"
| "completion_tickets (MoveDone h s p e) = [h]"
| "completion_tickets (CheckDone h s e) = [h]"
| "completion_tickets (StopDone ho) = (case ho of None \<Rightarrow> [] | Some h \<Rightarrow> [h])"
| "completion_tickets (RenameDone h n i e) = [h]"
| "completion_tickets (DeleteDone h e) = [h]"
| "completion_tickets (PriorityDone h e p) = [h]"
| "completion_tickets (ClearDone h p) = [h]"

fun ioc_tickets :: "ioc_job \<Rightarrow> handler list" where
  "ioc_tickets (Complete c) = completion_tickets c"
| "ioc_tickets (Watermark cbs) = []"

definition outstanding :: "world \<Rightarrow> handler multiset" where
  "outstanding w =
     mset (map read_job_handler (read_thread_pool w)) + mset (map wj_handler (write_thread_pool w)) +
     mset (map hj_handler (hash_thread_pool w)) + mset (concat (map ioc_tickets (ioc w)))"

definition called :: "world \<Rightarrow> handler multiset" where
  "called w = mset (concat (map completion_tickets (invoked w)))"

text \<open>
  The handlers that a call brings in, and those of them that the code drops: \<open>async_hash2\<close> and
  \<open>async_release_files\<close> return without keeping theirs.
\<close>

fun issued :: "label \<Rightarrow> handler list" where
  "issued (Read mres idx r h) = [h]"
| "issued (Write mres idx r data ob h) = [h]"
| "issued (Hash mres idx p h) = [h]"
| "issued (Hash2 idx p off h) = [h]"
| "issued (MoveStorage idx p h) = [h]"
| "issued (ReleaseFiles idx ho) = (case ho of None \<Rightarrow> [] | Some h \<Rightarrow> [h])"
| "issued (CheckFiles idx h) = [h]"
| "issued (StopTorrent idx ho) = (case ho of None \<Rightarrow> [] | Some h \<Rightarrow> [h])"
| "issued (RenameFile idx i name h) = [h]"
| "issued (DeleteFiles idx h) = [h]"
| "issued (SetFilePriority idx prio h) = [h]"
| "issued (ClearPiece idx p h) = [h]"
| "issued _ = []"

fun dropped :: "label \<Rightarrow> handler list" where
  "dropped (Hash2 idx p off h) = [h]"
| "dropped (ReleaseFiles idx ho) = (case ho of None \<Rightarrow> [] | Some h \<Rightarrow> [h])"
| "dropped _ = []"

lemma ioc_tickets_watermarks [simp]: "concat (map (ioc_tickets \<circ> Watermark) qs) = []"
  by (induction qs) auto

lemma tickets_post_ioc [step_simps]:
  "outstanding (post_ioc c w) = outstanding w + mset (completion_tickets c)"
  "called (post_ioc c w) = called w"
  by (simp_all add: outstanding_def called_def post_ioc_def)

lemma tickets_invoke [step_simps]:
  "outstanding (invoke c w) = outstanding w"
  "called (invoke c w) = called w + mset (completion_tickets c)"
  by (simp_all add: outstanding_def called_def invoke_def)

lemma tickets_post_read [step_simps]:
  "outstanding (post_read j w) = outstanding w + {#read_job_handler j#}"
  "called (post_read j w) = called w"
  by (simp_all add: outstanding_def called_def post_read_def)

lemma tickets_frame [step_simps]:
  "outstanding (w\<lparr>mem := m\<rparr>) = outstanding w" "called (w\<lparr>mem := m\<rparr>) = called w"
  "outstanding (w\<lparr>read_buffer_pool := p\<rparr>) = outstanding w" "called (w\<lparr>read_buffer_pool := p\<rparr>) = called w"
  "outstanding (w\<lparr>write_buffer_pool := p\<rparr>) = outstanding w" "called (w\<lparr>write_buffer_pool := p\<rparr>) = called w"
  "outstanding (w\<lparr>sys := s\<rparr>) = outstanding w" "called (w\<lparr>sys := s\<rparr>) = called w"
  "outstanding (w\<lparr>client_bufs := c\<rparr>) = outstanding w" "called (w\<lparr>client_bufs := c\<rparr>) = called w"
  "outstanding (post_watermarks qs w) = outstanding w" "called (post_watermarks qs w) = called w"
  by (simp_all add: outstanding_def called_def post_watermarks_def)

text \<open>A step moves handlers from outstanding to called and adds those of the call that are not dropped, and nothing else.\<close>

definition conserves :: "label \<Rightarrow> world \<Rightarrow> world \<Rightarrow> bool" where
  "conserves l w w' \<longleftrightarrow>
     called w' + outstanding w' + mset (dropped l) = called w + outstanding w + mset (issued l)"

lemma async_read_tickets:
  "async_read mres idx r h w = Inr w' \<Longrightarrow> conserves (Read mres idx r h) w w'"
  by (auto simp: async_read_def conserves_def Let_def bind_res_iffs step_simps
      split: prod.splits option.splits if_splits)

lemma async_write_tickets:
  "async_write mres idx r data ob h w = Inr (e, w') \<Longrightarrow> conserves (Write mres idx r data ob h) w w'"
  by (auto simp: async_write_def conserves_def bind_res_iffs step_simps
      split: prod.splits option.splits if_splits)
    (simp add: outstanding_def called_def)

lemma release_tickets:
  "release_read_buffer a w = Inr w' \<Longrightarrow> called w' = called w \<and> outstanding w' = outstanding w"
  "release_write_buffer a w = Inr w' \<Longrightarrow> called w' = called w \<and> outstanding w' = outstanding w"
  by (auto simp: release_read_buffer_def release_write_buffer_def bind_res_iffs step_simps)

lemma tickets_remove_job:
  "i < length (read_thread_pool w) \<Longrightarrow> outstanding w =
     outstanding (w\<lparr>read_thread_pool := remove_at i (read_thread_pool w)\<rparr>) + {#read_job_handler (read_thread_pool w ! i)#}"
  "i < length (write_thread_pool w) \<Longrightarrow> outstanding w =
     outstanding (w\<lparr>write_thread_pool := remove_at i (write_thread_pool w)\<rparr>) + {#wj_handler (write_thread_pool w ! i)#}"
  "i < length (hash_thread_pool w) \<Longrightarrow> outstanding w =
     outstanding (w\<lparr>hash_thread_pool := remove_at i (hash_thread_pool w)\<rparr>) + {#hj_handler (hash_thread_pool w ! i)#}"
  using nth_remove_at_eqs [of i "read_thread_pool w" read_job_handler]
    nth_remove_at_eqs [of i "write_thread_pool w" wj_handler]
    nth_remove_at_eqs [of i "hash_thread_pool w" hj_handler]
  by (simp_all add: outstanding_def)

lemma run_read_tickets:
  assumes "i < length (read_thread_pool w)"
    and "run_read (read_thread_pool w ! i) (w\<lparr>read_thread_pool := remove_at i (read_thread_pool w)\<rparr>) = Inr w'"
  shows "conserves (RunRead i) w w'"
  using assms(2) tickets_remove_job(1) [OF assms(1)]
  by (auto simp: run_read_def conserves_def bind_res_iffs step_simps split: prod.splits)
    (simp add: called_def)

lemma run_write_tickets:
  assumes "i < length (write_thread_pool w)" "run_write i w = Inr w'"
  shows "conserves (RunWrite i) w w'"
proof -
  let ?js = "\<lambda>st. (write_thread_pool w)[i := (write_thread_pool w ! i)\<lparr>wj_stage := st\<rparr>]"
  have "map wj_handler (?js st) = map wj_handler (write_thread_pool w)" for st
    using assms(1) by (simp add: map_update_same)
  then have "outstanding (w\<lparr>sys := s, write_thread_pool := ?js st\<rparr>) = outstanding w"
    "outstanding (w\<lparr>store_buf := sb, write_thread_pool := ?js st\<rparr>) = outstanding w" for s sb st
    by (simp_all add: outstanding_def del: mset_map)
  moreover have "called (w\<lparr>write_thread_pool := js\<rparr>) = called w"
    "called (w\<lparr>sys := s, write_thread_pool := js\<rparr>) = called w"
    "called (w\<lparr>store_buf := sb, write_thread_pool := js\<rparr>) = called w" for js s sb
    by (simp_all add: called_def)
  ultimately show ?thesis
    using assms(2) tickets_remove_job(2) [OF assms(1)]
    by (auto simp: run_write_def conserves_def bind_res_iffs step_simps Let_def
        split: write_stage.splits option.splits dest!: release_tickets)
qed

lemma hash_round_handler:
  "hash_round st j w = Inr (j', m) \<Longrightarrow> hj_handler j' = hj_handler j"
  by (auto simp: hash_round_def Let_def get_def bind_res_iffs split: option.splits if_splits)

lemma run_hash_tickets:
  assumes "i < length (hash_thread_pool w)" "run_hash api i w = Inr w'"
  shows "conserves (RunHash i) w w'"
proof -
  have "outstanding (w\<lparr>mem := m, hash_thread_pool := (hash_thread_pool w)[i := j']\<rparr>) = outstanding w"
    if "hash_round st (hash_thread_pool w ! i) w = Inr (j', m)" for st j' m
    using assms(1) map_update_same [of i "hash_thread_pool w" hj_handler j'] hash_round_handler [OF that]
    by (simp add: outstanding_def del: mset_map)
  moreover have "called (w\<lparr>hash_thread_pool := js\<rparr>) = called w"
    "called (w\<lparr>mem := m, hash_thread_pool := js\<rparr>) = called w" for js m
    by (simp_all add: called_def)
  ultimately show ?thesis
    using assms(2) tickets_remove_job(3) [OF assms(1)]
    by (auto simp: run_hash_def conserves_def bind_res_iffs step_simps Let_def
        split: if_splits dest!: release_tickets)
qed

lemma async_hash_tickets: "conserves (Hash mres idx p h) w (async_hash mres idx p h w)"
  by (auto simp: async_hash_def conserves_def step_simps split: prod.splits option.splits)
    (simp add: outstanding_def called_def)

lemma run_ioc_tickets: "run_ioc alive w = Inr w' \<Longrightarrow> conserves (RunIoc alive) w w'"
  by (auto simp: run_ioc_def conserves_def outstanding_def called_def invoke_def
      split: list.splits ioc_job.splits completion.splits option.splits)

lemma new_torrent_tickets:
  "new_torrent path fs opened w = Inr (idx, w') \<Longrightarrow> conserves (NewTorrent path fs opened) w w'"
  by (auto simp: new_torrent_def conserves_def outstanding_def called_def Let_def split: prod.splits sum.splits)

lemma exec_conserves:
  assumes "allowed l w" "exec api l w = Inr w'"
  shows "conserves l w w'"
proof (cases l)
  case (NewTorrent path fs opened)
  with assms show ?thesis
    using new_torrent_tickets [of path fs opened w] by (cases "new_torrent path fs opened w") auto
next
  case (RemoveTorrent idx)
  with assms show ?thesis by (auto simp: remove_torrent_def conserves_def outstanding_def called_def)
next
  case (Read mres idx r h)
  with assms show ?thesis
    using async_read_tickets [of mres idx r h w] by auto
next
  case (Write mres idx r data ob h)
  with assms show ?thesis
    using async_write_tickets [of mres idx r data ob h w]
    by auto
next
  case (Hash mres idx p h)
  with assms show ?thesis using async_hash_tickets by auto
next
  case (RunRead i)
  let ?r = "run_read (read_thread_pool w ! i) (w\<lparr>read_thread_pool := remove_at i (read_thread_pool w)\<rparr>)"
  from RunRead assms show ?thesis
    using run_read_tickets [of i w] by auto
next
  case (RunWrite i)
  with assms show ?thesis
    using run_write_tickets [of i w] by auto
next
  case (RunHash i)
  with assms show ?thesis
    using run_hash_tickets [of i w api] by auto
next
  case (RunIoc alive)
  with assms show ?thesis
    using run_ioc_tickets [of alive w] by auto
next
  case (ClientRelease buf)
  with assms show ?thesis
    by (auto simp: client_release_def conserves_def step_simps dest!: release_tickets)
qed (use assms in \<open>auto simp: conserves_def step_simps passive_defs\<close>)

lemma io_run_conserves:
  "io_run api w ls w' \<Longrightarrow>
   called w' + outstanding w' + mset (concat (map dropped ls)) = called w + outstanding w + mset (concat (map issued ls))"
proof (induction rule: io_run.induct)
  case (step l w w1 ls w')
  have "called w' + outstanding w' + mset (concat (map dropped (l # ls))) =
      called w1 + outstanding w1 + mset (concat (map issued ls)) + mset (dropped l)"
    using step.IH by (simp add: ac_simps)
  also have "\<dots> = called w + outstanding w + mset (concat (map issued (l # ls)))"
    using exec_conserves [OF step.hyps(1,2)] by (simp add: conserves_def ac_simps)
  finally show ?case .
qed simp

lemma dropped_none: "issued l = [] \<Longrightarrow> dropped l = []"
  by (cases l) auto

section \<open>Draining\<close>

text \<open>
  The steps that need no call from outside, and a bound on how many of them a state allows: a write
  job has three stages, a hash job one round for each block left, and finishing a job posts at most
  a completion and a watermark callback.
\<close>

fun internal :: "label \<Rightarrow> world \<Rightarrow> bool" where
  "internal (RunRead i) w \<longleftrightarrow> True"
| "internal (RunWrite i) w \<longleftrightarrow> True"
| "internal (RunHash i) w \<longleftrightarrow> True"
| "internal (RunIoc alive) w \<longleftrightarrow> ioc w \<noteq> []"
| "internal _ w \<longleftrightarrow> False"

fun job_label :: "label \<Rightarrow> bool" where
  "job_label (RunRead i) \<longleftrightarrow> True"
| "job_label (RunWrite i) \<longleftrightarrow> True"
| "job_label (RunHash i) \<longleftrightarrow> True"
| "job_label (RunIoc alive) \<longleftrightarrow> True"
| "job_label _ \<longleftrightarrow> False"

lemma internal_job_label: "internal l w \<Longrightarrow> job_label l \<and> issued l = []"
  by (cases l) auto

fun stage_work :: "write_stage \<Rightarrow> nat" where
  "stage_work Storing = 5"
| "stage_work (Erasing e) = 4"
| "stage_work (Posting e) = 3"

definition hash_work :: "(int \<times> partition_storage option) list \<Rightarrow> hash_job \<Rightarrow> nat" where
  "hash_work sts j =
     (case map_of sts (hj_storage j) of
        Some (Some st) \<Rightarrow>
          if hj_done j then 0 else nat (blocks_in_piece (piece_size st (hj_piece j)) - hj_i j)
      | _ \<Rightarrow> 0) + 3"

definition work :: "world \<Rightarrow> nat" where
  "work w = 2 * length (read_thread_pool w) + sum_list (map (stage_work \<circ> wj_stage) (write_thread_pool w)) +
            sum_list (map (hash_work (storages w)) (hash_thread_pool w)) + length (ioc w)"

definition quiescent :: "world \<Rightarrow> bool" where
  "quiescent w \<longleftrightarrow> read_thread_pool w = [] \<and> write_thread_pool w = [] \<and> hash_thread_pool w = [] \<and> ioc w = []"

lemma sum_list_remove_at:
  fixes f :: "'a \<Rightarrow> nat"
  shows "i < length xs \<Longrightarrow> sum_list (map f xs) = f (xs ! i) + sum_list (map f (remove_at i xs))"
  using arg_cong [OF nth_remove_at_eqs [of i xs f], of sum_mset]
  by (simp only: sum_mset_sum_list sum_mset.add_mset)

lemma sum_list_update_less:
  fixes f :: "'a \<Rightarrow> nat"
  assumes "i < length xs" "f y < f (xs ! i)"
  shows "sum_list (map f (xs[i := y])) < sum_list (map f xs)"
proof -
  have "sum_list (map f (xs[i := y])) = sum_list (map f xs) + f y - f (xs ! i)"
    using assms(1) by (simp add: map_update sum_list_update)
  moreover have "f (xs ! i) \<le> sum_list (map f xs)"
    using sum_list_remove_at [OF assms(1), of f] by simp
  ultimately show ?thesis
    using assms(2) by simp
qed

lemma length_remove_at: "i < length xs \<Longrightarrow> length xs = Suc (length (remove_at i xs))"
  by (simp add: remove_at_def)

lemma free_posts_at_most_one:
  "free_disk_buffer a h p = Inr (h', p', qs) \<Longrightarrow> length qs \<le> 1"
  by (auto simp: free_disk_buffer_def check_buffer_level_def split: option.splits if_splits)

lemma hash_round_progress:
  "hash_round st j w = Inr (j', m) \<Longrightarrow> \<not> hj_done j \<Longrightarrow>
   hj_storage j' = hj_storage j \<and> hj_piece j' = hj_piece j \<and> (hj_done j' \<or> hj_i j' = hj_i j + 1)"
  by (auto simp: hash_round_def Let_def get_def bind_res_iffs split: option.splits if_splits)

lemma run_read_work:
  assumes "i < length (read_thread_pool w)"
    and "run_read (read_thread_pool w ! i) (w\<lparr>read_thread_pool := remove_at i (read_thread_pool w)\<rparr>) = Inr w'"
  shows "work w' < work w"
  using assms(2) length_remove_at [OF assms(1)]
  by (auto simp: run_read_def bind_res_iffs post_ioc_def work_def split: prod.splits)

lemma release_work:
  "release_read_buffer a w = Inr w' \<Longrightarrow> work w' \<le> work w + 1"
  "release_write_buffer a w = Inr w' \<Longrightarrow> work w' \<le> work w + 1"
  by (auto simp: release_read_buffer_def release_write_buffer_def bind_res_iffs post_watermarks_def work_def
      dest!: free_posts_at_most_one)

lemma run_write_work:
  assumes "i < length (write_thread_pool w)" "run_write i w = Inr w'"
  shows "work w' < work w"
proof -
  define j where "j = write_thread_pool w ! i"
  have up: "sum_list (map (stage_work \<circ> wj_stage) ((write_thread_pool w)[i := j\<lparr>wj_stage := st\<rparr>])) <
      sum_list (map (stage_work \<circ> wj_stage) (write_thread_pool w))"
    if "stage_work st < stage_work (wj_stage j)" for st
    by (rule sum_list_update_less [OF assms(1)]) (use that in \<open>simp add: j_def\<close>)
  show ?thesis
  proof (cases "wj_stage j")
    case Storing
    then show ?thesis
      using assms(2) up by (auto simp: run_write_def j_def [symmetric] bind_res_iffs work_def split: option.splits)
  next
    case (Erasing e)
    then show ?thesis
      using assms(2) up by (auto simp: run_write_def j_def [symmetric] work_def)
  next
    case (Posting e)
    have "sum_list (map (stage_work \<circ> wj_stage) (write_thread_pool w)) =
        3 + sum_list (map (stage_work \<circ> wj_stage) (remove_at i (write_thread_pool w)))"
      using sum_list_remove_at [OF assms(1), of "stage_work \<circ> wj_stage"] Posting by (simp add: j_def)
    then show ?thesis
      using assms(2) Posting
      by (auto simp: run_write_def j_def [symmetric] post_ioc_def dest!: release_work) (simp add: work_def)
  qed
qed

lemma run_hash_work:
  assumes "i < length (hash_thread_pool w)" "run_hash api i w = Inr w'"
  shows "work w' < work w"
proof -
  define j where "j = hash_thread_pool w ! i"
  obtain st where st: "deref_storage (hj_storage j) w = Inr st"
    using assms(2) by (auto simp: run_hash_def j_def Let_def bind_res_iffs)
  then have m: "map_of (storages w) (hj_storage j) = Some (Some st)"
    by (auto simp: deref_storage_def split: option.splits)
  show ?thesis
  proof (cases "\<not> hj_done j \<and> hj_i j < blocks_in_piece (piece_size st (hj_piece j))")
    case True
    then obtain j' mm where r: "hash_round st j w = Inr (j', mm)"
      and w': "w' = w\<lparr>mem := mm, hash_thread_pool := (hash_thread_pool w)[i := j']\<rparr>"
      using assms(2) st by (auto simp: run_hash_def j_def [symmetric] bind_res_iffs)
    have "hash_work (storages w) j' < hash_work (storages w) j"
      using True hash_round_progress [OF r] m by (auto simp: hash_work_def)
    then have "sum_list (map (hash_work (storages w)) ((hash_thread_pool w)[i := j'])) <
        sum_list (map (hash_work (storages w)) (hash_thread_pool w))"
      by (intro sum_list_update_less [OF assms(1)]) (simp add: j_def)
    then show ?thesis
      by (simp add: w' work_def)
  next
    case False
    have "3 + sum_list (map (hash_work (storages w)) (remove_at i (hash_thread_pool w))) \<le>
        sum_list (map (hash_work (storages w)) (hash_thread_pool w))"
      using sum_list_remove_at [OF assms(1), of "hash_work (storages w)"] by (simp add: hash_work_def)
    moreover have "release_read_buffer (hj_buf j)
        (post_ioc (HashDone (hj_handler j) (hj_piece j) (job_digest api (hj_chunks j)) (hj_error j))
          (w\<lparr>hash_thread_pool := remove_at i (hash_thread_pool w)\<rparr>)) = Inr w'"
      using assms(2) st False by (auto simp: run_hash_def j_def [symmetric])
    ultimately show ?thesis
      using release_work(1) by (fastforce simp: post_ioc_def work_def)
  qed
qed

lemma run_ioc_work: "ioc w \<noteq> [] \<Longrightarrow> run_ioc alive w = Inr w' \<Longrightarrow> work w' < work w"
  by (auto simp: run_ioc_def invoke_def work_def neq_Nil_conv
      split: ioc_job.splits completion.splits option.splits)

lemma internal_work:
  assumes "allowed l w" "internal l w" "exec api l w = Inr w'"
  shows "work w' < work w"
proof (cases l)
  case (RunRead i)
  let ?r = "run_read (read_thread_pool w ! i) (w\<lparr>read_thread_pool := remove_at i (read_thread_pool w)\<rparr>)"
  from RunRead assms show ?thesis
    using run_read_work [of i w] by auto
next
  case (RunWrite i)
  with assms show ?thesis
    using run_write_work [of i w] by auto
next
  case (RunHash i)
  with assms show ?thesis
    using run_hash_work [of i w api] by auto
next
  case (RunIoc alive)
  with assms show ?thesis
    using run_ioc_work [of w alive] by auto
qed (use assms in simp_all)

lemma internal_exists:
  assumes "\<not> quiescent w"
  shows "\<exists>l. internal l w \<and> allowed l w \<and> (\<forall>alive. l = RunIoc alive \<longrightarrow> alive = (\<lambda>_. True))"
proof -
  consider "read_thread_pool w \<noteq> []" | "write_thread_pool w \<noteq> []" | "hash_thread_pool w \<noteq> []" | "ioc w \<noteq> []"
    using assms by (auto simp: quiescent_def)
  then show ?thesis
  proof cases
    case 1 then show ?thesis by (intro exI [of _ "RunRead 0"]) (simp add: pool_threads_def)
  next
    case 2 then show ?thesis by (intro exI [of _ "RunWrite 0"]) (simp add: pool_threads_def)
  next
    case 3 then show ?thesis by (intro exI [of _ "RunHash 0"]) (simp add: pool_threads_def)
  next
    case 4 then show ?thesis by (intro exI [of _ "RunIoc (\<lambda>_. True)"]) simp
  qed
qed

text \<open>
  As long as a goal is not reached an internal step of some kind \<open>P\<close> is possible: then steps of that
  kind alone reach the goal, within the bound.
\<close>

lemma drains_by:
  assumes "io_inv w" "\<And>w. \<not> goal w \<Longrightarrow> \<exists>l. internal l w \<and> allowed l w \<and> P l"
  shows "\<exists>ls w'. io_run api w ls w' \<and> length ls \<le> work w \<and>
           (\<forall>l \<in> set ls. P l \<and> job_label l \<and> issued l = []) \<and> goal w'"
  using assms(1)
proof (induction "work w" arbitrary: w rule: less_induct)
  case less
  show ?case
  proof (cases "goal w")
    case True
    then show ?thesis by (intro exI [of _ "[]"] exI [of _ w]) (simp add: io_run.none)
  next
    case False
    then obtain l where l: "internal l w" "allowed l w" "P l"
      using assms(2) by blast
    obtain w1 where w1: "exec api l w = Inr w1" "io_inv w1"
      using exec_inv [OF less.prems l(2)] by blast
    have lt: "work w1 < work w"
      by (rule internal_work [OF l(2,1) w1(1)])
    obtain ls w' where "io_run api w1 ls w'" "length ls \<le> work w1"
        "\<forall>l \<in> set ls. P l \<and> job_label l \<and> issued l = []" "goal w'"
      using less.hyps [OF lt w1(2)] by blast
    then show ?thesis
      using l w1 lt internal_job_label [OF l(1)]
      by (intro exI [of _ "l # ls"] exI [of _ w']) (simp add: io_run.step)
  qed
qed

lemma drains:
  assumes "io_inv w"
  shows "\<exists>ls w'. io_run api w ls w' \<and> length ls \<le> work w \<and> (\<forall>l \<in> set ls. job_label l) \<and>
           (\<forall>alive. RunIoc alive \<in> set ls \<longrightarrow> alive = (\<lambda>_. True)) \<and>
           concat (map issued ls) = [] \<and> quiescent w'"
proof -
  let ?P = "\<lambda>l. \<forall>alive. l = RunIoc alive \<longrightarrow> alive = (\<lambda>_. True)"
  have "\<exists>ls w'. io_run api w ls w' \<and> length ls \<le> work w \<and>
      (\<forall>l \<in> set ls. ?P l \<and> job_label l \<and> issued l = []) \<and> quiescent w'"
    by (rule drains_by [OF assms]) (rule internal_exists)
  then obtain ls w' where r: "io_run api w ls w'" "length ls \<le> work w" "quiescent w'"
      and l: "\<forall>l \<in> set ls. ?P l \<and> job_label l \<and> issued l = []"
    by blast
  have "concat (map issued ls) = []"
    using l by simp
  moreover have "\<forall>l \<in> set ls. job_label l" "\<forall>alive. RunIoc alive \<in> set ls \<longrightarrow> alive = (\<lambda>_. True)"
    using l by blast+
  ultimately show ?thesis
    using r by blast
qed

section \<open>Properties of the disk back end: progress\<close>

text \<open>C10: Handlers are neither lost nor called twice, except for those of two calls: after any run from the start,
  the handlers called so far, those in jobs and in the io context, and those given to \<open>async_hash2\<close> and
  \<open>async_release_files\<close> are exactly the handlers of all calls made, counted with multiplicity. The handlers of
  those two calls are dropped, although the interface says that a handler is called when the operation is done.\<close>

theorem handlers_conserved:
  assumes "io_run api (raw_disk_io_new m s) ls w"
  shows "called w + outstanding w + mset (concat (map dropped ls)) = mset (concat (map issued ls))"
  using io_run_conserves [OF assms] by (simp add: raw_disk_io_new_def called_def outstanding_def)

text \<open>The run of the witnesses: open, write, and a call of \<open>async_hash2\<close> whose handler is lost.\<close>

definition example_calls :: "label list" where
  "example_calls =
     [NewTorrent ''/dev/sda1'' (ranges_storage [(2, 3), (8, 4)] 7) 4,
      Write (Some (9, replicate 16384 0)) 0 example_request [1, 2, 3, 4, 5, 6, 7] None 5, Hash2 0 0 0 7]"

lemma example_run: "io_run api (raw_disk_io_new Map.empty example_os) example_calls example_written"
  unfolding example_calls_def
  by (rule io_run.step [OF example_open_step], rule io_run.step [OF example_write_step], rule io_run.step [OF _ _ io_run.none])
    (simp_all add: async_hash2_def)

theorem handlers_conserved_witness:
  "concat (map issued example_calls) = [5, 7] \<and> called example_written + outstanding example_written = {#5#}"
proof
  show "concat (map issued example_calls) = [5, 7]"
    by (simp add: example_calls_def)
  show "called example_written + outstanding example_written = {#5#}"
    using handlers_conserved [OF example_run [of example_hasher]] by (simp add: example_calls_def)
qed

text \<open>C9: Every handler that is kept is called: from the state after any run the jobs and the io context, on their own
  and in a bounded number of steps, reach a state with empty queues in which the handlers called are exactly those of
  the calls made, each as often as it was given, without those of \<open>async_hash2\<close> and \<open>async_release_files\<close>, which the
  code drops.\<close>

theorem kept_handlers_are_called:
  assumes "io_run api (raw_disk_io_new m s) ls w"
  shows "\<exists>ls' w'. io_run api w ls' w' \<and> length ls' \<le> work w \<and> (\<forall>l \<in> set ls'. job_label l) \<and>
           quiescent w' \<and> called w' + mset (concat (map dropped ls)) = mset (concat (map issued ls))"
proof -
  have "io_inv w"
    by (rule io_reach_inv [OF io_run_reach [OF assms io_reach.start]])
  then obtain ls' w' where r: "io_run api w ls' w'" "length ls' \<le> work w" "concat (map issued ls') = []"
      "quiescent w'" "\<forall>l \<in> set ls'. job_label l"
    using drains by blast
  have "concat (map dropped ls') = []"
    using r(3) dropped_none by auto
  moreover have "called (raw_disk_io_new m s) = {#}" "outstanding (raw_disk_io_new m s) = {#}"
    by (simp_all add: raw_disk_io_new_def called_def outstanding_def)
  ultimately have "called w' + outstanding w' + mset (concat (map dropped ls)) = mset (concat (map issued ls))"
    using io_run_conserves [OF io_run_append [OF assms r(1)], unfolded map_append concat_append] r(3) by (simp del: concat_eq_Nil_conv)
  moreover have "outstanding w' = {#}"
    using r(4) by (simp add: quiescent_def outstanding_def)
  ultimately show ?thesis
    using r by auto
qed

theorem kept_handlers_are_called_witness:
  "\<exists>ls' w'. io_run example_hasher example_written ls' w' \<and> length ls' \<le> 5 \<and> quiescent w' \<and> called w' = {#5#}"
proof -
  have "work example_written = 5"
    by (simp add: work_def example_written_def example_world_def raw_disk_io_new_def)
  then show ?thesis
    using kept_handlers_are_called [OF example_run [of example_hasher]] by (auto simp: example_calls_def)
qed

end
