(* ===== verification/Disk_View.thy ===== *)
theory Disk_View
  imports Disk_Progress
begin

text \<open>
  What a client sees of a torrent's content while writes are pending. The view puts the blocks of the
  store buffer over the partition; every step of the disk back end either leaves the view as it is or,
  for \<open>async_write\<close>, replaces the bytes of the block written. The locale \<open>write_behind\<close> states this as
  a contract, and the back end satisfies it.
\<close>

section \<open>The view\<close>

text \<open>
  One torrent under observation: its slot, its storage, the partition and where byte \<open>i\<close> of piece \<open>p\<close>
  lies on it.
\<close>

record site =
  si_idx :: int
  si_ps :: partition_storage
  si_path :: string
  si_addr :: "int \<Rightarrow> nat \<Rightarrow> nat"

definition cell_ok :: "site \<Rightarrow> int \<times> nat \<Rightarrow> bool" where
  "cell_ok si c \<longleftrightarrow> 0 \<le> fst c \<and> int (snd c) < piece_size (si_ps si) (fst c)"

definition disk :: "site \<Rightarrow> world \<Rightarrow> int \<times> nat \<Rightarrow> byte" where
  "disk si w c =
     (case os_devs (sys w) (si_path si) of
        None \<Rightarrow> 0
      | Some d \<Rightarrow> dev_data d ! si_addr si (fst c) (snd c))"

text \<open>The block of a byte.\<close>

definition cell_loc :: "site \<Rightarrow> int \<times> nat \<Rightarrow> torrent_location" where
  "cell_loc si c = torrent_location (si_idx si) (fst c) (int (snd c - snd c mod 16384))"

text \<open>What a client should see: the pending block if there is one, the partition otherwise.\<close>

definition view :: "site \<Rightarrow> world \<Rightarrow> int \<times> nat \<Rightarrow> byte" where
  "view si w c =
     (case lookup_block (store_buf w) (cell_loc si c) of
        None \<Rightarrow> disk si w c
      | Some b \<Rightarrow> the (mem w b) ! (snd c mod 16384))"

text \<open>Writes come in whole blocks: aligned, and as long as the block is.\<close>

definition whole_block :: "site \<Rightarrow> peer_request \<Rightarrow> bool" where
  "whole_block si r \<longleftrightarrow>
     0 \<le> pr_piece r \<and> 0 \<le> pr_start r \<and> pr_start r mod 16384 = 0 \<and> 0 < pr_length r \<and>
     pr_length r = min 16384 (piece_size (si_ps si) (pr_piece r) - pr_start r)"

text \<open>The cells of a request.\<close>

definition covers :: "peer_request \<Rightarrow> int \<times> nat \<Rightarrow> bool" where
  "covers r c \<longleftrightarrow> fst c = pr_piece r \<and> nat (pr_start r) \<le> snd c \<and> snd c < nat (pr_start r + pr_length r)"

text \<open>
  What is assumed of the client beyond \<open>allowed\<close>: no second torrent on the partition under
  observation, which stays open; writes in whole blocks, and none for a block that is still pending.
\<close>

fun orderly :: "site \<Rightarrow> label \<Rightarrow> world \<Rightarrow> bool" where
  "orderly si (NewTorrent path fs opened) w \<longleftrightarrow> path \<noteq> si_path si"
| "orderly si (RemoveTorrent idx) w \<longleftrightarrow> idx \<noteq> si_idx si"
| "orderly si (Write mres idx r data ob h) w \<longleftrightarrow>
     lookup_block (store_buf w) (torrent_location idx (pr_piece r) (pr_start r)) = None \<and>
     (idx = si_idx si \<longrightarrow> whole_block si r)"
| "orderly si _ w \<longleftrightarrow> True"

definition on_disk :: "site \<Rightarrow> world \<Rightarrow> write_job \<Rightarrow> bool" where
  "on_disk si w j \<longleftrightarrow>
     (\<forall>c. covers (wj_req j) c \<longrightarrow> disk si w c = the (mem w (wj_buf j)) ! (snd c mod 16384))"

text \<open>The storage is open on a healthy device that no other torrent uses.\<close>

definition site_inv :: "site \<Rightarrow> world \<Rightarrow> bool" where
  "site_inv si w \<longleftrightarrow>
     (si_idx si, Some (si_ps si)) \<in> set (storages w) \<and>
     (\<exists>d. storage_on (sys w) (si_ps si) (si_addr si) (si_path si) d) \<and>
     inj_on (\<lambda>c. si_addr si (fst c) (snd c)) {c. cell_ok si c} \<and>
     (\<forall>idx ps. (idx, Some ps) \<in> set (storages w) \<and> idx \<noteq> si_idx si \<longrightarrow>
        ps_fd ps \<noteq> ps_fd (si_ps si) \<and> os_fds (sys w) (ps_fd ps) \<noteq> Some (si_path si))"

definition writes_inv :: "site \<Rightarrow> world \<Rightarrow> bool" where
  "writes_inv si w \<longleftrightarrow>
     covering (\<lambda>loc. lookup_block (store_buf w) loc) (pending (write_thread_pool w)) \<and>
     (\<forall>j \<in> set (write_thread_pool w). wj_storage j = si_idx si \<longrightarrow>
        whole_block si (wj_req j) \<and> (\<forall>e. wj_stage j = Erasing e \<longrightarrow> on_disk si w j))"

definition view_inv :: "site \<Rightarrow> world \<Rightarrow> bool" where
  "view_inv si w \<longleftrightarrow> io_inv w \<and> site_inv si w \<and> writes_inv si w"

section \<open>Steps that leave the pending writes alone\<close>

definition quiet :: "world \<Rightarrow> world \<Rightarrow> bool" where
  "quiet w w' \<longleftrightarrow>
     store_buf w' = store_buf w \<and> sys w' = sys w \<and> storages w' = storages w \<and>
     write_thread_pool w' = write_thread_pool w \<and> (\<forall>b \<in> set (write_bufs w). mem w' b = mem w b)"

lemma disk_cong: "sys w' = sys w \<Longrightarrow> disk si w' = disk si w"
  by (simp add: disk_def fun_eq_iff)

lemma quiet_view:
  assumes "io_inv w" "quiet w w'"
  shows "view si w' = view si w"
proof
  fix c
  have inv: "mem_inv w" "store_inv w"
    using assms(1) by (simp_all add: io_inv_def)
  show "view si w' c = view si w c"
    using store_live(1) [OF inv] assms(2) disk_cong [of w' w si]
    by (auto simp: view_def quiet_def split: option.splits)
qed

lemma quiet_inv:
  assumes "view_inv si w" "quiet w w'" "io_inv w'"
  shows "view_inv si w'"
proof -
  have "on_disk si w' j = on_disk si w j" if "j \<in> set (write_thread_pool w)" for j
    using that assms(2) disk_cong [of w' w si] by (auto simp: on_disk_def quiet_def write_bufs_def)
  moreover have "site_inv si w' = site_inv si w"
    using assms(2) by (simp add: site_inv_def quiet_def)
  ultimately show ?thesis
    using assms by (auto simp: view_inv_def writes_inv_def quiet_def)
qed

lemma read_slices_frame:
  "read_slices ps s sls a pos ret err h = Inr (h', ret', err') \<Longrightarrow> x \<noteq> a \<Longrightarrow> h' x = h x"
proof (induction sls arbitrary: pos ret h)
  case (Cons sl sls)
  obtain res where "partition_offset (ps_fs ps) sl = Inr res"
    using Cons.prems(1) by (auto simp: bind_res_iffs)
  then show ?case
    using Cons by (cases res) (auto simp: bind_res_iffs heap_store_Inr_iff)
qed simp

lemma read_storage_frame:
  "read_storage ps s (Some (a, pos)) p off len err h = Inr (h', ret', err') \<Longrightarrow> x \<noteq> a \<Longrightarrow> h' x = h x"
  by (auto simp: read_storage_def intro: read_slices_frame)

lemma hash_round_frame:
  "hash_round st j w = Inr (j', m) \<Longrightarrow> x \<noteq> hj_buf j \<Longrightarrow> m x = mem w x"
  by (auto simp: hash_round_def Let_def get_def bind_res_iffs
      split: option.splits if_splits dest: read_storage_frame)

lemma write_bufs_live:
  assumes "mem_inv w"
  shows "b \<in> set (write_bufs w) \<Longrightarrow> mem w b \<noteq> None" and "b \<in> set (read_bufs w) \<Longrightarrow> b \<notin> set (write_bufs w)"
proof -
  have l: "ledger (mem w) (read_buffer_pool w) (write_buffer_pool w) (read_bufs w) (write_bufs w)"
    using assms by (simp add: mem_inv_ledger)
  show "mem w b \<noteq> None" if "b \<in> set (write_bufs w)"
    using ledger_live [OF l, of b] that by auto
  show "b \<notin> set (write_bufs w)" if "b \<in> set (read_bufs w)"
    using l that by (auto simp: ledger_def owns_def)
qed

lemma allocate_buffer_frame:
  assumes "mem_inv w" "malloc_ok (mem w) mres" "allocate_buffer mres (mem w) (read_buffer_pool w) = (res, m, p)"
    and "b \<in> set (write_bufs w)"
  shows "m b = mem w b"
proof (cases res)
  case None
  then show ?thesis
    using assms(1,3) ledger_none unfolding mem_inv_ledger by blast
next
  case (Some a)
  then have "mem w a = None \<and> (\<exists>blk. m = (mem w)(a \<mapsto> blk) \<and> length blk = 16384)"
    using assms(1-3) ledger_alloc unfolding mem_inv_ledger by blast
  then show ?thesis
    using write_bufs_live(1) [OF assms(1,4)] by auto
qed

lemma async_read_quiet:
  assumes "io_inv w" "allowed (Read mres idx r h) w" "async_read mres idx r h w = Inr w'"
  shows "quiet w w'"
proof (cases "read_valid r")
  case False
  then show ?thesis
    using assms(2,3) by (auto simp: async_read_def read_valid_def DEFAULT_BLOCK_SIZE_def quiet_def invoke_def)
next
  case True
  have inv: "mem_inv w" "store_inv w" and m: "malloc_ok (mem w) mres"
    using assms(1,2) by (simp_all add: io_inv_def)
  obtain res m p where a: "allocate_buffer mres (mem w) (read_buffer_pool w) = (res, m, p)"
    by (metis prod_cases3)
  show ?thesis
  proof (cases res)
    case None
    then show ?thesis
      using a assms(3) True allocate_buffer_frame [OF inv(1) m a]
      by (auto simp: async_read_def read_valid_def DEFAULT_BLOCK_SIZE_def quiet_def invoke_def)
  next
    case (Some buf)
    from async_read_granted [OF inv m True a [unfolded Some], of idx h] write_bufs_live(1) [OF inv(1), of buf]
    show ?thesis
      using assms(3) by (auto simp: quiet_def invoke_def post_read_def Let_def split: option.splits)
  qed
qed

lemma async_hash_quiet:
  assumes "io_inv w" "allowed (Hash mres idx p h) w"
  shows "quiet w (async_hash mres idx p h w)"
  using assms allocate_buffer_frame [of w mres]
  by (auto simp: io_inv_def async_hash_def quiet_def post_ioc_def split: prod.splits option.splits)

lemma release_read_quiet:
  assumes "release_read_buffer a w = Inr w'" "a \<notin> set (write_bufs w)"
  shows "quiet w w'"
  using assms
  by (auto simp: release_read_buffer_def bind_res_iffs post_watermarks_def quiet_def free_disk_buffer_def
      split: option.splits)

lemma run_read_quiet:
  assumes "io_inv w" "i < length (read_thread_pool w)"
    and "run_read (read_thread_pool w ! i) (w\<lparr>read_thread_pool := remove_at i (read_thread_pool w)\<rparr>) = Inr w'"
  shows "quiet w w'"
proof -
  have "read_job_buf (read_thread_pool w ! i) \<in> set (read_bufs w)"
    using assms(2) by (simp add: read_bufs_def)
  then have "b \<noteq> read_job_buf (read_thread_pool w ! i)" if "b \<in> set (write_bufs w)" for b
    using that assms(1) write_bufs_live(2) by (auto simp: io_inv_def)
  then show ?thesis
    using assms(3)
    by (auto simp: run_read_def bind_res_iffs quiet_def post_ioc_def split: prod.splits intro!: read_storage_frame)
qed

lemma run_hash_quiet:
  assumes "io_inv w" "i < length (hash_thread_pool w)" "run_hash api i w = Inr w'"
  shows "quiet w w'"
proof -
  let ?j = "hash_thread_pool w ! i"
  let ?w1 = "post_ioc (HashDone (hj_handler ?j) (hj_piece ?j) (job_digest api (hj_chunks ?j)) (hj_error ?j))
    (w\<lparr>hash_thread_pool := remove_at i (hash_thread_pool w)\<rparr>)"
  have "hj_buf ?j \<in> set (read_bufs w)"
    using assms(2) by (simp add: read_bufs_def)
  then have b: "hj_buf ?j \<notin> set (write_bufs w)"
    using assms(1) write_bufs_live(2) by (simp add: io_inv_def)
  have "quiet w w'" if "release_read_buffer (hj_buf ?j) ?w1 = Inr w'"
    using release_read_quiet [OF that] b by (simp add: quiet_def post_ioc_def write_bufs_def)
  moreover have "quiet w (w\<lparr>mem := m, hash_thread_pool := js\<rparr>)" if "hash_round st ?j w = Inr (j', m)" for st j' m js
  proof -
    have "m x = mem w x" if "x \<in> set (write_bufs w)" for x
      by (rule hash_round_frame [OF \<open>hash_round st ?j w = Inr (j', m)\<close>]) (use b that in auto)
    then show ?thesis by (simp add: quiet_def)
  qed
  ultimately show ?thesis
    using assms(3) by (auto simp: run_hash_def Let_def bind_res_iffs split: if_splits)
qed

lemma run_ioc_quiet: "run_ioc alive w = Inr w' \<Longrightarrow> quiet w w'"
  by (auto simp: run_ioc_def quiet_def invoke_def
      split: list.splits ioc_job.splits completion.splits option.splits)

lemma client_release_quiet:
  assumes "io_inv w" "buf \<in> set (client_bufs w)" "client_release buf w = Inr w'"
  shows "quiet w w'"
proof -
  have "buf \<notin> set (write_bufs w)"
    using assms(1,2) write_bufs_live(2) by (auto simp: io_inv_def read_bufs_def)
  then show ?thesis
    using release_read_quiet [of buf "w\<lparr>client_bufs := remove1 buf (client_bufs w)\<rparr>" w'] assms(3)
    by (simp add: client_release_def quiet_def write_bufs_def)
qed

section \<open>Blocks and cells\<close>

lemma block_of_iff:
  fixes i s :: nat
  assumes "s mod 16384 = 0"
  shows "i - i mod 16384 = s \<longleftrightarrow> s \<le> i \<and> i < s + 16384"
proof
  assume "i - i mod 16384 = s"
  moreover have "i mod 16384 < 16384" "i mod 16384 \<le> i" by auto
  ultimately show "s \<le> i \<and> i < s + 16384" by linarith
next
  assume a: "s \<le> i \<and> i < s + 16384"
  then have "i = s + (i - s)" "i - s < 16384" by auto
  then have "i mod 16384 = i - s"
    using assms by (metis add_0 mod_add_left_eq mod_less)
  with a show "i - i mod 16384 = s" by simp
qed

lemma whole_block_in_piece:
  "whole_block si r \<Longrightarrow> fs_ok (ps_fs (si_ps si)) \<Longrightarrow> in_piece (si_ps si) (pr_piece r) (pr_start r) (pr_length r)"
  by (auto simp: whole_block_def in_piece_def piece_size_def)

lemma whole_block_nat:
  assumes "whole_block si r"
  shows "nat (pr_start r) mod 16384 = 0" "int (nat (pr_start r)) = pr_start r"
proof -
  have s: "0 \<le> pr_start r" "pr_start r mod 16384 = 0"
    using assms by (simp_all add: whole_block_def)
  have "nat (pr_start r) mod 16384 = nat (pr_start r mod 16384)"
    using s(1) by (simp add: nat_mod_distrib)
  then show "nat (pr_start r) mod 16384 = 0"
    using s(2) by simp
  show "int (nat (pr_start r)) = pr_start r"
    using s(1) by simp
qed

lemma covers_cell_ok: "whole_block si r \<Longrightarrow> covers r c \<Longrightarrow> cell_ok si c"
  by (auto simp: whole_block_def covers_def cell_ok_def)

lemma covers_offset:
  assumes "whole_block si r" "covers r c"
  shows "snd c mod 16384 = snd c - nat (pr_start r)" "snd c - nat (pr_start r) < nat (pr_length r)"
proof -
  have "nat (pr_start r) \<le> snd c" "snd c < nat (pr_start r) + 16384" "snd c < nat (pr_start r) + nat (pr_length r)"
    using assms by (auto simp: covers_def whole_block_def)
  note b = this
  then have "snd c - snd c mod 16384 = nat (pr_start r)"
    using block_of_iff [OF whole_block_nat(1) [OF assms(1)], of "snd c"] by simp
  moreover have "snd c mod 16384 \<le> snd c" by simp
  ultimately show "snd c mod 16384 = snd c - nat (pr_start r)"
    by linarith
  show "snd c - nat (pr_start r) < nat (pr_length r)"
    using b by linarith
qed

lemma covers_iff_loc:
  assumes "whole_block si r" "cell_ok si c"
  shows "covers r c \<longleftrightarrow> cell_loc si c = torrent_location (si_idx si) (pr_piece r) (pr_start r)"
proof -
  have "cell_loc si c = torrent_location (si_idx si) (pr_piece r) (pr_start r) \<longleftrightarrow>
      fst c = pr_piece r \<and> snd c - snd c mod 16384 = nat (pr_start r)"
    using assms(1) by (auto simp: cell_loc_def whole_block_def)
  also have "\<dots> \<longleftrightarrow> fst c = pr_piece r \<and> nat (pr_start r) \<le> snd c \<and> snd c < nat (pr_start r) + 16384"
    using block_of_iff [OF whole_block_nat(1) [OF assms(1)], of "snd c"] by simp
  also have "\<dots> \<longleftrightarrow> covers r c"
    using assms by (auto simp: covers_def whole_block_def cell_ok_def)
  finally show ?thesis by simp
qed

text \<open>The cells of a site lie at different addresses of the partition.\<close>

lemma block_addrs_cells:
  assumes "inj_on (\<lambda>c. si_addr si (fst c) (snd c)) {c. cell_ok si c}" "whole_block si r"
  shows "inj_on (si_addr si (pr_piece r)) {nat (pr_start r)..<nat (pr_start r + pr_length r)}"
    and "cell_ok si c \<Longrightarrow> \<not> covers r c \<Longrightarrow>
      si_addr si (fst c) (snd c) \<notin> set (block_addrs (si_addr si) (pr_piece r) (pr_start r) (pr_length r))"
proof -
  let ?I = "{nat (pr_start r)..<nat (pr_start r + pr_length r)}"
  have cells: "cell_ok si (pr_piece r, i)" if "i \<in> ?I" for i
    using that by (intro covers_cell_ok [OF assms(2)]) (simp add: covers_def)
  show "inj_on (si_addr si (pr_piece r)) ?I"
  proof (rule inj_onI)
    fix x y assume "x \<in> ?I" "y \<in> ?I" "si_addr si (pr_piece r) x = si_addr si (pr_piece r) y"
    then show "x = y"
      using inj_onD [OF assms(1), of "(pr_piece r, x)" "(pr_piece r, y)"] cells by simp
  qed
  assume c: "cell_ok si c" "\<not> covers r c"
  have "c = (pr_piece r, i)" if "i \<in> ?I" "si_addr si (fst c) (snd c) = si_addr si (pr_piece r) i" for i
    using inj_onD [OF assms(1), of c "(pr_piece r, i)"] c(1) cells that by simp
  then show "si_addr si (fst c) (snd c) \<notin> set (block_addrs (si_addr si) (pr_piece r) (pr_start r) (pr_length r))"
    using c(2) by (auto simp: covers_def)
qed

text \<open>What a write of a whole block does to the partition.\<close>

lemma disk_write:
  assumes "storage_on (sys w) (si_ps si) (si_addr si) (si_path si) d" "fs_ok (ps_fs (si_ps si))"
    and "inj_on (\<lambda>c. si_addr si (fst c) (snd c)) {c. cell_ok si c}"
    and "whole_block si r" "nat (pr_length r) \<le> length bs" "cell_ok si c"
    and "os_devs (sys w') (si_path si) = Some (d\<lparr>dev_data :=
           poke (block_addrs (si_addr si) (pr_piece r) (pr_start r) (pr_length r)) (take (nat (pr_length r)) bs) (dev_data d)\<rparr>)"
  shows "disk si w' c = (if covers r c then bs ! (snd c mod 16384) else disk si w c)"
proof -
  let ?xs = "block_addrs (si_addr si) (pr_piece r) (pr_start r) (pr_length r)"
  note xs = storage_on_addrs [OF assms(1) whole_block_in_piece [OF assms(4,2)]]
  have st: "0 \<le> pr_start r" "0 < pr_length r" "0 \<le> pr_piece r"
    using assms(4) by (auto simp: whole_block_def)
  have d: "os_devs (sys w) (si_path si) = Some d"
    using assms(1) by (simp add: storage_on_def)
  show ?thesis
  proof (cases "covers r c")
    case True
    define k where "k = snd c - nat (pr_start r)"
    have k: "k < nat (pr_length r)" "snd c mod 16384 = k" "snd c = nat (pr_start r) + k" "fst c = pr_piece r"
      using covers_offset [OF assms(4) True] True by (auto simp: k_def covers_def)
    have x: "?xs ! k = si_addr si (fst c) (snd c)"
      using k st by (simp add: nat_add_distrib)
    have "poke ?xs (take (nat (pr_length r)) bs) (dev_data d) ! (?xs ! k) = take (nat (pr_length r)) bs ! k"
      using block_addrs_cells(1) [OF assms(3,4)] xs k st assms(5)
      by (intro nth_poke) (auto simp: distinct_map nat_add_distrib)
    then show ?thesis
      using True k x assms(7) by (simp add: disk_def)
  next
    case False
    then show ?thesis
      using block_addrs_cells(2) [OF assms(3,4,6) False] assms(7) d by (simp add: disk_def nth_poke_other)
  qed
qed

lemma pwrite_other:
  "os_fds s fd \<noteq> Some path \<Longrightarrow>
   os_devs (pwrite s fd bs off) path = os_devs s path \<and> os_fds (pwrite s fd bs off) = os_fds s"
  by (auto simp: pwrite_def split: option.splits)

lemma write_slices_other:
  "write_slices ps sls bs err s = Inr (s', err') \<Longrightarrow> os_fds s (ps_fd ps) \<noteq> Some path \<Longrightarrow>
   os_devs s' path = os_devs s path \<and> os_fds s' = os_fds s"
proof (induction sls arbitrary: bs s)
  case (Cons sl sls)
  obtain res where "partition_offset (ps_fs ps) sl = Inr res"
    using Cons.prems(1) by (auto simp: bind_res_iffs)
  then show ?case
    using Cons by (cases res) (auto simp: pwrite_other split: if_splits)
qed simp

lemma write_storage_other:
  "write_storage ps (Some bs) p off len err s = Inr (s', err') \<Longrightarrow> os_fds s (ps_fd ps) \<noteq> Some path \<Longrightarrow>
   os_devs s' path = os_devs s path \<and> os_fds s' = os_fds s"
  by (simp add: write_storage_def write_slices_other)

lemma omap_erase_set_eq: "omap_ok m \<Longrightarrow> set (omap_erase k m) = {e \<in> set m. fst e \<noteq> k}"
  by (induction k m rule: omap_erase.induct) auto

section \<open>Every step as an update of the view\<close>

text \<open>The abstract effect of a step: a write sets the bytes of its block, nothing else sets any.\<close>

fun effect :: "site \<Rightarrow> label \<Rightarrow> int \<times> nat \<Rightarrow> byte option" where
  "effect si (Write mres idx r data ob h) c =
     (if idx = si_idx si \<and> covers r c then Some (data ! (snd c - nat (pr_start r))) else None)"
| "effect si _ c = None"

definition refines :: "site \<Rightarrow> label \<Rightarrow> world \<Rightarrow> world \<Rightarrow> bool" where
  "refines si l w w' \<longleftrightarrow>
     view_inv si w' \<and>
     (\<forall>c. cell_ok si c \<longrightarrow>
        view si w' c = (case effect si l c of None \<Rightarrow> view si w c | Some b \<Rightarrow> b))"

lemma quiet_refines:
  assumes "view_inv si w" "quiet w w'" "io_inv w'" "\<And>c. effect si l c = None"
  shows "refines si l w w'"
  using assms quiet_inv [OF assms(1-3)] quiet_view [of w w' si] by (simp add: refines_def view_inv_def)

lemma view_cong:
  assumes "store_buf w' = store_buf w" "mem w' = mem w"
    and "os_devs (sys w') (si_path si) = os_devs (sys w) (si_path si)"
  shows "view si w' = view si w" "disk si w' = disk si w"
proof -
  show d: "disk si w' = disk si w"
    using assms(3) by (simp add: disk_def fun_eq_iff)
  show "view si w' = view si w"
    by (rule ext) (simp add: view_def d assms(1,2) split: option.split)
qed

lemma site_fs_ok: "io_inv w \<Longrightarrow> site_inv si w \<Longrightarrow> fs_ok (ps_fs (si_ps si))"
  by (force simp: io_inv_def slots_inv_def site_inv_def)

lemma site_deref: "io_inv w \<Longrightarrow> site_inv si w \<Longrightarrow> deref_storage (si_idx si) w = Inr (si_ps si)"
  using map_of_is_SomeI [OF omap_ok_distinct, of "storages w" "si_idx si" "Some (si_ps si)"]
  by (simp add: io_inv_def slots_inv_def site_inv_def deref_storage_def)

lemma new_torrent_refines:
  assumes "view_inv si w" "allowed (NewTorrent path fs opened) w" "path \<noteq> si_path si"
    and "new_torrent path fs opened w = Inr (idx, w')"
  shows "refines si (NewTorrent path fs opened) w w'"
proof -
  have sl: "slots_inv w" and site: "site_inv si w"
    using assms(1) by (simp_all add: view_inv_def io_inv_def)
  have w': "w' = w\<lparr>free_slots := tl (free_slots w),
      sys := (sys w)\<lparr>os_fds := (os_fds (sys w))(opened \<mapsto> path)\<rparr>,
      storages := omap_emplace (next_slot w)
        (Some \<lparr>ps_fd = opened, ps_mapping_addr = None, ps_mapping_len = 0, ps_fs = fs\<rparr>) (storages w)\<rparr>"
    using new_torrent_eq [OF sl, of opened path fs] assms(2,4) by simp
  have set: "set (storages w') = insert (next_slot w,
      Some \<lparr>ps_fd = opened, ps_mapping_addr = None, ps_mapping_len = 0, ps_fs = fs\<rparr>) (set (storages w))"
    using sl next_slot_fresh [OF sl] by (simp add: w' slots_inv_def omap_emplace_set)
  have "opened \<noteq> ps_fd (si_ps si)"
    using assms(2) site by (auto simp: site_inv_def storage_on_def)
  then have "site_inv si w'"
    using site assms(3) unfolding site_inv_def set by (auto simp: w' storage_on_def)
  moreover have v: "view si w' = view si w" "disk si w' = disk si w"
    using view_cong [of w' w si] by (simp_all add: w')
  moreover have "writes_inv si w'"
    using assms(1) v(2) by (simp add: view_inv_def writes_inv_def on_disk_def) (simp add: w')
  moreover have "io_inv w'"
    using new_torrent_inv [OF _ assms(2)] assms(1,4) by (auto simp: view_inv_def)
  ultimately show ?thesis
    by (simp add: refines_def view_inv_def)
qed

lemma remove_torrent_refines:
  assumes "view_inv si w" "allowed (RemoveTorrent idx) w" "idx \<noteq> si_idx si"
  shows "refines si (RemoveTorrent idx) w (remove_torrent idx w)"
proof -
  let ?w = "remove_torrent idx w"
  have ok: "omap_ok (storages w)" and site: "site_inv si w"
    using assms(1) by (simp_all add: view_inv_def io_inv_def slots_inv_def)
  have set: "set (storages ?w) = {e \<in> set (storages w). fst e \<noteq> idx}"
    by (simp add: remove_torrent_def omap_erase_set_eq [OF ok])
  obtain f where f: "sys ?w = (sys w)\<lparr>os_fds := f\<rparr>" "f (ps_fd (si_ps si)) = os_fds (sys w) (ps_fd (si_ps si))"
      "\<And>x. f x = os_fds (sys w) x \<or> f x = None"
  proof (cases "map_of (storages w) idx")
    case None
    then show ?thesis by (intro that [of "os_fds (sys w)"]) (simp_all add: remove_torrent_def)
  next
    case (Some st)
    show ?thesis
    proof (cases st)
      case None
      with Some show ?thesis by (intro that [of "os_fds (sys w)"]) (simp_all add: remove_torrent_def)
    next
      case (Some ps)
      have "(idx, Some ps) \<in> set (storages w)"
        using Some \<open>map_of (storages w) idx = Some st\<close> by (simp add: map_of_SomeD)
      then have "ps_fd ps \<noteq> ps_fd (si_ps si)"
        using site assms(3) by (auto simp: site_inv_def)
      with Some \<open>map_of (storages w) idx = Some st\<close> show ?thesis
        by (intro that [of "(os_fds (sys w))(ps_fd ps := None)"])
          (simp_all add: remove_torrent_def partition_storage_delete_def)
    qed
  qed
  have "site_inv si ?w"
    using site assms(3) f(2,3) unfolding site_inv_def set f(1)
    by (auto simp: storage_on_def) (metis option.distinct(1))
  moreover have v: "view si ?w = view si w" "disk si ?w = disk si w"
    using view_cong [of ?w w si] f(1) by (simp_all add: remove_torrent_def)
  moreover have "writes_inv si ?w"
    using assms(1) v(2) by (simp add: view_inv_def writes_inv_def on_disk_def) (simp add: remove_torrent_def)
  moreover have "io_inv ?w"
    using remove_torrent_inv [OF _ assms(2)] assms(1) by (simp add: view_inv_def)
  ultimately show ?thesis
    by (simp add: refines_def view_inv_def)
qed

lemma covering_job:
  assumes "writes_inv si w" "j \<in> set (write_thread_pool w)" "not_erased (wj_stage j)"
  shows "lookup_block (store_buf w) (wj_loc j) = Some (wj_buf j)"
  using assms by (auto simp: writes_inv_def covering_def pending_def)

lemma covering_mset: "covering f ws \<Longrightarrow> mset ws = mset ws' \<Longrightarrow> covering f ws'"
proof -
  assume a: "covering f ws" "mset ws = mset ws'"
  then have "mset (map fst ws) = mset (map fst ws')" "set ws = set ws'"
    by (simp, metis set_mset_mset)
  then show ?thesis
    using a(1) mset_eq_imp_distinct_iff unfolding covering_def by metis
qed

lemma site_job_loc:
  "wj_storage j = si_idx si \<Longrightarrow> wj_loc j = torrent_location (si_idx si) (pr_piece (wj_req j)) (pr_start (wj_req j))"
  by (simp add: wj_loc_def)

text \<open>What a write to any storage does to the partition under observation.\<close>

lemma write_storage_disk:
  assumes "io_inv w" "site_inv si w" "deref_storage idx w = Inr ps"
    and "idx = si_idx si \<longrightarrow> whole_block si r" "nat (pr_length r) \<le> length bs"
    and "write_storage ps (Some bs) (pr_piece r) (pr_start r) (pr_length r) err (sys w) = Inr (s, err')"
    and "sys w' = s"
  shows "os_fds s = os_fds (sys w)" "\<exists>d. storage_on s (si_ps si) (si_addr si) (si_path si) d"
    and "cell_ok si c \<Longrightarrow>
      disk si w' c = (if idx = si_idx si \<and> covers r c then bs ! (snd c mod 16384) else disk si w c)"
proof -
  have "os_fds s = os_fds (sys w) \<and> (\<exists>d. storage_on s (si_ps si) (si_addr si) (si_path si) d) \<and>
    (cell_ok si c \<longrightarrow>
      disk si w' c = (if idx = si_idx si \<and> covers r c then bs ! (snd c mod 16384) else disk si w c))"
  proof (cases "idx = si_idx si")
    case True
    obtain d where d: "storage_on (sys w) (si_ps si) (si_addr si) (si_path si) d"
      using assms(2) by (auto simp: site_inv_def)
    note wb = mp [OF assms(4) True] and fs = site_fs_ok [OF assms(1,2)]
    define bs' where "bs' = poke (block_addrs (si_addr si) (pr_piece r) (pr_start r) (pr_length r))
      (take (nat (pr_length r)) bs) (dev_data d)"
    have s: "s = (sys w)\<lparr>os_devs := (os_devs (sys w))(si_path si \<mapsto> d\<lparr>dev_data := bs'\<rparr>)\<rparr>"
      using write_storage_on [OF d whole_block_in_piece [OF wb fs] assms(5), of err] assms(3,6) True
        site_deref [OF assms(1,2)] by (simp add: bs'_def)
    have "storage_on s (si_ps si) (si_addr si) (si_path si) (d\<lparr>dev_data := bs'\<rparr>)"
      using storage_on_update [OF d, of bs'] by (simp add: s bs'_def)
    moreover have "disk si w' c = (if covers r c then bs ! (snd c mod 16384) else disk si w c)"
      if "cell_ok si c" for c
      by (rule disk_write [OF d fs _ wb assms(5) that]) (use assms(2,7) in \<open>simp_all add: site_inv_def s bs'_def\<close>)
    ultimately show ?thesis
      using True by (auto simp: s)
  next
    case False
    have "(idx, Some ps) \<in> set (storages w)"
      using assms(3) by (auto simp: deref_storage_def split: option.splits dest!: map_of_SomeD)
    then have "os_fds (sys w) (ps_fd ps) \<noteq> Some (si_path si)"
      using assms(2) False by (simp add: site_inv_def)
    then have o: "os_devs s (si_path si) = os_devs (sys w) (si_path si)" "os_fds s = os_fds (sys w)"
      using write_storage_other [OF assms(6)] by simp_all
    moreover have "disk si w' = disk si w"
      using o assms(7) by (simp add: disk_def fun_eq_iff)
    ultimately show ?thesis
      using assms(2) False by (auto simp: site_inv_def storage_on_def)
  qed
  then show "os_fds s = os_fds (sys w)" "\<exists>d. storage_on s (si_ps si) (si_addr si) (si_path si) d"
    "cell_ok si c \<Longrightarrow>
      disk si w' c = (if idx = si_idx si \<and> covers r c then bs ! (snd c mod 16384) else disk si w c)"
    by blast+
qed

lemma nth_blit_take: "k < n \<Longrightarrow> n \<le> length bs \<Longrightarrow> n \<le> length blk \<Longrightarrow> blit 0 (take n bs) blk ! k = bs ! k"
  by (simp add: nth_blit)

lemma on_diskD:
  "on_disk si w j \<Longrightarrow> covers (wj_req j) c \<Longrightarrow> disk si w c = the (mem w (wj_buf j)) ! (snd c mod 16384)"
  unfolding on_disk_def by blast

text \<open>The step of a write job that stores its block, in four parts: what it does, and what that keeps.\<close>

lemma run_write_storing:
  assumes "io_inv w" "i < length (write_thread_pool w)" "wj_stage (write_thread_pool w ! i) = Storing" "run_write i w = Inr w'"
    and "j = write_thread_pool w ! i"
  obtains blk ps s err where "mem w (wj_buf j) = Some blk" "nat (pr_length (wj_req j)) \<le> length blk"
    "deref_storage (wj_storage j) w = Inr ps"
    "write_storage ps (Some blk) (pr_piece (wj_req j)) (pr_start (wj_req j)) (pr_length (wj_req j))
        storage_error_init (sys w) = Inr (s, err)"
    "w' = w\<lparr>sys := s, write_thread_pool := (write_thread_pool w)[i := j\<lparr>wj_stage := Erasing err\<rparr>]\<rparr>"
proof -
  have j: "j \<in> set (write_thread_pool w)" "write_job_ok j"
    using assms by (simp_all add: io_inv_def jobs_inv_def)
  then have "wj_buf j \<in> set (write_bufs w)"
    by (simp add: write_bufs_def)
  then obtain blk where blk: "mem w (wj_buf j) = Some blk" "length blk = 16384"
    using assms(1) ledger_live unfolding io_inv_def mem_inv_ledger by fastforce
  moreover have "nat (pr_length (wj_req j)) \<le> length blk"
    using j(2) blk(2) by (simp add: write_job_ok_def nat_le_iff)
  ultimately show thesis
    using assms(3,4) that by (auto simp: run_write_def assms(5) [symmetric] bind_res_iffs)
qed

lemma covers_same_buffer:
  assumes "writes_inv si w" "j \<in> set (write_thread_pool w)" "j' \<in> set (write_thread_pool w)"
    and "not_erased (wj_stage j)" "not_erased (wj_stage j')" "wj_storage j = si_idx si" "wj_storage j' = si_idx si"
    and "covers (wj_req j) c" "covers (wj_req j') c"
  shows "wj_buf j' = wj_buf j"
proof -
  have wb: "whole_block si (wj_req j)" "whole_block si (wj_req j')"
    using assms(1-3,6,7) by (auto simp: writes_inv_def)
  note c = covers_cell_ok [OF wb(1) assms(8)]
  have "wj_loc j' = wj_loc j"
    using covers_iff_loc [OF wb(1) c] covers_iff_loc [OF wb(2) c] assms(6-9) by (simp add: site_job_loc)
  then show ?thesis
    using covering_job [OF assms(1,2,4)] covering_job [OF assms(1,3,5)] by simp
qed

lemma writes_inv_store:
  assumes "writes_inv si w" "i < length (write_thread_pool w)" "j = write_thread_pool w ! i" "wj_stage j = Storing"
    and "mem w (wj_buf j) = Some blk"
    and w': "w' = w\<lparr>sys := s, write_thread_pool := (write_thread_pool w)[i := j\<lparr>wj_stage := Erasing err\<rparr>]\<rparr>"
    and disk': "\<And>c. cell_ok si c \<Longrightarrow> disk si w' c =
      (if wj_storage j = si_idx si \<and> covers (wj_req j) c then blk ! (snd c mod 16384) else disk si w c)"
  shows "writes_inv si w'"
proof -
  have j: "j \<in> set (write_thread_pool w)"
    using assms(2,3) by simp
  have jobs: "set (write_thread_pool w') \<subseteq> insert (j\<lparr>wj_stage := Erasing err\<rparr>) (set (write_thread_pool w))"
    by (simp add: w' set_update_subset_insert)
  have wb: "whole_block si (wj_req j')" if "j' \<in> set (write_thread_pool w')" "wj_storage j' = si_idx si" for j'
    using that jobs assms(1) j by (auto simp: writes_inv_def)
  have "on_disk si w' j'" if a: "j' \<in> set (write_thread_pool w')" "wj_storage j' = si_idx si" "wj_stage j' = Erasing e" for j' e
    unfolding on_disk_def
  proof (intro allI impI)
    fix c assume c: "covers (wj_req j') c"
    note dc = disk' [OF covers_cell_ok [OF wb [OF a(1,2)] c]]
    consider "j' = j\<lparr>wj_stage := Erasing err\<rparr>" | "j' \<in> set (write_thread_pool w)"
      using jobs a(1) by blast
    then show "disk si w' c = the (mem w' (wj_buf j')) ! (snd c mod 16384)"
    proof cases
      case 1
      with a(2) c dc assms(5) show ?thesis by (simp add: w')
    next
      case 2
      then have "on_disk si w j'"
        using assms(1) a(2,3) by (auto simp: writes_inv_def)
      from on_diskD [OF this c] show ?thesis
        using dc covers_same_buffer [OF assms(1) j 2 _ _ _ a(2) _ c] a(3) assms(4,5) by (auto simp: w')
    qed
  qed
  moreover have "pending (write_thread_pool w') = pending (write_thread_pool w)"
    using assms(2-4) by (simp add: w') (intro pending_update_same, simp_all add: wj_loc_def)
  ultimately show ?thesis
    using wb assms(1) by (auto simp: writes_inv_def w')
qed

lemma view_store:
  assumes "writes_inv si w" "j \<in> set (write_thread_pool w)" "wj_stage j = Storing"
    and "store_buf w' = store_buf w" "mem w' = mem w" "cell_ok si c"
    and disk': "disk si w' c =
      (if wj_storage j = si_idx si \<and> covers (wj_req j) c then blk ! (snd c mod 16384) else disk si w c)"
  shows "view si w' c = view si w c"
proof (cases "lookup_block (store_buf w) (cell_loc si c)")
  case None
  have "\<not> (wj_storage j = si_idx si \<and> covers (wj_req j) c)"
  proof
    assume a: "wj_storage j = si_idx si \<and> covers (wj_req j) c"
    then have "whole_block si (wj_req j)"
      using assms(1,2) by (simp add: writes_inv_def)
    then have "cell_loc si c = wj_loc j"
      using covers_iff_loc [OF _ assms(6)] a by (simp add: site_job_loc)
    with None covering_job [OF assms(1,2)] assms(3) show False by simp
  qed
  then show ?thesis
    using disk' None assms(4) by (auto simp: view_def)
qed (simp add: view_def assms(4,5))

lemma run_write_store_refines:
  assumes "view_inv si w" "i < length (write_thread_pool w)" "wj_stage (write_thread_pool w ! i) = Storing"
    and "run_write i w = Inr w'"
  shows "refines si (RunWrite i) w w'"
proof -
  define j where "j = write_thread_pool w ! i"
  have j: "j \<in> set (write_thread_pool w)" "wj_stage j = Storing"
    using assms(2,3) by (simp_all add: j_def)
  have inv: "io_inv w" "site_inv si w" "writes_inv si w"
    using assms(1) by (simp_all add: view_inv_def)
  have io': "io_inv w'"
    using run_write_inv [OF inv(1) assms(2)] assms(4) by auto
  obtain blk ps s err where blk: "mem w (wj_buf j) = Some blk" and l: "nat (pr_length (wj_req j)) \<le> length blk"
    and ps: "deref_storage (wj_storage j) w = Inr ps"
    and ws: "write_storage ps (Some blk) (pr_piece (wj_req j)) (pr_start (wj_req j)) (pr_length (wj_req j))
        storage_error_init (sys w) = Inr (s, err)"
    and w': "w' = w\<lparr>sys := s, write_thread_pool := (write_thread_pool w)[i := j\<lparr>wj_stage := Erasing err\<rparr>]\<rparr>"
    using run_write_storing [OF inv(1) assms(2-4) j_def] by blast
  have "wj_storage j = si_idx si \<longrightarrow> whole_block si (wj_req j)" "sys w' = s"
    using inv(3) j(1) by (simp_all add: writes_inv_def w')
  note dev = write_storage_disk [OF inv(1,2) ps this(1) l ws this(2)]
  have "view si w' c = view si w c" if "cell_ok si c" for c
    by (rule view_store [OF inv(3) j _ _ that dev(3) [OF that]]) (simp_all add: w')
  moreover have "writes_inv si w'"
    by (rule writes_inv_store [OF inv(3) assms(2) j_def j(2) blk w' dev(3)])
  moreover have "site_inv si w'"
    using inv(2) dev(1,2) by (simp add: site_inv_def w')
  ultimately show ?thesis
    using io' by (simp add: refines_def view_inv_def)
qed

text \<open>The step that erases the block: by then the block is on the partition.\<close>

lemma writes_inv_erase:
  assumes "store_buffer_ok (store_buf w)" "writes_inv si w" "i < length (write_thread_pool w)" "j = write_thread_pool w ! i"
    and "wj_stage j = Erasing e"
    and w': "w' = w\<lparr>store_buf := erase_block (wj_loc j) (store_buf w),
      write_thread_pool := (write_thread_pool w)[i := j\<lparr>wj_stage := Posting e\<rparr>]\<rparr>"
  shows "writes_inv si w'"
proof -
  have j: "j \<in> set (write_thread_pool w)"
    using assms(3,4) by simp
  have jobs: "set (write_thread_pool w') \<subseteq> insert (j\<lparr>wj_stage := Posting e\<rparr>) (set (write_thread_pool w))"
    by (simp add: w' set_update_subset_insert)
  have "mset (pending (write_thread_pool w)) =
      add_mset (wj_loc j, wj_buf j) (mset (pending (write_thread_pool w')))"
    using pending_update_erased [OF assms(3), of "j\<lparr>wj_stage := Posting e\<rparr>"] assms(4,5) by (simp add: w')
  then have p: "(wj_loc j, wj_buf j) \<in> set (pending (write_thread_pool w))"
    "mset (remove1 (wj_loc j, wj_buf j) (pending (write_thread_pool w))) = mset (pending (write_thread_pool w'))"
    by (metis set_mset_mset union_single_eq_member, simp)
  have "covering (\<lambda>loc. lookup_block (store_buf w') loc) (pending (write_thread_pool w'))"
    using covering_mset [OF sb.covering_erase [OF assms(1) _ p(1)] p(2)] assms(2)
    by (simp add: writes_inv_def) (simp add: w')
  moreover have "on_disk si w' = on_disk si w"
    using disk_cong [of w' w si] by (simp add: on_disk_def fun_eq_iff w')
  ultimately show ?thesis
    using assms(2) jobs j unfolding writes_inv_def by auto
qed

lemma run_write_erase_refines:
  assumes "view_inv si w" "i < length (write_thread_pool w)" "wj_stage (write_thread_pool w ! i) = Erasing e"
    and "run_write i w = Inr w'"
  shows "refines si (RunWrite i) w w'"
proof -
  define j where "j = write_thread_pool w ! i"
  have inv: "io_inv w" "site_inv si w" "writes_inv si w"
    using assms(1) by (simp_all add: view_inv_def)
  have io': "io_inv w'"
    using run_write_inv [OF inv(1) assms(2)] assms(4) by auto
  have j: "j \<in> set (write_thread_pool w)" "wj_stage j = Erasing e"
    using assms(2,3) by (simp_all add: j_def)
  have w': "w' = w\<lparr>store_buf := erase_block (wj_loc j) (store_buf w),
      write_thread_pool := (write_thread_pool w)[i := j\<lparr>wj_stage := Posting e\<rparr>]\<rparr>"
    using assms(4) j(2) by (simp add: run_write_def j_def [symmetric])
  have ok: "store_buffer_ok (store_buf w)"
    using inv(1) by (simp add: io_inv_def store_inv_def)
  have look: "lookup_block (store_buf w) (wj_loc j) = Some (wj_buf j)"
    using covering_job [OF inv(3) j(1)] j(2) by simp
  have same: "disk si w' = disk si w" "mem w' = mem w"
    using disk_cong [of w' w si] by (simp_all add: w')
  have lookup': "lookup_block (store_buf w') x = (if x = wj_loc j then None else lookup_block (store_buf w) x)" for x
    by (simp add: w' sb.lookup_erase [OF ok])
  have "view si w' c = view si w c" if c: "cell_ok si c" for c
  proof (cases "cell_loc si c = wj_loc j")
    case True
    then have s: "wj_storage j = si_idx si"
      by (simp add: cell_loc_def wj_loc_def)
    then have wb: "whole_block si (wj_req j)" "on_disk si w j"
      using inv(3) j by (auto simp: writes_inv_def)
    have "covers (wj_req j) c"
      using covers_iff_loc [OF wb(1) c] True by (simp add: site_job_loc [OF s])
    from on_diskD [OF wb(2) this] show ?thesis
      using True look by (simp add: view_def lookup' same)
  next
    case False
    then show ?thesis
      by (simp add: view_def lookup' same split: option.split)
  qed
  moreover have "writes_inv si w'"
    by (rule writes_inv_erase [OF ok inv(3) assms(2) j_def j(2) w'])
  moreover have "site_inv si w'"
    using inv(2) by (simp add: site_inv_def w')
  ultimately show ?thesis
    using io' by (simp add: refines_def view_inv_def)
qed

lemma run_write_post_refines:
  assumes "view_inv si w" "i < length (write_thread_pool w)" "wj_stage (write_thread_pool w ! i) = Posting e"
    and "run_write i w = Inr w'"
  shows "refines si (RunWrite i) w w'"
proof -
  define j where "j = write_thread_pool w ! i"
  have inv: "io_inv w" "site_inv si w" "writes_inv si w"
    using assms(1) by (simp_all add: view_inv_def)
  have io': "mem_inv w'" "store_inv w'" "io_inv w'"
    using run_write_inv [OF inv(1) assms(2)] assms(4) by (auto simp: io_inv_def)
  have same: "store_buf w' = store_buf w" "sys w' = sys w" "storages w' = storages w"
    "mem w' = (mem w)(wj_buf j := None)" "write_thread_pool w' = remove_at i (write_thread_pool w)"
    using assms(3,4)
    by (auto simp: run_write_def j_def [symmetric] release_write_buffer_def bind_res_iffs post_ioc_def
        post_watermarks_def free_disk_buffer_def split: option.splits)
  have disk': "disk si w' = disk si w"
    by (rule disk_cong [OF same(2)])
  have mem': "mem w' b = mem w b" if "b \<in> set (write_bufs w')" for b
    using write_bufs_live(1) [OF io'(1) that] same(4) by (auto split: if_splits)
  have jobs: "set (write_thread_pool w') \<subseteq> set (write_thread_pool w)"
    using set_remove_at [of i "write_thread_pool w"] same(5) by simp
  have "pending (write_thread_pool w') = pending (write_thread_pool w)"
    using pending_remove_erased [OF assms(2)] assms(3) same(5) by simp
  moreover have "on_disk si w' j' = on_disk si w j'" if "j' \<in> set (write_thread_pool w')" for j'
    using mem' [of "wj_buf j'"] that by (simp add: on_disk_def disk' write_bufs_def)
  ultimately have "writes_inv si w'"
    using inv(3) jobs same(1) unfolding writes_inv_def by auto
  moreover have "site_inv si w'"
    using inv(2) same by (simp add: site_inv_def)
  moreover have "view si w' c = view si w c" for c
  proof (cases "lookup_block (store_buf w') (cell_loc si c)")
    case None
    then show ?thesis by (simp add: view_def disk' same(1))
  next
    case (Some b)
    then show ?thesis
      using mem' [OF store_live(1) [OF io'(1,2) Some]] by (simp add: view_def same(1))
  qed
  ultimately show ?thesis
    using io'(3) by (simp add: refines_def view_inv_def)
qed

lemma run_write_refines:
  assumes "view_inv si w" "i < length (write_thread_pool w)" "run_write i w = Inr w'"
  shows "refines si (RunWrite i) w w'"
proof (cases "wj_stage (write_thread_pool w ! i)")
  case Storing
  then show ?thesis using run_write_store_refines assms by blast
next
  case (Erasing e)
  then show ?thesis using run_write_erase_refines assms by blast
next
  case (Posting e)
  then show ?thesis using run_write_post_refines assms by blast
qed

text \<open>A write that got a buffer, and one that went straight to the partition.\<close>

lemma async_write_buffered:
  assumes "io_inv w" "allowed (Write mres idx r data ob h) w" "async_write mres idx r data ob h w = Inr (e, w')"
    and "allocate_buffer_observed mres False ob (mem w) (write_buffer_pool w) = (Some buf, e', m, q)"
  shows "\<exists>blk. mem w buf = None \<and> length blk = 16384 \<and>
    w' = w\<lparr>mem := (mem w)(buf \<mapsto> blit 0 (take (nat (pr_length r)) data) blk), write_buffer_pool := q,
           store_buf := insert_block (torrent_location idx (pr_piece r) (pr_start r)) buf (store_buf w),
           write_thread_pool := write_thread_pool w @
             [\<lparr>wj_storage = idx, wj_req = r, wj_buf = buf, wj_handler = h, wj_stage = Storing\<rparr>]\<rparr>"
proof -
  have "mem w buf = None \<and> (\<exists>b. m = (mem w)(buf \<mapsto> b) \<and> length b = 16384)"
    using ledger_alloc_observed assms(1,2,4) unfolding io_inv_def mem_inv_ledger by auto
  then obtain blk where b: "mem w buf = None" "m = (mem w)(buf \<mapsto> blk)" "length blk = 16384" by blast
  have "size_t (pr_length r) = nat (pr_length r)"
    using assms(2) by (simp add: wrap_simps)
  with b assms(2-4) show ?thesis
    by (intro exI [of _ blk]) (auto simp: async_write_def DEFAULT_BLOCK_SIZE_def heap_store_def bind_res_iffs split: if_splits)
qed

lemma async_write_direct:
  assumes "io_inv w" "allowed (Write mres idx r data ob h) w" "async_write mres idx r data ob h w = Inr (e, w')"
    and "allocate_buffer_observed mres False ob (mem w) (write_buffer_pool w) = (None, e', m, q)"
  shows "\<exists>ps s err. deref_storage idx w = Inr ps \<and>
    write_storage ps (Some data) (pr_piece r) (pr_start r) (pr_length r) storage_error_init (sys w) = Inr (s, err) \<and>
    w' = post_ioc (WriteDone h err) (w\<lparr>mem := mem w, write_buffer_pool := q, sys := s\<rparr>)"
proof -
  have "m = mem w"
    using ledger_none_observed assms(1,4) unfolding io_inv_def mem_inv_ledger by blast
  with assms(2-4) show ?thesis
    by (auto simp: async_write_def DEFAULT_BLOCK_SIZE_def bind_res_iffs)
qed

text \<open>A block that is entered is seen at its cells, and nothing else changes.\<close>

lemma view_insert_block:
  assumes "mem_inv w" "store_inv w" "lookup_block (store_buf w) loc = None" "loc = torrent_location idx (pr_piece r) (pr_start r)"
    and "idx = si_idx si \<Longrightarrow> whole_block si r" "nat (pr_length r) \<le> length data" "length blk = 16384" "mem w buf = None"
    and "store_buf w' = insert_block loc buf (store_buf w)" "sys w' = sys w"
    and "mem w' = (mem w)(buf \<mapsto> blit 0 (take (nat (pr_length r)) data) blk)" "cell_ok si c"
  shows "view si w' c = (if idx = si_idx si \<and> covers r c then data ! (snd c - nat (pr_start r)) else view si w c)"
proof -
  have lookup': "lookup_block (store_buf w') x = (if x = loc then Some buf else lookup_block (store_buf w) x)" for x
    using assms(3) by (simp add: assms(9) lookup_insert_block)
  have disk': "disk si w' = disk si w"
    by (rule disk_cong) (simp add: assms(10))
  show ?thesis
  proof (cases "cell_loc si c = loc")
    case True
    then have s: "idx = si_idx si"
      by (simp add: cell_loc_def assms(4))
    then have "covers r c"
      using covers_iff_loc [OF assms(5,12)] True assms(4) by simp
    moreover from this have "snd c mod 16384 = snd c - nat (pr_start r)" "snd c - nat (pr_start r) < nat (pr_length r)"
      using covers_offset [OF assms(5)] s by auto
    moreover have "nat (pr_length r) \<le> 16384"
      using assms(5) s by (simp add: whole_block_def nat_le_iff)
    ultimately show ?thesis
      using True s assms(6,7) by (simp add: view_def lookup' nth_blit_take assms(11) nat_le_iff)
  next
    case False
    then have "\<not> (idx = si_idx si \<and> covers r c)"
      using covers_iff_loc [OF assms(5,12)] assms(4) by auto
    moreover have "lookup_block (store_buf w) x \<noteq> Some buf" for x
      using store_live(1) [OF assms(1,2)] write_bufs_live(1) [OF assms(1), of buf] assms(8) by auto
    then have "view si w' c = view si w c"
      using False assms(11) by (auto simp: view_def lookup' disk' split: option.split)
    ultimately show ?thesis by auto
  qed
qed

lemma async_write_buffered_refines:
  assumes "view_inv si w" "allowed (Write mres idx r data ob h) w" "orderly si (Write mres idx r data ob h) w"
    and "async_write mres idx r data ob h w = Inr (e, w')"
    and "allocate_buffer_observed mres False ob (mem w) (write_buffer_pool w) = (Some buf, e', m, q)"
  shows "refines si (Write mres idx r data ob h) w w'"
proof -
  let ?loc = "torrent_location idx (pr_piece r) (pr_start r)"
  let ?job = "\<lparr>wj_storage = idx, wj_req = r, wj_buf = buf, wj_handler = h, wj_stage = Storing\<rparr>"
  have inv: "io_inv w" "site_inv si w" "writes_inv si w" "mem_inv w" "store_inv w" "store_buffer_ok (store_buf w)"
    using assms(1) by (simp_all add: view_inv_def io_inv_def store_inv_def)
  have io': "io_inv w'"
    using async_write_inv [OF inv(1) assms(2)] assms(4) by auto
  obtain blk where blk: "mem w buf = None" "length blk = 16384" and w':
    "w' = w\<lparr>mem := (mem w)(buf \<mapsto> blit 0 (take (nat (pr_length r)) data) blk), write_buffer_pool := q,
       store_buf := insert_block ?loc buf (store_buf w), write_thread_pool := write_thread_pool w @ [?job]\<rparr>"
    using async_write_buffered [OF inv(1) assms(2,4,5)] by blast
  have none: "lookup_block (store_buf w) ?loc = None" and wb: "idx = si_idx si \<Longrightarrow> whole_block si r"
    using assms(3) by simp_all
  have "covering (\<lambda>loc. lookup_block (store_buf w') loc) (pending (write_thread_pool w'))"
    using sb.covering_emplace [OF inv(6) _ none, of "pending (write_thread_pool w)" buf] inv(3)
    by (simp add: writes_inv_def w' pending_append) (simp add: pending_def wj_loc_def)
  moreover have "on_disk si w' j = on_disk si w j" if "j \<in> set (write_thread_pool w)" for j
  proof -
    have "wj_buf j \<in> set (write_bufs w)"
      using that by (simp add: write_bufs_def)
    from write_bufs_live(1) [OF inv(4) this] have "mem w' (wj_buf j) = mem w (wj_buf j)"
      using blk(1) by (auto simp: w')
    then show ?thesis
      using disk_cong [of w' w si] by (simp add: on_disk_def w')
  qed
  ultimately have "writes_inv si w'"
    using inv(3) wb unfolding writes_inv_def by (auto simp: w')
  moreover have "site_inv si w'"
    using inv(2) by (simp add: site_inv_def w')
  moreover have "view si w' c = (if idx = si_idx si \<and> covers r c then data ! (snd c - nat (pr_start r)) else view si w c)"
    if "cell_ok si c" for c
    by (rule view_insert_block [OF inv(4,5) none refl wb _ blk(2,1) _ _ _ that]) (use assms(2) in \<open>simp_all add: w'\<close>)
  ultimately show ?thesis
    using io' unfolding refines_def view_inv_def by simp
qed

lemma async_write_direct_refines:
  assumes "view_inv si w" "allowed (Write mres idx r data ob h) w" "orderly si (Write mres idx r data ob h) w"
    and "async_write mres idx r data ob h w = Inr (e, w')"
    and "allocate_buffer_observed mres False ob (mem w) (write_buffer_pool w) = (None, e', m, q)"
  shows "refines si (Write mres idx r data ob h) w w'"
proof -
  let ?loc = "torrent_location idx (pr_piece r) (pr_start r)"
  have inv: "io_inv w" "site_inv si w" "writes_inv si w"
    using assms(1) by (simp_all add: view_inv_def)
  have io': "io_inv w'"
    using async_write_inv [OF inv(1) assms(2)] assms(4) by auto
  obtain ps s err where d: "deref_storage idx w = Inr ps"
    and ws: "write_storage ps (Some data) (pr_piece r) (pr_start r) (pr_length r) storage_error_init (sys w) = Inr (s, err)"
    and w': "w' = post_ioc (WriteDone h err) (w\<lparr>mem := mem w, write_buffer_pool := q, sys := s\<rparr>)"
    using async_write_direct [OF inv(1) assms(2,4,5)] by blast
  have none: "lookup_block (store_buf w) ?loc = None" and wb: "idx = si_idx si \<Longrightarrow> whole_block si r"
    using assms(3) by simp_all
  have "sys w' = s" and l: "nat (pr_length r) \<le> length data" and wb': "idx = si_idx si \<longrightarrow> whole_block si r"
    using assms(2) wb by (simp_all add: w' post_ioc_def)
  note dev = write_storage_disk [OF inv(1,2) d wb' l ws this(1)]
  have same: "store_buf w' = store_buf w" "mem w' = mem w" "write_thread_pool w' = write_thread_pool w"
    "storages w' = storages w" "sys w' = s"
    by (simp_all add: w' post_ioc_def)
  have "on_disk si w' j"
    if j: "j \<in> set (write_thread_pool w)" "wj_storage j = si_idx si" "wj_stage j = Erasing e" for j e
    unfolding on_disk_def
  proof (intro allI impI)
    fix c assume c: "covers (wj_req j) c"
    have jw: "whole_block si (wj_req j)" "on_disk si w j"
      using inv(3) j by (auto simp: writes_inv_def)
    note ok = covers_cell_ok [OF jw(1) c]
    have "\<not> (idx = si_idx si \<and> covers r c)"
      using covers_iff_loc [OF wb ok] covers_iff_loc [OF jw(1) ok] c none covering_job [OF inv(3) j(1)] j(2,3)
      by (auto simp: site_job_loc)
    then show "disk si w' c = the (mem w' (wj_buf j)) ! (snd c mod 16384)"
      using dev(3) [OF ok] on_diskD [OF jw(2) c] by (auto simp: same)
  qed
  then have "writes_inv si w'"
    using inv(3) unfolding writes_inv_def same by auto
  moreover have "site_inv si w'"
    using inv(2) dev(1,2) by (simp add: site_inv_def same)
  moreover have "view si w' c = (if idx = si_idx si \<and> covers r c then data ! (snd c - nat (pr_start r)) else view si w c)"
    if c: "cell_ok si c" for c
    using dev(3) [OF c] none covers_iff_loc [OF wb c] covers_offset(1) [OF wb]
    by (auto simp: view_def same split: option.split)
  ultimately show ?thesis
    using io' unfolding refines_def view_inv_def by simp
qed

lemma async_write_refines:
  assumes "view_inv si w" "allowed (Write mres idx r data ob h) w" "orderly si (Write mres idx r data ob h) w"
    and "async_write mres idx r data ob h w = Inr (e, w')"
  shows "refines si (Write mres idx r data ob h) w w'"
proof -
  obtain res e' m q where a: "allocate_buffer_observed mres False ob (mem w) (write_buffer_pool w) = (res, e', m, q)"
    by (metis prod_cases4)
  then show ?thesis
    using async_write_buffered_refines [OF assms] async_write_direct_refines [OF assms] by (cases res) auto
qed

text \<open>The steps that may change what is pending or stored; all others are quiet.\<close>

fun storing_label :: "label \<Rightarrow> bool" where
  "storing_label (NewTorrent path fs opened) \<longleftrightarrow> True"
| "storing_label (RemoveTorrent idx) \<longleftrightarrow> True"
| "storing_label (Write mres idx r data ob h) \<longleftrightarrow> True"
| "storing_label (RunWrite i) \<longleftrightarrow> True"
| "storing_label _ \<longleftrightarrow> False"

lemma exec_quiet:
  assumes "io_inv w" "allowed l w" "exec api l w = Inr w'" "\<not> storing_label l"
  shows "quiet w w'"
proof (cases l)
  case (Read mres idx r h)
  with assms show ?thesis using async_read_quiet [of w mres idx r h w'] by simp
next
  case (Hash mres idx p h)
  with assms show ?thesis using async_hash_quiet [of w mres idx p h] by auto
next
  case (RunRead i)
  with assms show ?thesis using run_read_quiet [of w i w'] by simp
next
  case (RunHash i)
  with assms show ?thesis using run_hash_quiet [of w i api w'] by simp
next
  case (RunIoc alive)
  with assms show ?thesis using run_ioc_quiet [of alive w w'] by simp
next
  case (ClientRelease buf)
  with assms show ?thesis using client_release_quiet [of w buf w'] by simp
qed (use assms in \<open>auto simp: quiet_def post_ioc_def passive_defs\<close>)

lemma exec_refines:
  assumes "view_inv si w" "allowed l w" "orderly si l w" "exec api l w = Inr w'"
  shows "refines si l w w'"
proof (cases "storing_label l")
  case True
  then show ?thesis
  proof (cases l)
    case (NewTorrent path fs opened)
    with assms show ?thesis using new_torrent_refines [of si w path fs opened] by auto
  next
    case (RemoveTorrent idx)
    with assms show ?thesis using remove_torrent_refines [of si w idx] by auto
  next
    case (Write mres idx r data ob h)
    with assms show ?thesis using async_write_refines [of si w mres idx r data ob h] by auto
  next
    case (RunWrite i)
    with assms show ?thesis using run_write_refines [of si w i w'] by auto
  qed simp_all
next
  case False
  have inv: "io_inv w"
    using assms(1) by (simp add: view_inv_def)
  have io': "io_inv w'"
    using exec_inv [OF inv assms(2), of api] assms(4) by auto
  have "effect si l c = None" for c
    using False by (cases l) auto
  then show ?thesis
    by (rule quiet_refines [OF assms(1) exec_quiet [OF inv assms(2,4) False] io'])
qed

section \<open>Runs and the write-behind contract\<close>

inductive lruns :: "('l \<Rightarrow> 'w \<Rightarrow> 'w \<Rightarrow> bool) \<Rightarrow> 'w \<Rightarrow> 'l list \<Rightarrow> 'w \<Rightarrow> bool" for step where
  none: "lruns step w [] w"
| more: "step l w w1 \<Longrightarrow> lruns step w1 ls w' \<Longrightarrow> lruns step w (l # ls) w'"

inductive_cases lruns_NilE: "lruns step w [] w'"
inductive_cases lruns_ConsE: "lruns step w (l # ls) w'"

text \<open>The content of a cell after the writes of a run, the last one counting.\<close>

definition last_write :: "('l \<Rightarrow> 'c \<Rightarrow> 'b option) \<Rightarrow> 'c \<Rightarrow> 'l list \<Rightarrow> 'b \<Rightarrow> 'b" where
  "last_write eff c ls b = foldl (\<lambda>b l. case eff l c of None \<Rightarrow> b | Some b' \<Rightarrow> b') b ls"

lemma last_write_simps [simp]:
  "last_write eff c [] b = b"
  "last_write eff c (l # ls) b = last_write eff c ls (case eff l c of None \<Rightarrow> b | Some b' \<Rightarrow> b')"
  by (simp_all add: last_write_def)

lemma last_write_none: "\<forall>l \<in> set ls. eff l c = None \<Longrightarrow> last_write eff c ls b = b"
  by (induction ls) auto

text \<open>
  The contract of a write-behind store: each step changes the content seen by clients as its abstract
  effect says. A client of it sees the writes in the order they were issued.
\<close>

locale write_behind =
  fixes inv :: "'w \<Rightarrow> bool"
    and seen :: "'w \<Rightarrow> 'c \<Rightarrow> 'b"
    and cell :: "'c \<Rightarrow> bool"
    and step :: "'l \<Rightarrow> 'w \<Rightarrow> 'w \<Rightarrow> bool"
    and eff :: "'l \<Rightarrow> 'c \<Rightarrow> 'b option"
  assumes step_inv: "inv w \<Longrightarrow> step l w w' \<Longrightarrow> inv w'"
    and step_seen: "inv w \<Longrightarrow> step l w w' \<Longrightarrow> cell c \<Longrightarrow>
      seen w' c = (case eff l c of None \<Rightarrow> seen w c | Some b \<Rightarrow> b)"
begin

lemma run_inv: "lruns step w ls w' \<Longrightarrow> inv w \<Longrightarrow> inv w'"
  by (induction rule: lruns.induct) (auto intro: step_inv)

lemma run_seen: "lruns step w ls w' \<Longrightarrow> inv w \<Longrightarrow> cell c \<Longrightarrow> seen w' c = last_write eff c ls (seen w c)"
  by (induction rule: lruns.induct) (auto simp: step_seen intro: step_inv)

lemma run_untouched:
  assumes "lruns step w ls w'" "inv w" "cell c" "\<forall>l \<in> set ls. eff l c = None"
  shows "seen w' c = seen w c"
  using run_seen [OF assms(1-3)] last_write_none [of ls eff c] assms(4) by simp

end

definition client_step :: "'st hasher_api \<Rightarrow> site \<Rightarrow> label \<Rightarrow> world \<Rightarrow> world \<Rightarrow> bool" where
  "client_step api si l w w' \<longleftrightarrow> allowed l w \<and> orderly si l w \<and> exec api l w = Inr w'"

interpretation wb: write_behind "view_inv si" "view si" "cell_ok si" "client_step api si" "effect si" for api si
proof unfold_locales
  fix w l w' assume a: "view_inv si w" "client_step api si l w w'"
  then have "refines si l w w'"
    using exec_refines by (auto simp: client_step_def)
  then show "view_inv si w'"
    and "\<And>c. cell_ok si c \<Longrightarrow> view si w' c = (case effect si l c of None \<Rightarrow> view si w c | Some b \<Rightarrow> b)"
    unfolding refines_def by blast+
qed

lemma view_is_disk:
  assumes "view_inv si w" "write_thread_pool w = []"
  shows "view si w = disk si w"
proof
  fix c
  have "backed (\<lambda>loc. lookup_block (store_buf w) loc) []"
    using assms by (simp add: view_inv_def io_inv_def store_inv_def pending_def)
  then have "lookup_block (store_buf w) (cell_loc si c) = None"
    by (rule sb.backed_absent) simp
  then show "view si w c = disk si w c"
    by (simp add: view_def)
qed

lemma job_label_step:
  assumes "io_run api w ls w'" "\<forall>l \<in> set ls. job_label l"
  shows "lruns (client_step api si) w ls w'"
  using assms
proof (induction rule: io_run.induct)
  case (step l w w1 ls w')
  have "orderly si l w"
    using step.prems by (cases l) auto
  with step show ?case by (auto simp: client_step_def intro: lruns.more)
qed (rule lruns.none)

text \<open>Once the write jobs of a run of jobs are through, what was seen is on the partition.\<close>

lemma stored_view:
  assumes "view_inv si w" "io_run api w ls w'" "\<forall>l \<in> set ls. job_label l" "write_thread_pool w' = []" "cell_ok si c"
  shows "disk si w' c = view si w c"
proof -
  note run = job_label_step [OF assms(2,3), of si]
  have "effect si l c = None" if "l \<in> set ls" for l
    using assms(3) that by (cases l) auto
  then have "view si w' c = view si w c"
    by (intro wb.run_untouched [OF run assms(1,5)]) simp
  then show ?thesis
    using view_is_disk [OF wb.run_inv [OF run assms(1)] assms(4)] by simp
qed

section \<open>An example site\<close>

definition example_site :: site where
  "example_site = \<lparr>si_idx = 0, si_ps = example_storage\<lparr>ps_fd := 4\<rparr>, si_path = ''/dev/sda1'', si_addr = example_addr\<rparr>"

lemma example_cell_ok: "cell_ok example_site c \<Longrightarrow> fst c = 0 \<and> snd c < 7"
  by (cases "nat (fst c)")
    (auto simp: cell_ok_def example_site_def piece_size_def example_storage_def ranges_storage_def split: if_splits)

lemma example_client_step:
  "client_step example_hasher example_site
     (Write (Some (9, replicate 16384 0)) 0 example_request [1, 2, 3, 4, 5, 6, 7] None 5) example_world example_written"
  unfolding client_step_def
proof (intro conjI example_write_step)
  show "orderly example_site (Write (Some (9, replicate 16384 0)) 0 example_request [1, 2, 3, 4, 5, 6, 7] None 5) example_world"
    by (simp add: example_world_def raw_disk_io_new_def store_buffer_init_def example_site_def whole_block_def
        example_request_def piece_size_def example_storage_def ranges_storage_def)
qed

lemma example_view_inv: "view_inv example_site example_world" "view_inv example_site example_written"
proof -
  have "fs_layout (ps_fs example_storage) example_addr"
    using example_storage_on by (simp add: storage_on_def)
  then have so: "storage_on (sys example_world) (si_ps example_site) example_addr ''/dev/sda1''
      \<lparr>dev_data = replicate 16 0, dev_xfer = (\<lambda>off n. n)\<rparr>"
    using example_storage_on by (simp add: storage_on_def example_world_def example_site_def example_os_def)
  have "inj_on (\<lambda>c. example_addr (fst c) (snd c)) {c. cell_ok example_site c}"
  proof (rule inj_onI)
    fix c c' assume a: "c \<in> {c. cell_ok example_site c}" "c' \<in> {c. cell_ok example_site c}"
      "example_addr (fst c) (snd c) = example_addr (fst c') (snd c')"
    then have "fst c = 0" "fst c' = 0" "snd c < 7" "snd c' < 7"
      using example_cell_ok by auto
    with a(3) show "c = c'"
      using inj_onD [OF example_inj, of "snd c" "snd c'"] by (simp add: prod_eq_iff)
  qed
  then have "site_inv example_site example_world"
    using so by (auto simp: site_inv_def example_site_def example_world_def)
  moreover have "writes_inv example_site example_world"
    by (simp add: writes_inv_def example_world_def raw_disk_io_new_def covering_def pending_def)
  ultimately show v: "view_inv example_site example_world"
    using io_reach_inv [OF example_reach(1)] by (simp add: view_inv_def)
  show "view_inv example_site example_written"
    by (rule wb.step_inv [OF v example_client_step])
qed

section \<open>Properties of the disk back end: contents\<close>

text \<open>C2: Refinement to a byte store: along any interleaving of calls, job steps and the io context, the
  content a client sees, the pending block if there is one and the partition otherwise, is the
  initial content with the writes applied in the order of their \<open>async_write\<close> calls. Storing a block,
  erasing it from the store buffer and freeing it change nothing that can be seen.\<close>

theorem write_behind_refinement:
  assumes "view_inv si w" "lruns (client_step api si) w ls w'" "cell_ok si c"
  shows "view si w' c = last_write (effect si) c ls (view si w c)"
  by (rule wb.run_seen [OF assms(2,1,3)])

lemma example_run_view:
  "lruns (client_step example_hasher example_site) example_world
     [Write (Some (9, replicate 16384 0)) 0 example_request [1, 2, 3, 4, 5, 6, 7] None 5] example_written"
  using example_client_step lruns.none by (rule lruns.more)

theorem write_behind_refinement_witness:
  "view example_site example_written (0, 5) = 6 \<and> disk example_site example_written (0, 5) = 0"
proof
  have "cell_ok example_site (0, 5)"
    by (simp add: cell_ok_def example_site_def piece_size_def example_storage_def ranges_storage_def)
  from write_behind_refinement [OF example_view_inv(1) example_run_view this]
  show "view example_site example_written (0, 5) = 6"
    by (simp add: example_site_def covers_def example_request_def)
  show "disk example_site example_written (0, 5) = 0"
    by (simp add: disk_def example_written_def example_world_def example_site_def example_os_def example_addr_def)
qed

text \<open>C6: Durability: once the write jobs have run, the partition itself holds the initial content with
  all the writes applied in the order they were issued; and from any state the jobs alone bring
  about such a state, in a bounded number of steps, without changing what is seen.\<close>

theorem writes_reach_the_partition:
  assumes "view_inv si w"
  shows "(\<forall>ls w' c. lruns (client_step api si) w ls w' \<and> write_thread_pool w' = [] \<and> cell_ok si c \<longrightarrow>
            disk si w' c = last_write (effect si) c ls (view si w c)) \<and>
         (\<exists>ls w'. io_run api w ls w' \<and> length ls \<le> work w \<and> (\<forall>l \<in> set ls. job_label l) \<and> quiescent w' \<and>
            (\<forall>c. cell_ok si c \<longrightarrow> disk si w' c = view si w c))"
proof
  show "\<forall>ls w' c. lruns (client_step api si) w ls w' \<and> write_thread_pool w' = [] \<and> cell_ok si c \<longrightarrow>
      disk si w' c = last_write (effect si) c ls (view si w c)"
    using wb.run_seen [OF _ assms] wb.run_inv [OF _ assms] view_is_disk by metis
  have "io_inv w"
    using assms by (simp add: view_inv_def)
  then obtain ls w' where r: "io_run api w ls w'" "length ls \<le> work w" "\<forall>l \<in> set ls. job_label l" "quiescent w'"
    using drains by blast
  have "disk si w' c = view si w c" if "cell_ok si c" for c
    using stored_view [OF assms r(1,3) _ that] r(4) by (simp add: quiescent_def)
  with r show "\<exists>ls w'. io_run api w ls w' \<and> length ls \<le> work w \<and> (\<forall>l \<in> set ls. job_label l) \<and> quiescent w' \<and>
      (\<forall>c. cell_ok si c \<longrightarrow> disk si w' c = view si w c)"
    by blast
qed

theorem writes_reach_the_partition_witness:
  "\<exists>ls w'. io_run example_hasher example_written ls w' \<and> quiescent w' \<and>
     disk example_site w' (0, 5) = view example_site example_written (0, 5)"
proof -
  have "cell_ok example_site (0, 5)"
    by (simp add: cell_ok_def example_site_def piece_size_def example_storage_def ranges_storage_def)
  then show ?thesis
    using writes_reach_the_partition [OF example_view_inv(2), of example_hasher] by blast
qed

text \<open>C24: A second write to a pending block is not seen. \<open>insert\<close> keeps the first entry, so after
  \<open>async_write\<close> for a block that is still pending every byte of the block is seen as before the call,
  whether the write got a buffer or went straight to the partition. This is why the refinement asks
  the client not to write to a pending block.\<close>

theorem second_write_not_seen:
  assumes "view_inv si w" "whole_block si r" "allowed (Write mres (si_idx si) r data ob h) w"
    and "lookup_block (store_buf w) (torrent_location (si_idx si) (pr_piece r) (pr_start r)) = Some b"
    and "async_write mres (si_idx si) r data ob h w = Inr (e, w')" "covers r c"
  shows "view si w' c = view si w c"
proof -
  have inv: "io_inv w" "mem_inv w" "store_inv w"
    using assms(1) by (simp_all add: view_inv_def io_inv_def)
  have loc: "cell_loc si c = torrent_location (si_idx si) (pr_piece r) (pr_start r)"
    using covers_iff_loc [OF assms(2) covers_cell_ok [OF assms(2,6)]] assms(6) by simp
  obtain res e' m q where al: "allocate_buffer_observed mres False ob (mem w) (write_buffer_pool w) = (res, e', m, q)"
    by (metis prod_cases4)
  have "store_buf w' = store_buf w \<and> mem w' b = mem w b"
  proof (cases res)
    case None
    with al async_write_direct [OF inv(1) assms(3,5)] show ?thesis by (auto simp: post_ioc_def)
  next
    case (Some buf)
    with al async_write_buffered [OF inv(1) assms(3,5)] store_live(2) [OF inv(2,3) assms(4)] show ?thesis
      using assms(4) by (auto simp: insert_block_def)
  qed
  then show ?thesis
    using assms(4) loc by (simp add: view_def)
qed

theorem second_write_not_seen_witness:
  "\<exists>e w'. async_write (Some (10, replicate 16384 0)) 0 example_request [7, 7, 7, 7, 7, 7, 7] None 6 example_written = Inr (e, w') \<and>
     view example_site w' (0, 5) = view example_site example_written (0, 5) \<and> view example_site w' (0, 5) \<noteq> 7"
proof -
  let ?d = "[7, 7, 7, 7, 7, 7, 7] :: bytes"
  have al: "allowed (Write (Some (10, replicate 16384 0)) (si_idx example_site) example_request ?d None 6) example_written"
    by (simp add: example_site_def example_written_def example_world_def malloc_ok_def example_request_def)
  obtain e w' where w': "async_write (Some (10, replicate 16384 0)) (si_idx example_site) example_request ?d None 6 example_written = Inr (e, w')"
    using async_write_inv [OF _ al] example_view_inv(2) by (auto simp: view_inv_def)
  have wb: "whole_block example_site example_request" "covers example_request (0, 5)"
    by (simp_all add: whole_block_def covers_def example_request_def example_site_def piece_size_def example_storage_def ranges_storage_def)
  have "lookup_block (store_buf example_written)
      (torrent_location (si_idx example_site) (pr_piece example_request) (pr_start example_request)) = Some 9"
    by (simp add: example_written_def example_site_def example_request_def)
  from second_write_not_seen [OF example_view_inv(2) wb(1) al this w' wb(2)] w' show ?thesis
    by (simp add: example_site_def)
      (simp add: view_def cell_loc_def example_written_def blit_def)
qed

end
