(* ===== verification/Disk_Results.thy ===== *)
theory Disk_Results
  imports Disk_View
begin

text \<open>
  What the client gets back. A read answers with the bytes seen when it was issued, whether they come
  from the store buffer, from the partition, or half from each, as long as no write to them is issued
  in between; a hash is that of the piece as seen. Both hold under every interleaving with the jobs of
  the other pools.
\<close>

section \<open>What a step can change of the memory and of the index\<close>

text \<open>The one buffer a step may write, allocate or free.\<close>

fun touched :: "label \<Rightarrow> world \<Rightarrow> addr option" where
  "touched (Read mres idx r h) w = map_option fst mres"
| "touched (Write mres idx r data ob h) w = map_option fst mres"
| "touched (Hash mres idx p h) w = map_option fst mres"
| "touched (RunRead i) w = Some (read_job_buf (read_thread_pool w ! i))"
| "touched (RunWrite i) w = Some (wj_buf (write_thread_pool w ! i))"
| "touched (RunHash i) w = Some (hj_buf (hash_thread_pool w ! i))"
| "touched (ClientRelease b) w = Some b"
| "touched _ w = None"

lemma allocate_impl_touch:
  "allocate_buffer_impl mres h p = (res, m, q) \<Longrightarrow> map_option fst mres \<noteq> Some b \<Longrightarrow> m b = h b"
  by (auto simp: allocate_buffer_impl_def Let_def split: if_splits option.splits)

lemma memcpy_block_touch: "memcpy_block dst i src j n (Inr h) = Inr h' \<Longrightarrow> b \<noteq> dst \<Longrightarrow> h' b = h b"
  by (auto simp: memcpy_block_def bind_res_iffs heap_store_Inr_iff)

lemma allocate_impl_addr:
  "allocate_buffer_impl mres h p = (Some a, m, q) \<Longrightarrow> map_option fst mres = Some a"
  by (auto simp: allocate_buffer_impl_def Let_def split: if_splits option.splits)

lemma async_read_touch:
  assumes "io_inv w" "allowed (Read mres idx r h) w" "async_read mres idx r h w = Inr w'"
    and "map_option fst mres \<noteq> Some b"
  shows "mem w' b = mem w b"
proof (cases "read_valid r")
  case False
  then show ?thesis
    using assms(2,3) by (auto simp: async_read_def read_valid_def DEFAULT_BLOCK_SIZE_def invoke_def)
next
  case True
  have inv: "mem_inv w" "store_inv w" and m: "malloc_ok (mem w) mres"
    using assms(1,2) by (simp_all add: io_inv_def)
  obtain res m p where a: "allocate_buffer mres (mem w) (read_buffer_pool w) = (res, m, p)"
    by (metis prod_cases3)
  show ?thesis
  proof (cases res)
    case None
    then show ?thesis
      using a assms(3,4) True allocate_impl_touch [of mres "mem w" "read_buffer_pool w" res m p b]
      by (auto simp: async_read_def read_valid_def DEFAULT_BLOCK_SIZE_def invoke_def allocate_buffer_def)
  next
    case (Some buf)
    then have "buf \<noteq> b"
      using a assms(4) allocate_impl_addr by (auto simp: allocate_buffer_def)
    with async_read_granted [OF inv m True a [unfolded Some], of idx h] show ?thesis
      using assms(3) by (auto simp: invoke_def post_read_def Let_def split: option.splits)
  qed
qed

lemma async_write_touch:
  assumes "io_inv w" "allowed (Write mres idx r data ob h) w" "async_write mres idx r data ob h w = Inr (e, w')"
    and "map_option fst mres \<noteq> Some b"
  shows "mem w' b = mem w b"
proof -
  obtain res e' m q where a: "allocate_buffer_observed mres False ob (mem w) (write_buffer_pool w) = (res, e', m, q)"
    by (metis prod_cases4)
  show ?thesis
  proof (cases res)
    case None
    with a async_write_direct [OF assms(1-3)] show ?thesis by (auto simp: post_ioc_def)
  next
    case (Some buf)
    have "buf \<noteq> b"
      using a Some assms(4) allocate_impl_addr [of mres "mem w" "write_buffer_pool w" buf]
      by (auto simp: allocate_buffer_observed_def split: prod.splits if_splits)
    with a Some async_write_buffered [OF assms(1-3)] show ?thesis by auto
  qed
qed

lemma release_touch:
  "release_read_buffer a w = Inr w' \<Longrightarrow> b \<noteq> a \<Longrightarrow> mem w' b = mem w b"
  "release_write_buffer a w = Inr w' \<Longrightarrow> b \<noteq> a \<Longrightarrow> mem w' b = mem w b"
  by (auto simp: release_read_buffer_def release_write_buffer_def bind_res_iffs post_watermarks_def
      free_disk_buffer_def split: option.splits)

lemma job_touch:
  "run_read j w = Inr w' \<Longrightarrow> b \<noteq> read_job_buf j \<Longrightarrow> mem w' b = mem w b"
  "run_write i w = Inr w' \<Longrightarrow> b \<noteq> wj_buf (write_thread_pool w ! i) \<Longrightarrow> mem w' b = mem w b"
  "run_hash api i w = Inr w' \<Longrightarrow> b \<noteq> hj_buf (hash_thread_pool w ! i) \<Longrightarrow> mem w' b = mem w b"
proof -
  show "run_read j w = Inr w' \<Longrightarrow> b \<noteq> read_job_buf j \<Longrightarrow> mem w' b = mem w b"
    by (auto simp: run_read_def bind_res_iffs post_ioc_def split: prod.splits intro!: read_storage_frame)
  show "run_write i w = Inr w' \<Longrightarrow> b \<noteq> wj_buf (write_thread_pool w ! i) \<Longrightarrow> mem w' b = mem w b"
    by (auto simp: run_write_def Let_def bind_res_iffs split: write_stage.splits option.splits
        dest!: release_touch(2) [where b = b]) (simp add: post_ioc_def)
  show "run_hash api i w = Inr w' \<Longrightarrow> b \<noteq> hj_buf (hash_thread_pool w ! i) \<Longrightarrow> mem w' b = mem w b"
    by (auto simp: run_hash_def Let_def bind_res_iffs split: if_splits
        dest: hash_round_frame dest!: release_touch(1) [where b = b]) (simp_all add: post_ioc_def)
qed

lemma exec_touch:
  assumes "io_inv w" "allowed l w" "exec api l w = Inr w'" "touched l w \<noteq> Some b"
  shows "mem w' b = mem w b"
proof (cases l)
  case (NewTorrent path fs opened)
  with assms show ?thesis
    by (auto simp: new_torrent_def Let_def split: prod.splits sum.splits)
next
  case (Read mres idx r h)
  with assms show ?thesis using async_read_touch [of w mres idx r h w' b] by auto
next
  case (Write mres idx r data ob h)
  with assms show ?thesis using async_write_touch [of w mres idx r data ob h _ w' b] by auto
next
  case (Hash mres idx p h)
  with assms show ?thesis
    by (auto simp: async_hash_def allocate_buffer_def post_ioc_def split: prod.splits option.splits
        dest: allocate_impl_touch)
next
  case (RunRead i)
  with assms(3,4) show ?thesis
    using job_touch(1) [of "read_thread_pool w ! i" "w\<lparr>read_thread_pool := remove_at i (read_thread_pool w)\<rparr>" w' b] by auto
next
  case (RunWrite i)
  with assms show ?thesis by (auto intro: job_touch(2))
next
  case (RunHash i)
  with assms show ?thesis by (auto intro: job_touch(3))
next
  case (RunIoc alive)
  with assms(3) show ?thesis
    by (auto simp: run_ioc_def invoke_def split: list.splits ioc_job.splits completion.splits option.splits)
next
  case (ClientRelease buf)
  with assms show ?thesis
    using release_touch(1) [of buf "w\<lparr>client_bufs := remove1 buf (client_bufs w)\<rparr>" w' b]
    by (simp add: client_release_def)
qed (use assms in \<open>auto simp: post_ioc_def remove_torrent_def passive_defs\<close>)

lemma quiet_lookup: "quiet w w' \<Longrightarrow> store_buf w' = store_buf w"
  by (simp add: quiet_def)

text \<open>Only a write of a block makes it pending.\<close>

lemma exec_lookup:
  assumes "view_inv si w" "client_step api si l w w'" "cell_ok si c" "effect si l c = None"
    and "lookup_block (store_buf w) (cell_loc si c) = None"
  shows "lookup_block (store_buf w') (cell_loc si c) = None"
proof -
  have l: "allowed l w" "orderly si l w" "exec api l w = Inr w'" and inv: "io_inv w"
    using assms(1,2) by (simp_all add: client_step_def view_inv_def)
  have ok: "store_buffer_ok (store_buf w)"
    using inv by (simp add: io_inv_def store_inv_def)
  show ?thesis
  proof (cases "storing_label l")
    case True
    then show ?thesis
    proof (cases l)
      case (Write mres idx r data ob h)
      have "torrent_location idx (pr_piece r) (pr_start r) \<noteq> cell_loc si c"
        using Write assms(3,4) l(2) covers_iff_loc [of si r c] by (auto simp: cell_loc_def)
      then show ?thesis
        using Write l(3) assms(5)
        by (auto simp: async_write_def bind_res_iffs post_ioc_def lookup_insert_block
            split: prod.splits option.splits if_splits)
    next
      case (RunWrite i)
      then show ?thesis
        using l(3) assms(5)
        by (auto simp: run_write_def Let_def bind_res_iffs release_write_buffer_def post_watermarks_def post_ioc_def
            sb.lookup_erase [OF ok] split: write_stage.splits option.splits)
    qed (use l(3) assms(5) in \<open>auto simp: new_torrent_def remove_torrent_def Let_def split: prod.splits sum.splits\<close>)
  next
    case False
    then show ?thesis
      using exec_quiet [OF inv l(1,3)] assms(5) by (simp add: quiet_def)
  qed
qed

section \<open>Read results\<close>

definition request_ok :: "site \<Rightarrow> peer_request \<Rightarrow> bool" where
  "request_ok si r \<longleftrightarrow>
     0 \<le> pr_piece r \<and> read_valid r \<and> pr_start r + pr_length r \<le> piece_size (si_ps si) (pr_piece r)"

text \<open>The \<open>k\<close>-th byte asked for.\<close>

definition nth_cell :: "peer_request \<Rightarrow> nat \<Rightarrow> int \<times> nat" where
  "nth_cell r k = (pr_piece r, nat (pr_start r) + k)"

definition seen_bytes :: "site \<Rightarrow> world \<Rightarrow> peer_request \<Rightarrow> bytes" where
  "seen_bytes si w r = map (\<lambda>k. view si w (nth_cell r k)) [0..<nat (pr_length r)]"

lemma nth_cell_ok: "request_ok si r \<Longrightarrow> k < nat (pr_length r) \<Longrightarrow> cell_ok si (nth_cell r k)"
  by (auto simp: request_ok_def read_valid_def nth_cell_def cell_ok_def)

lemma nth_cell_covers: "request_ok si r \<Longrightarrow> k < nat (pr_length r) \<Longrightarrow> covers r (nth_cell r k)"
  by (auto simp: request_ok_def read_valid_def nth_cell_def covers_def)

text \<open>The block of the \<open>k\<close>-th byte is the first of the request, or the second past the block's end.\<close>

text \<open>Byte \<open>k\<close> of a request that starts at \<open>s\<close>, in the block of \<open>s\<close> or in the one after it.\<close>

lemma block_arith:
  fixes s k :: nat
  shows "k < 16384 - s mod 16384 \<Longrightarrow>
      (s + k) mod 16384 = s mod 16384 + k \<and> s + k - (s + k) mod 16384 = s - s mod 16384"
    and "16384 - s mod 16384 \<le> k \<Longrightarrow> k < 16384 \<Longrightarrow>
      (s + k) mod 16384 = k - (16384 - s mod 16384) \<and> s + k - (s + k) mod 16384 = s - s mod 16384 + 16384"
proof -
  define m where "m = s mod 16384"
  have m: "m < 16384" "m \<le> s" "(s - m) mod 16384 = 0" "(s - m + 16384) mod 16384 = 0"
    by (simp_all add: m_def minus_mod_eq_mult_div)
  have le: "(s + k) mod 16384 \<le> s + k" by simp
  show "(s + k) mod 16384 = s mod 16384 + k \<and> s + k - (s + k) mod 16384 = s - s mod 16384"
    if "k < 16384 - s mod 16384"
    using that block_of_iff [OF m(3), of "s + k"] m(1,2) le unfolding m_def [symmetric] by linarith
  show "(s + k) mod 16384 = k - (16384 - s mod 16384) \<and> s + k - (s + k) mod 16384 = s - s mod 16384 + 16384"
    if "16384 - s mod 16384 \<le> k" "k < 16384"
    using that block_of_iff [OF m(4), of "s + k"] m(1,2) le unfolding m_def [symmetric] by linarith
qed

lemma nth_cell_loc:
  assumes "request_ok si r" "k < nat (pr_length r)"
  shows "int k < head_len r \<Longrightarrow> cell_loc si (nth_cell r k) = loc_first (si_idx si) r"
    and "int k < head_len r \<Longrightarrow> (nat (pr_start r) + k) mod 16384 = nat (pr_start r mod 16384) + k"
    and "head_len r \<le> int k \<Longrightarrow> cell_loc si (nth_cell r k) = loc_second (si_idx si) r"
    and "head_len r \<le> int k \<Longrightarrow> (nat (pr_start r) + k) mod 16384 = k - nat (head_len r)"
    and "head_len r \<le> int k \<Longrightarrow> unaligned r"
proof -
  define s where "s = nat (pr_start r)"
  have v: "0 \<le> pr_start r" "0 < pr_length r" "pr_length r \<le> 16384"
    using assms(1) by (simp_all add: request_ok_def read_valid_def)
  have s: "pr_start r = int s" "pr_start r mod 16384 = int (s mod 16384)"
    using v by (simp_all add: s_def zmod_int)
  have k: "k < 16384"
    using assms(2) v by linarith
  have i: "int (s - s mod 16384) = pr_start r - pr_start r mod 16384"
    using s by (simp add: of_nat_diff)
  show "cell_loc si (nth_cell r k) = loc_first (si_idx si) r"
    "(nat (pr_start r) + k) mod 16384 = nat (pr_start r mod 16384) + k" if "int k < head_len r"
  proof -
    have m: "(s + k) mod 16384 = s mod 16384 + k" "s + k - (s + k) mod 16384 = s - s mod 16384"
      using that s block_arith(1) [of k s] by (simp_all add: head_len_def)
    show "cell_loc si (nth_cell r k) = loc_first (si_idx si) r"
      unfolding cell_loc_def nth_cell_def loc_first_def fst_conv snd_conv s_def [symmetric] m(2) i ..
    show "(nat (pr_start r) + k) mod 16384 = nat (pr_start r mod 16384) + k"
      unfolding s_def [symmetric] m(1) s(2) by simp
  qed
  show "cell_loc si (nth_cell r k) = loc_second (si_idx si) r" "(nat (pr_start r) + k) mod 16384 = k - nat (head_len r)"
    "unaligned r" if "head_len r \<le> int k"
  proof -
    have h: "16384 - s mod 16384 \<le> k" "nat (head_len r) = 16384 - s mod 16384"
      using that s by (simp_all add: head_len_def)
    then have m: "(s + k) mod 16384 = k - nat (head_len r)" "s + k - (s + k) mod 16384 = s - s mod 16384 + 16384"
      using block_arith(2) [OF h(1) k] by simp_all
    show "cell_loc si (nth_cell r k) = loc_second (si_idx si) r"
      unfolding cell_loc_def nth_cell_def loc_second_def fst_conv snd_conv s_def [symmetric] m(2) of_nat_add i
      by simp
    show "(nat (pr_start r) + k) mod 16384 = k - nat (head_len r)"
      unfolding s_def [symmetric] m(1) ..
    show "unaligned r"
      using h(1) s assms(2) by (simp add: unaligned_def)
  qed
qed

lemma nth_overlay:
  assumes "entry_ok h buf x" "pos + n \<le> length blk" "off + n \<le> 16384" "k < length blk"
  shows "overlay h x pos off n blk ! k =
    (case x of None \<Rightarrow> blk ! k
     | Some b \<Rightarrow> if pos \<le> k \<and> k < pos + n then the (h b) ! (off + (k - pos)) else blk ! k)"
  using assms by (auto simp: overlay_def entry_ok_def nth_blit split: option.splits)

lemma snd_nth_cell [simp]: "snd (nth_cell r k) = nat (pr_start r) + k"
  by (simp add: nth_cell_def)

text \<open>The buffer of a read after the copies from the store buffer, position by position.\<close>

lemma read_fill_nth_two:
  assumes "mem_inv w" "store_inv w" "mem w buf = None" "read_valid r" "unaligned r" "length blk = 16384" "k < nat (pr_length r)"
  shows "read_fill idx r w blk ! k =
    (if int k < head_len r
     then case lookup_block (store_buf w) (loc_first idx r) of
            None \<Rightarrow> blk ! k | Some b \<Rightarrow> the (mem w b) ! (nat (pr_start r mod 16384) + k)
     else case lookup_block (store_buf w) (loc_second idx r) of
            None \<Rightarrow> blk ! k | Some b \<Rightarrow> the (mem w b) ! (k - nat (head_len r)))"
proof -
  let ?x1 = "lookup_block (store_buf w) (loc_first idx r)" and ?x2 = "lookup_block (store_buf w) (loc_second idx r)"
  have e: "entry_ok (mem w) buf (lookup_block (store_buf w) loc)" for loc
    using store_live [OF assms(1,2), of loc] assms(3) by (auto simp: entry_ok_def)
  have v: "0 < pr_length r" "pr_length r \<le> 16384" "k < 16384"
    using assms(4,7) by (auto simp: read_valid_def)
  have "0 \<le> pr_start r mod 16384" "pr_start r mod 16384 < 16384" by simp_all
  then have h: "0 < head_len r" "head_len r \<le> 16384" "nat (pr_start r mod 16384) + nat (head_len r) = 16384" "head_len r < pr_length r"
    using assms(5) by (auto simp: head_len_def unaligned_def)
  let ?b1 = "overlay (mem w) ?x1 0 (nat (pr_start r mod 16384)) (nat (head_len r)) blk"
  have "length ?b1 = 16384"
    using h assms(6) by (simp add: length_overlay [OF e])
  then have "overlay (mem w) ?x2 (nat (head_len r)) 0 (nat (pr_length r - head_len r)) ?b1 ! k =
      (case ?x2 of None \<Rightarrow> ?b1 ! k
       | Some b \<Rightarrow> if nat (head_len r) \<le> k then the (mem w b) ! (k - nat (head_len r)) else ?b1 ! k)"
    using nth_overlay [OF e, of "nat (head_len r)" "nat (pr_length r - head_len r)" ?b1 0 k] h v assms(7)
    by (auto split: option.splits)
  moreover have "?b1 ! k = (case ?x1 of None \<Rightarrow> blk ! k
       | Some b \<Rightarrow> if k < nat (head_len r) then the (mem w b) ! (nat (pr_start r mod 16384) + k) else blk ! k)"
    using nth_overlay [OF e, of 0 "nat (head_len r)" blk "nat (pr_start r mod 16384)" k] h v assms(6)
    by (auto split: option.splits)
  ultimately show ?thesis
    using assms(5) h(1) by (cases "int k < head_len r") (auto simp: read_fill_def Let_def split: option.splits)
qed

lemma read_fill_nth_one:
  assumes "mem_inv w" "store_inv w" "mem w buf = None" "read_valid r" "\<not> unaligned r" "length blk = 16384" "k < nat (pr_length r)"
  shows "read_fill idx r w blk ! k =
    (case lookup_block (store_buf w) (loc_first idx r) of
       None \<Rightarrow> blk ! k | Some b \<Rightarrow> the (mem w b) ! (nat (pr_start r mod 16384) + k))"
proof -
  have e: "entry_ok (mem w) buf (lookup_block (store_buf w) loc)" for loc
    using store_live [OF assms(1,2), of loc] assms(3) by (auto simp: entry_ok_def)
  have v: "0 < pr_length r" "pr_length r \<le> 16384" "k < 16384"
    using assms(4,7) by (auto simp: read_valid_def)
  have "nat (pr_start r mod 16384) + nat (pr_length r) \<le> 16384"
    using assms(5) v by (simp add: unaligned_def)
  then show ?thesis
    using nth_overlay [OF e, of 0 "nat (pr_length r)" blk "nat (pr_start r mod 16384)" k] v assms(5-7)
    by (auto simp: read_fill_def Let_def split: option.splits)
qed

lemma read_fill_nth:
  assumes "mem_inv w" "store_inv w" "mem w buf = None" "request_ok si r" "length blk = 16384"
    and "k < nat (pr_length r)"
  shows "read_fill (si_idx si) r w blk ! k =
    (case lookup_block (store_buf w) (cell_loc si (nth_cell r k)) of
       None \<Rightarrow> blk ! k
     | Some b \<Rightarrow> the (mem w b) ! (snd (nth_cell r k) mod 16384))"
proof -
  have v: "read_valid r"
    using assms(4) by (simp add: request_ok_def)
  note loc = nth_cell_loc [OF assms(4,6)]
  show ?thesis
  proof (cases "unaligned r")
    case True
    then show ?thesis
      using read_fill_nth_two [OF assms(1-3) v True assms(5,6)] loc(1-4) by (simp split: option.split)
  next
    case False
    then have "int k < head_len r"
      using loc(5) by linarith
    then show ?thesis
      using read_fill_nth_one [OF assms(1-3) v False assms(5,6)] loc(1,2) by (simp split: option.split)
  qed
qed

text \<open>
  A read job on its way: the bytes it still has to read belong to blocks that are not pending, and
  the others are in its buffer.
\<close>

definition rd_good :: "site \<Rightarrow> world \<Rightarrow> peer_request \<Rightarrow> read_job \<Rightarrow> bool" where
  "rd_good si w r j \<longleftrightarrow>
     (\<exists>off len pos blk. read_job_range j = (si_idx si, pr_piece r, off, len, pos) \<and>
        off = pr_start r + int pos \<and> 0 \<le> len \<and> int pos + len \<le> pr_length r \<and>
        mem w (read_job_buf j) = Some blk \<and> length blk = 16384 \<and>
        (\<forall>k < nat (pr_length r).
           if pos \<le> k \<and> k < pos + nat len
           then lookup_block (store_buf w) (cell_loc si (nth_cell r k)) = None
           else blk ! k = view si w (nth_cell r k)))"

lemma view_pending:
  "lookup_block (store_buf w) (cell_loc si c) = Some b \<Longrightarrow> view si w c = the (mem w b) ! (snd c mod 16384)"
  "lookup_block (store_buf w) (cell_loc si c) = None \<Longrightarrow> view si w c = disk si w c"
  by (simp_all add: view_def)

lemma read_next_range:
  assumes "request_ok si r" "read_next (si_idx si) r buf h w = Some j"
  shows "\<exists>off len pos. read_job_range j = (si_idx si, pr_piece r, off, len, pos) \<and>
    off = pr_start r + int pos \<and> 0 \<le> len \<and> int pos + len \<le> pr_length r \<and>
    (\<forall>k < nat (pr_length r).
       (pos \<le> k \<and> k < pos + nat len) = (lookup_block (store_buf w) (cell_loc si (nth_cell r k)) = None))"
proof -
  let ?x1 = "lookup_block (store_buf w) (loc_first (si_idx si) r)"
  let ?x2 = "lookup_block (store_buf w) (loc_second (si_idx si) r)"
  have v: "read_valid r" "0 < pr_length r"
    using assms(1) by (simp_all add: request_ok_def read_valid_def)
  have mod: "0 \<le> pr_start r mod 16384" "pr_start r mod 16384 < 16384" by simp_all
  have loc: "cell_loc si (nth_cell r k) =
      (if int k < head_len r then loc_first (si_idx si) r else loc_second (si_idx si) r)"
    "int k < head_len r \<or> unaligned r" if "k < nat (pr_length r)" for k
    using nth_cell_loc [OF assms(1) that] by (cases "int k < head_len r"; simp)+
  consider (head) "unaligned r" "?x1 = None" "?x2 \<noteq> None" "j = ReadPartial (si_idx si) r (pr_start r - pr_start r mod 16384) (head_len r) 1 buf h"
    | (tail) "unaligned r" "?x1 \<noteq> None" "?x2 = None" "j = ReadPartial (si_idx si) r (pr_start r - pr_start r mod 16384) (head_len r) 2 buf h"
    | (whole) "?x1 = None" "unaligned r \<longrightarrow> ?x2 = None" "j = ReadWhole (si_idx si) r buf h"
    using assms(2) by (auto simp: read_next_def Let_def split: if_splits)
  then show ?thesis
  proof cases
    case head
    then have "head_len r < pr_length r" "0 < head_len r"
      using mod by (simp_all add: unaligned_def head_len_def)
    with head loc show ?thesis
      by (intro exI [of _ "pr_start r"] exI [of _ "head_len r"] exI [of _ 0]) auto
  next
    case tail
    have hl: "head_len r < pr_length r" "0 < head_len r"
      using tail(1) mod by (simp_all add: unaligned_def head_len_def)
    have "i32 (pr_start r - pr_start r mod 16384 + 16384) = pr_start r + int (nat (head_len r))"
      using read_valid_simps(3) [OF v(1)] hl by (simp add: head_len_def)
    with tail loc hl show ?thesis
      by (intro exI [of _ "pr_start r + head_len r"] exI [of _ "pr_length r - head_len r"] exI [of _ "nat (head_len r)"])
        (auto simp: DEFAULT_BLOCK_SIZE_def)
  next
    case whole
    with loc v show ?thesis
      by (intro exI [of _ "pr_start r"] exI [of _ "pr_length r"] exI [of _ 0]) auto
  qed
qed

text \<open>When nothing is left to read, the buffer holds the bytes seen.\<close>

lemma read_fill_seen:
  assumes "mem_inv w" "store_inv w" "mem w buf = None" "request_ok si r" "length blk = 16384"
    and "read_next (si_idx si) r buf h w = None" "length (read_fill (si_idx si) r w blk) = 16384"
  shows "take (nat (pr_length r)) (read_fill (si_idx si) r w blk) = seen_bytes si w r"
proof -
  have "read_fill (si_idx si) r w blk ! k = view si w (nth_cell r k)" if k: "k < nat (pr_length r)" for k
  proof -
    have "lookup_block (store_buf w) (cell_loc si (nth_cell r k)) \<noteq> None"
      using assms(6) nth_cell_loc(1,3,5) [OF assms(4) k]
      by (cases "int k < head_len r") (auto simp: read_next_def Let_def split: if_splits)
    then show ?thesis
      using read_fill_nth [OF assms(1-5) k] by (auto simp: view_def)
  qed
  moreover have "nat (pr_length r) \<le> 16384"
    using assms(4) by (simp add: request_ok_def read_valid_def nat_le_iff)
  ultimately show ?thesis
    using assms(7) by (intro nth_equalityI) (auto simp: seen_bytes_def)
qed

text \<open>What \<open>async_read\<close> of a good request does: answer with the bytes seen, or post a good job.\<close>

lemma async_read_seen:
  assumes "view_inv si w" "allowed (Read mres (si_idx si) r h) w" "request_ok si r"
    and "allocate_buffer mres (mem w) (read_buffer_pool w) = (Some buf, m, p)"
    and "async_read mres (si_idx si) r h w = Inr w'"
  shows "case read_next (si_idx si) r buf h w of
      None \<Rightarrow> invoked w' = invoked w @ [ReadDone h (Some buf) storage_error_init] \<and>
        (\<exists>blk. mem w' buf = Some blk \<and> take (nat (pr_length r)) blk = seen_bytes si w r)
    | Some j \<Rightarrow> read_thread_pool w' = read_thread_pool w @ [j] \<and> rd_good si w' r j"
proof -
  have inv: "io_inv w" "mem_inv w" "store_inv w" and ok: "malloc_ok (mem w) mres" "read_valid r"
    using assms(1-3) by (simp_all add: view_inv_def io_inv_def request_ok_def)
  obtain blk where blk: "mem w buf = None" "length blk = 16384"
      "length (read_fill (si_idx si) r w blk) = 16384"
    and eq: "async_read mres (si_idx si) r h w =
      (let w1 = w\<lparr>read_buffer_pool := p, mem := (mem w)(buf \<mapsto> read_fill (si_idx si) r w blk)\<rparr>
       in Inr (case read_next (si_idx si) r buf h w of
                 None \<Rightarrow> invoke (ReadDone h (Some buf) storage_error_init) w1
               | Some j \<Rightarrow> post_read j w1))"
    using async_read_granted [OF inv(2,3) ok assms(4), of "si_idx si" h] by blast
  have q: "quiet w w'"
    by (rule async_read_quiet [OF inv(1) assms(2,5)])
  have mem': "mem w' buf = Some (read_fill (si_idx si) r w blk)"
    using eq assms(5) by (auto simp: Let_def invoke_def post_read_def split: option.splits)
  show ?thesis
  proof (cases "read_next (si_idx si) r buf h w")
    case None
    then show ?thesis
      using read_fill_seen [OF inv(2,3) blk(1) assms(3) blk(2) None blk(3)] eq assms(5) mem' by (auto simp: Let_def invoke_def)
  next
    case (Some j)
    obtain off dlen pos where rg: "read_job_range j = (si_idx si, pr_piece r, off, dlen, pos)"
        "off = pr_start r + int pos" "0 \<le> dlen" "int pos + dlen \<le> pr_length r"
      and pend: "\<forall>k < nat (pr_length r).
       (pos \<le> k \<and> k < pos + nat dlen) = (lookup_block (store_buf w) (cell_loc si (nth_cell r k)) = None)"
      using read_next_range [OF assms(3) Some] by blast
    have "if pos \<le> k \<and> k < pos + nat dlen
        then lookup_block (store_buf w') (cell_loc si (nth_cell r k)) = None
        else read_fill (si_idx si) r w blk ! k = view si w' (nth_cell r k)" if "k < nat (pr_length r)" for k
      using pend that read_fill_nth [OF inv(2,3) blk(1) assms(3) blk(2) that] quiet_view [OF inv(1) q, of si] q
      by (auto simp: view_def quiet_def)
    moreover have "read_job_buf j = buf"
      using read_next_ok [OF ok(2) Some] by simp
    ultimately have "rd_good si w' r j"
      unfolding rd_good_def using rg mem' blk(3) by blast
    then show ?thesis
      using Some eq assms(5) by (auto simp: Let_def post_read_def)
  qed
qed

lemma remove_at_distinct:
  assumes "i < length xs" "distinct (map f xs)" "y \<in> set (remove_at i xs)"
  shows "f y \<noteq> f (xs ! i)"
proof -
  have "mset (map f xs) = add_mset (f (xs ! i)) (mset (map f (remove_at i xs)))"
    by (rule nth_remove_at_eqs [OF assms(1)])
  then have "mset (map f xs) = mset (f (xs ! i) # map f (remove_at i xs))"
    by simp
  then have "distinct (f (xs ! i) # map f (remove_at i xs))"
    using assms(2) mset_eq_imp_distinct_iff by blast
  then show ?thesis
    using assms(3) by (metis distinct.simps(2) image_eqI list.set_map)
qed

lemma bufs_distinct:
  assumes "io_inv w"
  shows "distinct (map read_job_buf (read_thread_pool w) @ map hj_buf (hash_thread_pool w) @ client_bufs w @
           map wj_buf (write_thread_pool w))"
    and "a \<in> set (read_bufs w) \<Longrightarrow> mem w a \<noteq> None"
proof -
  have l: "ledger (mem w) (read_buffer_pool w) (write_buffer_pool w) (read_bufs w) (write_bufs w)"
    using assms by (simp add: io_inv_def mem_inv_ledger)
  then show "distinct (map read_job_buf (read_thread_pool w) @ map hj_buf (hash_thread_pool w) @ client_bufs w @
      map wj_buf (write_thread_pool w))"
    by (auto simp: ledger_def owns_def read_bufs_def write_bufs_def)
  show "a \<in> set (read_bufs w) \<Longrightarrow> mem w a \<noteq> None"
    using ledger_live [OF l, of a] by auto
qed

lemma malloc_fresh: "io_inv w \<Longrightarrow> malloc_ok (mem w) mres \<Longrightarrow> a \<in> set (read_bufs w) \<Longrightarrow> map_option fst mres \<noteq> Some a"
  using bufs_distinct(2) [of w a] by (auto simp: malloc_ok_def split: option.splits)

text \<open>A job that does not run keeps its buffer to itself.\<close>

lemma touched_other_read:
  assumes "io_inv w" "allowed l w" "j \<in> set (read_thread_pool w)"
    and "\<And>i. l = RunRead i \<Longrightarrow> j \<in> set (remove_at i (read_thread_pool w))"
  shows "touched l w \<noteq> Some (read_job_buf j)"
proof -
  have b: "read_job_buf j \<in> set (read_bufs w)" "read_job_buf j \<in> read_job_buf ` set (read_thread_pool w)"
    using assms(3) by (auto simp: read_bufs_def)
  note d = bufs_distinct(1) [OF assms(1)]
  show ?thesis
  proof (cases l)
    case (RunRead i)
    then show ?thesis
      using remove_at_distinct [of i "read_thread_pool w" read_job_buf j] assms(2,4) d by auto
  next
    case (RunWrite i)
    then have "wj_buf (write_thread_pool w ! i) \<in> wj_buf ` set (write_thread_pool w)"
      using assms(2) by simp
    then show ?thesis using RunWrite b(2) d by auto
  next
    case (RunHash i)
    then have "hj_buf (hash_thread_pool w ! i) \<in> hj_buf ` set (hash_thread_pool w)"
      using assms(2) by simp
    then show ?thesis using RunHash b(2) d by auto
  next
    case (ClientRelease a)
    then show ?thesis using assms(2) b(2) d by auto
  qed (use assms malloc_fresh [OF assms(1) _ b(1)] in auto)
qed

lemma disjoint_neq: "A \<inter> B = {} \<Longrightarrow> x \<in> A \<Longrightarrow> y \<in> B \<Longrightarrow> x \<noteq> y"
  by blast

lemma touched_other_hash:
  assumes "io_inv w" "allowed l w" "j \<in> set (hash_thread_pool w)"
    and "\<And>i. l = RunHash i \<Longrightarrow> j \<in> set (remove_at i (hash_thread_pool w))"
  shows "touched l w \<noteq> Some (hj_buf j)"
proof -
  have b: "hj_buf j \<in> set (read_bufs w)" "hj_buf j \<in> hj_buf ` set (hash_thread_pool w)"
    using assms(3) by (auto simp: read_bufs_def)
  note d = bufs_distinct(1) [OF assms(1)]
  show ?thesis
  proof (cases l)
    case (RunHash i)
    then show ?thesis
      using remove_at_distinct [of i "hash_thread_pool w" hj_buf j] assms(2,4) d by auto
  next
    case (RunWrite i)
    then have "wj_buf (write_thread_pool w ! i) \<in> wj_buf ` set (write_thread_pool w)"
      using assms(2) by simp
    then show ?thesis using RunWrite b(2) d by auto
  next
    case (RunRead i)
    then have "read_job_buf (read_thread_pool w ! i) \<in> read_job_buf ` set (read_thread_pool w)"
      using assms(2) by simp
    moreover have "read_job_buf ` set (read_thread_pool w) \<inter> hj_buf ` set (hash_thread_pool w) = {}"
      using d by auto
    ultimately have "read_job_buf (read_thread_pool w ! i) \<noteq> hj_buf j"
      using disjoint_neq b(2) by metis
    then show ?thesis using RunRead by simp
  next
    case (ClientRelease a)
    then show ?thesis using assms(2) b(2) d by auto
  qed (use assms malloc_fresh [OF assms(1) _ b(1)] in auto)
qed

text \<open>Which jobs a step leaves in the read pool and in the hash pool.\<close>

lemma release_pools:
  "release_read_buffer a w = Inr w' \<Longrightarrow>
   read_thread_pool w' = read_thread_pool w \<and> hash_thread_pool w' = hash_thread_pool w"
  "release_write_buffer a w = Inr w' \<Longrightarrow>
   read_thread_pool w' = read_thread_pool w \<and> hash_thread_pool w' = hash_thread_pool w"
  by (auto simp: release_read_buffer_def release_write_buffer_def bind_res_iffs post_watermarks_def)

fun pool_call :: "label \<Rightarrow> bool" where
  "pool_call (Read mres idx r h) \<longleftrightarrow> True"
| "pool_call (Hash mres idx p h) \<longleftrightarrow> True"
| "pool_call (RunRead i) \<longleftrightarrow> True"
| "pool_call (RunHash i) \<longleftrightarrow> True"
| "pool_call _ \<longleftrightarrow> False"

lemma exec_pools_same:
  assumes "exec api l w = Inr w'" "\<not> pool_call l"
  shows "read_thread_pool w' = read_thread_pool w \<and> hash_thread_pool w' = hash_thread_pool w"
proof (cases l)
  case (RunWrite i)
  then show ?thesis
    using assms(1) by (auto simp: run_write_def Let_def bind_res_iffs post_ioc_def
        split: write_stage.splits option.splits dest!: release_pools)
next
  case (ClientRelease a)
  then show ?thesis
    using assms(1) by (auto simp: client_release_def dest!: release_pools)
next
  case (NewTorrent path fs opened)
  then show ?thesis
    using assms(1) by (auto simp: new_torrent_def Let_def split: prod.splits sum.splits)
next
  case (Write mres idx r data ob h)
  then show ?thesis
    using assms(1) by (auto simp: async_write_def bind_res_iffs post_ioc_def
        split: prod.splits option.splits if_splits)
next
  case (RunIoc alive)
  then show ?thesis
    using assms(1) by (auto simp: run_ioc_def invoke_def
        split: list.splits ioc_job.splits completion.splits option.splits)
qed (use assms in \<open>auto simp: post_ioc_def remove_torrent_def passive_defs\<close>)

lemma async_read_pool:
  assumes "io_inv w" "allowed (Read mres idx r h) w" "async_read mres idx r h w = Inr w'"
  shows "hash_thread_pool w' = hash_thread_pool w \<and>
    (read_thread_pool w' = read_thread_pool w \<or>
     (\<exists>j buf m p. read_thread_pool w' = read_thread_pool w @ [j] \<and> read_valid r \<and>
        read_next idx r buf h w = Some j \<and>
        allocate_buffer mres (mem w) (read_buffer_pool w) = (Some buf, m, p)))"
proof (cases "read_valid r")
  case False
  then show ?thesis
    using assms(2,3) by (auto simp: async_read_def read_valid_def DEFAULT_BLOCK_SIZE_def invoke_def)
next
  case True
  have inv: "mem_inv w" "store_inv w" and m: "malloc_ok (mem w) mres"
    using assms(1,2) by (simp_all add: io_inv_def)
  obtain res m p where a: "allocate_buffer mres (mem w) (read_buffer_pool w) = (res, m, p)"
    by (metis prod_cases3)
  show ?thesis
  proof (cases res)
    case None
    then show ?thesis
      using a assms(3) True by (auto simp: async_read_def read_valid_def DEFAULT_BLOCK_SIZE_def invoke_def)
  next
    case (Some buf)
    from async_read_granted [OF inv m True a [unfolded Some], of idx h] show ?thesis
      using assms(3) a Some True by (auto simp: invoke_def post_read_def Let_def split: option.splits)
  qed
qed

lemma run_read_pool:
  "run_read j w = Inr w' \<Longrightarrow> read_thread_pool w' = read_thread_pool w \<and> hash_thread_pool w' = hash_thread_pool w"
  by (auto simp: run_read_def bind_res_iffs post_ioc_def split: prod.splits)

fun read_job_req :: "read_job \<Rightarrow> int \<times> peer_request" where
  "read_job_req (ReadPartial idx r block_offset len1 ret buf handler) = (idx, r)"
| "read_job_req (ReadWhole idx r buf handler) = (idx, r)"

lemma read_next_req:
  "read_next idx r buf h w = Some j \<Longrightarrow> read_job_req j = (idx, r) \<and> read_job_handler j = h \<and> read_job_buf j = buf"
  by (auto simp: read_next_def Let_def split: if_splits)

lemma rd_good_step:
  assumes "view_inv si w" "client_step api si l w w'" "request_ok si r"
    and "\<forall>c. covers r c \<longrightarrow> effect si l c = None" "rd_good si w r j" "touched l w \<noteq> Some (read_job_buf j)"
  shows "rd_good si w' r j"
proof -
  have "io_inv w" "allowed l w" "exec api l w = Inr w'"
    using assms(1,2) by (simp_all add: view_inv_def client_step_def)
  then have m: "mem w' (read_job_buf j) = mem w (read_job_buf j)"
    using exec_touch assms(6) by blast
  have "view si w' (nth_cell r k) = view si w (nth_cell r k)"
    "lookup_block (store_buf w) (cell_loc si (nth_cell r k)) = None \<Longrightarrow>
     lookup_block (store_buf w') (cell_loc si (nth_cell r k)) = None" if "k < nat (pr_length r)" for k
  proof -
    have e: "effect si l (nth_cell r k) = None"
      using assms(4) nth_cell_covers [OF assms(3) that] by blast
    note c = nth_cell_ok [OF assms(3) that]
    show "view si w' (nth_cell r k) = view si w (nth_cell r k)"
      using wb.step_seen [OF assms(1,2) c] e by simp
    show "lookup_block (store_buf w) (cell_loc si (nth_cell r k)) = None \<Longrightarrow>
        lookup_block (store_buf w') (cell_loc si (nth_cell r k)) = None"
      by (rule exec_lookup [OF assms(1,2) c e])
  qed
  then show ?thesis
    using assms(5) unfolding rd_good_def m by metis
qed

text \<open>A job of the read pool after a step was there before, with its buffer untouched, or was just posted.\<close>

lemma read_job_origin:
  assumes "io_inv w" "allowed l w" "exec api l w = Inr w'" "j \<in> set (read_thread_pool w')"
  obtains (old) "j \<in> set (read_thread_pool w)" "touched l w \<noteq> Some (read_job_buf j)"
  | (new) mres idx r h buf m p where "l = Read mres idx r h" "async_read mres idx r h w = Inr w'"
      "read_next idx r buf h w = Some j" "allocate_buffer mres (mem w) (read_buffer_pool w) = (Some buf, m, p)"
proof -
  have stays: thesis if "j \<in> set (read_thread_pool w)" "\<And>i. l = RunRead i \<Longrightarrow> j \<in> set (remove_at i (read_thread_pool w))"
    by (rule old [OF that(1) touched_other_read [OF assms(1,2) that]])
  show thesis
  proof (cases l)
    case (Read mres idx r h)
    then have "allowed (Read mres idx r h) w" "async_read mres idx r h w = Inr w'"
      using assms(2,3) by simp_all
    with Read async_read_pool [OF assms(1) this] show ?thesis
      using assms(4) stays by (auto intro: new)
  next
    case (RunRead i)
    then have "read_thread_pool w' = remove_at i (read_thread_pool w)"
      using assms(3) by (auto dest!: run_read_pool)
    then show ?thesis
      using stays RunRead assms(4) set_remove_at [of i "read_thread_pool w"] by auto
  next
    case (RunHash i)
    have "read_thread_pool w' = read_thread_pool w"
      using RunHash assms(3) by (auto simp: run_hash_def Let_def bind_res_iffs post_ioc_def split: if_splits dest!: release_pools)
    then show ?thesis using stays RunHash assms(4) by auto
  next
    case (Hash mres idx p h)
    have "read_thread_pool w' = read_thread_pool w"
      using Hash assms(3) by (auto simp: async_hash_def post_ioc_def split: prod.splits option.splits)
    then show ?thesis using stays Hash assms(4) by auto
  qed (use stays exec_pools_same [OF assms(3)] assms(4) in auto)
qed

lemma rd_track_step:
  assumes "view_inv si w" "client_step api si l w w'" "request_ok si r"
    and "\<forall>c. covers r c \<longrightarrow> effect si l c = None" "read_job_req j = (si_idx si, r)"
    and "j \<in> set (read_thread_pool w) \<Longrightarrow> rd_good si w r j" "j \<in> set (read_thread_pool w')"
  shows "rd_good si w' r j"
proof -
  have inv: "io_inv w" and l: "allowed l w" "exec api l w = Inr w'"
    using assms(1,2) by (simp_all add: view_inv_def client_step_def)
  from inv l assms(7) show ?thesis
  proof (cases rule: read_job_origin)
    case old
    then show ?thesis
      using rd_good_step [OF assms(1-4) assms(6)] by blast
  next
    case (new mres idx r' h buf m p)
    then have "idx = si_idx si" "r' = r"
      using read_next_req [OF new(3)] assms(5) by simp_all
    then show ?thesis
      using async_read_seen [OF assms(1) _ assms(3) new(4), of h w'] l(1) new by simp
  qed
qed

lemma rd_track:
  assumes "lruns (client_step api si) w ls w'" "view_inv si w" "request_ok si r"
    and "\<forall>l \<in> set ls. \<forall>c. covers r c \<longrightarrow> effect si l c = None" "read_job_req j = (si_idx si, r)"
    and "j \<in> set (read_thread_pool w) \<Longrightarrow> rd_good si w r j" "j \<in> set (read_thread_pool w')"
  shows "rd_good si w' r j"
  using assms
proof (induction rule: lruns.induct)
  case (none w)
  then show ?case by blast
next
  case (more l w w1 ls w')
  have "view_inv si w1"
    using more by (blast intro: wb.step_inv)
  moreover have "rd_good si w1 r j" if "j \<in> set (read_thread_pool w1)"
    by (rule rd_track_step [OF more.prems(1) more.hyps(1) more.prems(2)]) (use more.prems that in auto)
  ultimately show ?case
    using more by auto
qed

lemma nth_peek_block:
  "m < nat len \<Longrightarrow> 0 \<le> off \<Longrightarrow> 0 \<le> len \<Longrightarrow> peek (block_addrs A p off len) d ! m = d ! A p (nat off + m)"
  by (simp add: peek_def nat_add_distrib)

text \<open>The bytes read from the partition put the missing part of a request into its place.\<close>

lemma blit_seen:
  assumes "request_ok si r" "storage_on (sys w) (si_ps si) (si_addr si) (si_path si) d"
    and "off = pr_start r + int pos" "0 \<le> len" "int pos + len \<le> pr_length r" "length blk = 16384"
    and "\<And>k. k < nat (pr_length r) \<Longrightarrow> if pos \<le> k \<and> k < pos + nat len
           then lookup_block (store_buf w) (cell_loc si (nth_cell r k)) = None
           else blk ! k = view si w (nth_cell r k)"
  defines "new \<equiv> peek (block_addrs (si_addr si) (pr_piece r) off len) (dev_data d)"
  assumes "length new = nat len"
  shows "take (nat (pr_length r)) (blit pos new blk) = seen_bytes si w r"
proof -
  have v: "0 \<le> pr_start r" "pr_length r \<le> 16384"
    using assms(1) by (simp_all add: request_ok_def read_valid_def)
  have bd: "pos + nat len \<le> length blk"
    using assms(4-6) v by linarith
  have "blit pos new blk ! k = view si w (nth_cell r k)" if kl: "k < nat (pr_length r)" for k
  proof (cases "pos \<le> k \<and> k < pos + nat len")
    case True
    then have n: "lookup_block (store_buf w) (cell_loc si (nth_cell r k)) = None"
      using assms(7) [OF kl] by simp
    have "new ! (k - pos) = dev_data d ! si_addr si (pr_piece r) (nat off + (k - pos))"
      unfolding new_def by (rule nth_peek_block) (use True assms(3,4) v in linarith)+
    moreover have "nat off + (k - pos) = nat (pr_start r) + k"
      using True assms(3) v by linarith
    ultimately have "new ! (k - pos) = disk si w (nth_cell r k)"
      using assms(2) by (simp add: disk_def nth_cell_def storage_on_def)
    then show ?thesis
      using True bd assms(9) view_pending(2) [OF n] by (simp add: nth_blit)
  next
    case False
    then show ?thesis
      using assms(7) [OF kl] kl v assms(6,9) bd by (auto simp: nth_blit)
  qed
  then show ?thesis
    using v assms(6,9) bd by (intro nth_equalityI) (auto simp: seen_bytes_def nat_le_iff)
qed

lemma rd_finish:
  assumes "view_inv si w" "request_ok si r" "rd_good si w r j"
    and "run_read j (w\<lparr>read_thread_pool := pool\<rparr>) = Inr w'"
  shows "ioc w' = ioc w @ [Complete (ReadDone (read_job_handler j) (Some (read_job_buf j)) storage_error_init)] \<and>
    (\<exists>blk. mem w' (read_job_buf j) = Some blk \<and> take (nat (pr_length r)) blk = seen_bytes si w r)"
proof -
  obtain off len pos blk where rg: "read_job_range j = (si_idx si, pr_piece r, off, len, pos)"
      "off = pr_start r + int pos" "0 \<le> len" "int pos + len \<le> pr_length r"
    and blk: "mem w (read_job_buf j) = Some blk" "length blk = 16384"
    and k: "\<And>k. k < nat (pr_length r) \<Longrightarrow> if pos \<le> k \<and> k < pos + nat len
           then lookup_block (store_buf w) (cell_loc si (nth_cell r k)) = None
           else blk ! k = view si w (nth_cell r k)"
    using assms(3) unfolding rd_good_def by blast
  have inv: "io_inv w" "site_inv si w"
    using assms(1) by (simp_all add: view_inv_def)
  obtain d where d: "storage_on (sys w) (si_ps si) (si_addr si) (si_path si) d"
    using inv(2) by (auto simp: site_inv_def)
  have v: "0 \<le> pr_start r" "pr_length r \<le> 16384"
    using assms(2) by (simp_all add: request_ok_def read_valid_def)
  have ip: "in_piece (si_ps si) (pr_piece r) off len"
    using rg v assms(2) by (simp add: in_piece_def request_ok_def piece_size_def)
  let ?new = "peek (block_addrs (si_addr si) (pr_piece r) off len) (dev_data d)"
  have "length ?new = nat len"
    using storage_on_addrs(3) [OF d ip] by simp
  note seen = blit_seen [OF assms(2) d rg(2-4) blk(2) k this]
  have bd: "pos + nat len \<le> length blk"
    using rg v blk(2) by linarith
  have "deref_storage (si_idx si) (w\<lparr>read_thread_pool := pool\<rparr>) = Inr (si_ps si)"
    using site_deref [OF inv] by (simp add: deref_storage_def)
  then have "w' = post_ioc (ReadDone (read_job_handler j) (Some (read_job_buf j)) storage_error_init)
      (w\<lparr>read_thread_pool := pool, mem := (mem w)(read_job_buf j \<mapsto> blit pos ?new blk)\<rparr>)"
    using assms(4) rg(1) read_storage_on [where h = "mem w" and a = "read_job_buf j" and err = storage_error_init,
        OF d ip blk(1) bd]
    by (simp add: run_read_def)
  then show ?thesis
    using seen by (simp add: post_ioc_def)
qed

section \<open>Properties of the disk back end: results\<close>

text \<open>C3: A read returns the bytes seen when it was issued. When \<open>async_read\<close> gets a buffer for a request
  inside a piece, aligned or not, it either answers at once from the store buffer, or posts a job; and
  whatever runs before that job does, as long as no write to those bytes is issued, the job answers
  without error with the bytes seen at the time of the call, the pending ones included.\<close>

theorem read_returns_seen_bytes:
  assumes "view_inv si w" "allowed (Read mres (si_idx si) r h) w" "request_ok si r"
    and "allocate_buffer mres (mem w) (read_buffer_pool w) = (Some buf, m, p)"
    and "async_read mres (si_idx si) r h w = Inr w1"
  shows "case read_next (si_idx si) r buf h w of
      None \<Rightarrow> invoked w1 = invoked w @ [ReadDone h (Some buf) storage_error_init] \<and>
        (\<exists>blk. mem w1 buf = Some blk \<and> take (nat (pr_length r)) blk = seen_bytes si w r)
    | Some j \<Rightarrow> j \<in> set (read_thread_pool w1) \<and>
        (\<forall>ls w2 i w3. lruns (client_step api si) w1 ls w2 \<and>
           (\<forall>l \<in> set ls. \<forall>c. covers r c \<longrightarrow> effect si l c = None) \<and>
           i < length (read_thread_pool w2) \<and> read_thread_pool w2 ! i = j \<and> exec api (RunRead i) w2 = Inr w3 \<longrightarrow>
           ioc w3 = ioc w2 @ [Complete (ReadDone h (Some buf) storage_error_init)] \<and>
           (\<exists>blk. mem w3 buf = Some blk \<and> take (nat (pr_length r)) blk = seen_bytes si w r))"
proof (cases "read_next (si_idx si) r buf h w")
  case None
  then show ?thesis
    using async_read_seen [OF assms] by simp
next
  case (Some j)
  have start: "read_thread_pool w1 = read_thread_pool w @ [j]" "rd_good si w1 r j"
    using async_read_seen [OF assms] Some by simp_all
  have req: "read_job_req j = (si_idx si, r)" "read_job_handler j = h" "read_job_buf j = buf"
    using read_next_req [OF Some] by simp_all
  have s1: "client_step api si (Read mres (si_idx si) r h) w w1"
    using assms(2,5) by (simp add: client_step_def)
  note v1 = wb.step_inv [OF assms(1) s1]
  have "ioc w3 = ioc w2 @ [Complete (ReadDone h (Some buf) storage_error_init)] \<and>
      (\<exists>blk. mem w3 buf = Some blk \<and> take (nat (pr_length r)) blk = seen_bytes si w r)"
    if a: "lruns (client_step api si) w1 ls w2" "\<forall>l \<in> set ls. \<forall>c. covers r c \<longrightarrow> effect si l c = None"
      "i < length (read_thread_pool w2)" "read_thread_pool w2 ! i = j" "exec api (RunRead i) w2 = Inr w3" for ls w2 i w3
  proof -
    have "j \<in> set (read_thread_pool w2)"
      using a(3,4) nth_mem by blast
    then have g: "rd_good si w2 r j"
      by (rule rd_track [OF a(1) v1 assms(3) a(2) req(1) start(2)])
    have "view si w2 (nth_cell r k) = view si w (nth_cell r k)" if "k < nat (pr_length r)" for k
    proof -
      note c = nth_cell_ok [OF assms(3) that]
      have "\<forall>l \<in> set ls. effect si l (nth_cell r k) = None"
        using a(2) nth_cell_covers [OF assms(3) that] by blast
      then have "view si w2 (nth_cell r k) = view si w1 (nth_cell r k)"
        by (rule wb.run_untouched [OF a(1) v1 c])
      then show ?thesis
        using wb.step_seen [OF assms(1) s1 c] by simp
    qed
    then have "seen_bytes si w2 r = seen_bytes si w r"
      by (simp add: seen_bytes_def)
    then show ?thesis
      using rd_finish [OF wb.run_inv [OF a(1) v1] assms(3) g] a(4,5) req by simp
  qed
  with Some start(1) show ?thesis by auto
qed

theorem read_returns_seen_bytes_witness:
  "\<exists>w1 blk. async_read (Some (11, replicate 16384 0)) 0 (example_request\<lparr>pr_start := 2, pr_length := 3\<rparr>) 8 example_written = Inr w1 \<and>
     mem w1 11 = Some blk \<and> take 3 blk = seen_bytes example_site example_written (example_request\<lparr>pr_start := 2, pr_length := 3\<rparr>)"
proof -
  let ?r = "example_request\<lparr>pr_start := 2, pr_length := 3\<rparr>"
  let ?m = "Some (11, replicate 16384 0) :: (addr \<times> bytes) option"
  have a: "allowed (Read ?m (si_idx example_site) ?r 8) example_written"
    by (simp add: example_written_def example_world_def malloc_ok_def example_site_def)
  have r: "request_ok example_site ?r"
    by (simp add: request_ok_def read_valid_def example_request_def example_site_def piece_size_def
        example_storage_def ranges_storage_def)
  obtain m p where al: "allocate_buffer ?m (mem example_written) (read_buffer_pool example_written) = (Some 11, m, p)"
    by (simp add: allocate_buffer_def allocate_buffer_impl_def example_written_def example_world_def
        raw_disk_io_new_def buffer_pool_init_def pool_simps)
  obtain w1 where w1: "async_read ?m (si_idx example_site) ?r 8 example_written = Inr w1"
    using async_read_inv [OF io_reach_inv [OF example_reach(2)] a] by blast
  have n: "read_next (si_idx example_site) ?r 11 8 example_written = None"
    by (simp add: read_next_def example_site_def loc_first_def example_written_def example_request_def unaligned_def)
  show ?thesis
    using read_returns_seen_bytes [OF example_view_inv(2) a r al w1, where api = example_hasher] n w1
    by (auto simp: example_site_def)
qed

end
