(* ===== verification/Disk_Hashes.thy ===== *)
theory Disk_Hashes
  imports Disk_Results
begin

text \<open>
  The hash jobs of the disk back end: block by block, from the store buffer or from the partition,
  interleaved with everything else, and still the digest of the piece as it is seen.
\<close>

section \<open>Hash results\<close>

definition piece_bytes :: "site \<Rightarrow> world \<Rightarrow> int \<Rightarrow> bytes" where
  "piece_bytes si w p = map (\<lambda>i. view si w (p, i)) [0..<nat (piece_size (si_ps si) p)]"

text \<open>A hash job on its way: it has fed the bytes up to its offset, a block boundary, as they are seen.\<close>

definition hs_good :: "site \<Rightarrow> world \<Rightarrow> hash_job \<Rightarrow> bool" where
  "hs_good si w j \<longleftrightarrow>
     hj_error j = storage_error_init \<and> \<not> hj_done j \<and> 0 \<le> hj_i j \<and>
     hj_offset j = min (hj_i j * 16384) (piece_size (si_ps si) (hj_piece j)) \<and>
     concat (hj_chunks j) = map (\<lambda>i. view si w (hj_piece j, i)) [0..<nat (hj_offset j)]"

text \<open>The bytes of a whole block, pending or not.\<close>

lemma block_seen:
  assumes "whole_block si r" "i \<in> {nat (pr_start r)..<nat (pr_start r + pr_length r)}"
  shows "cell_loc si (pr_piece r, i) = torrent_location (si_idx si) (pr_piece r) (pr_start r)"
    and "i mod 16384 = i - nat (pr_start r)"
proof -
  have c: "covers r (pr_piece r, i)"
    using assms(2) by (simp add: covers_def)
  show "cell_loc si (pr_piece r, i) = torrent_location (si_idx si) (pr_piece r) (pr_start r)"
    using covers_iff_loc [OF assms(1) covers_cell_ok [OF assms(1) c]] c by simp
  show "i mod 16384 = i - nat (pr_start r)"
    using covers_offset(1) [OF assms(1) c] by simp
qed

lemma block_seen_pending:
  assumes "whole_block si r" "mem w b = Some x" "length x = 16384"
    and "lookup_block (store_buf w) (torrent_location (si_idx si) (pr_piece r) (pr_start r)) = Some b"
  shows "take (nat (pr_length r)) x =
    map (\<lambda>i. view si w (pr_piece r, i)) [nat (pr_start r)..<nat (pr_start r + pr_length r)]"
proof (rule nth_equalityI)
  have v: "0 \<le> pr_start r" "0 < pr_length r" "pr_length r \<le> 16384"
    using assms(1) by (auto simp: whole_block_def)
  then show "length (take (nat (pr_length r)) x) =
      length (map (\<lambda>i. view si w (pr_piece r, i)) [nat (pr_start r)..<nat (pr_start r + pr_length r)])"
    using assms(3) by (simp add: nat_add_distrib)
  fix m assume "m < length (take (nat (pr_length r)) x)"
  then have m: "m < nat (pr_length r)" by simp
  then have "nat (pr_start r) + m \<in> {nat (pr_start r)..<nat (pr_start r + pr_length r)}"
    using v by (simp add: nat_add_distrib)
  from block_seen [OF assms(1) this] show "take (nat (pr_length r)) x ! m =
      map (\<lambda>i. view si w (pr_piece r, i)) [nat (pr_start r)..<nat (pr_start r + pr_length r)] ! m"
    using assms(2,4) m v by (simp add: view_def nat_add_distrib)
qed

lemma block_seen_disk:
  assumes "whole_block si r" "os_devs (sys w) (si_path si) = Some d"
    and "lookup_block (store_buf w) (torrent_location (si_idx si) (pr_piece r) (pr_start r)) = None"
  shows "peek (block_addrs (si_addr si) (pr_piece r) (pr_start r) (pr_length r)) (dev_data d) =
    map (\<lambda>i. view si w (pr_piece r, i)) [nat (pr_start r)..<nat (pr_start r + pr_length r)]"
  using block_seen(1) [OF assms(1)] assms(2,3) by (simp add: peek_def view_def disk_def)

lemma blocks_in_piece_cover:
  assumes "0 \<le> n" "n < 2147467264" "blocks_in_piece n \<le> i"
  shows "n \<le> i * 16384"
proof -
  have "blocks_in_piece n = (n + 16383) div 16384"
    using assms(1,2) by (simp add: blocks_in_piece_def DEFAULT_BLOCK_SIZE_def wrap_simps)
  with assms(3) show ?thesis by linarith
qed

lemma map_upt_append:
  "0 \<le> a \<Longrightarrow> 0 \<le> b \<Longrightarrow> map f [0..<nat (a + b)] = map f [0..<nat a] @ map f [nat a..<nat (a + b)]"
  by (metis map_append nat_add_distrib upt_add_eq_append zero_le)

text \<open>Where the next block of a job on its way lies: a whole block of the piece.\<close>

lemma hs_good_block:
  assumes "fs_ok (ps_fs (si_ps si))" "0 \<le> hj_piece j" "hs_good si w j"
    and "hj_i j < blocks_in_piece (piece_size (si_ps si) (hj_piece j))"
  shows "whole_block si \<lparr>pr_piece = hj_piece j, pr_start = hj_offset j, pr_length = round_len (si_ps si) j\<rparr>"
    and "hj_offset j + round_len (si_ps si) j = min ((hj_i j + 1) * 16384) (piece_size (si_ps si) (hj_piece j))"
    and "0 \<le> hj_offset j" "i32 (hj_offset j + round_len (si_ps si) j) = hj_offset j + round_len (si_ps si) j"
    and "0 < round_len (si_ps si) j"
proof -
  let ?n = "piece_size (si_ps si) (hj_piece j)"
  have ps: "0 \<le> ?n" "?n < 2147467264"
    using assms(1) by (simp_all add: piece_size_def fs_ok_def)
  have j: "0 \<le> hj_i j" "hj_offset j = min (hj_i j * 16384) ?n"
    using assms(3) by (simp_all add: hs_good_def)
  then have i: "hj_offset j = hj_i j * 16384" "hj_i j * 16384 < ?n"
    using blocks_in_piece_bound [OF ps j(1) assms(4)] by simp_all
  then show "whole_block si \<lparr>pr_piece = hj_piece j, pr_start = hj_offset j, pr_length = round_len (si_ps si) j\<rparr>"
    and "hj_offset j + round_len (si_ps si) j = min ((hj_i j + 1) * 16384) ?n" "0 \<le> hj_offset j" "0 < round_len (si_ps si) j"
    using assms(2) j(1) by (auto simp: whole_block_def round_len_def)
  show "i32 (hj_offset j + round_len (si_ps si) j) = hj_offset j + round_len (si_ps si) j"
    using i j(1) ps by (intro i32_id) (auto simp: round_len_def)
qed

text \<open>A round of such a job feeds the bytes of that block as they are seen.\<close>

lemma hash_round_chunk:
  fixes j si
  defines "r \<equiv> \<lparr>pr_piece = hj_piece j, pr_start = hj_offset j, pr_length = round_len (si_ps si) j\<rparr>"
  assumes "view_inv si w" "whole_block si r" "hj_storage j = si_idx si"
    and "mem w (hj_buf j) = Some blk" "length blk = 16384" "hash_round (si_ps si) j w = Inr (j', m)"
  shows "j' = j\<lparr>hj_chunks := hj_chunks j @ [map (\<lambda>i. view si w (hj_piece j, i)) [nat (hj_offset j)..<nat (hj_offset j + round_len (si_ps si) j)]],
           hj_offset := i32 (hj_offset j + round_len (si_ps si) j), hj_i := hj_i j + 1\<rparr>"
proof -
  let ?len = "round_len (si_ps si) j"
  define c where "c = map (\<lambda>i. view si w (hj_piece j, i)) [nat (hj_offset j)..<nat (hj_offset j + ?len)]"
  have inv: "io_inv w" "site_inv si w" "mem_inv w" "store_inv w"
    using assms(2) by (simp_all add: view_inv_def io_inv_def)
  have len: "0 < ?len" "?len \<le> 16384" "0 \<le> hj_offset j"
    using assms(3) by (auto simp: whole_block_def r_def)
  show ?thesis
  proof (cases "lookup_block (store_buf w) (torrent_location (hj_storage j) (hj_piece j) (hj_offset j))")
    case (Some b)
    then obtain x where x: "mem w b = Some x" "length x = 16384"
      using store_live(2) [OF inv(3,4)] by blast
    have "take (nat ?len) x = c"
      using block_seen_pending [OF assms(3) x] Some assms(4) by (simp add: r_def c_def)
    then show ?thesis
      using hash_round_hit [OF Some x len(1,2)] assms(7) by (simp add: c_def)
  next
    case None
    obtain d where d: "storage_on (sys w) (si_ps si) (si_addr si) (si_path si) d"
      using inv(2) by (auto simp: site_inv_def)
    then have "peek (block_addrs (si_addr si) (hj_piece j) (hj_offset j) ?len) (dev_data d) = c"
      using block_seen_disk [OF assms(3), of w d] None assms(4) by (simp add: r_def c_def storage_on_def)
    moreover have ip: "in_piece (si_ps si) (hj_piece j) (hj_offset j) ?len"
      using whole_block_in_piece [OF assms(3) site_fs_ok [OF inv(1,2)]] by (simp add: r_def)
    ultimately have rd: "read_storage (si_ps si) (sys w) (Some (hj_buf j, 0)) (hj_piece j) (hj_offset j) ?len
        (hj_error j) (mem w) = Inr ((mem w)(hj_buf j \<mapsto> blit 0 c blk), ?len, hj_error j)"
      using read_storage_on [where h = "mem w" and a = "hj_buf j" and pos = 0 and err = "hj_error j", OF d ip assms(5)]
        len(2) assms(6) by simp
    have "length c = nat ?len"
      using len by (simp add: c_def nat_add_distrib)
    then have "take (nat ?len) (blit 0 c blk) = c" "length (blit 0 c blk) = 16384"
      using len(2) assms(6) by (simp_all add: blit_def)
    then show ?thesis
      using hash_round_miss [OF None rd] len assms(7) by (simp add: c_def)
  qed
qed

lemma hash_round_good:
  assumes "view_inv si w" "0 \<le> hj_piece j" "hj_storage j = si_idx si" "hs_good si w j"
    and "hj_i j < blocks_in_piece (piece_size (si_ps si) (hj_piece j))"
    and "mem w (hj_buf j) = Some blk" "length blk = 16384"
    and "hash_round (si_ps si) j w = Inr (j', m)"
  shows "hs_good si w j'"
proof -
  let ?len = "round_len (si_ps si) j"
  let ?v = "\<lambda>i. view si w (hj_piece j, i)"
  have "fs_ok (ps_fs (si_ps si))"
    using assms(1) site_fs_ok [of w si] by (simp add: view_inv_def)
  note b = hs_good_block [OF this assms(2,4,5)]
  have "concat (hj_chunks j) @ map ?v [nat (hj_offset j)..<nat (hj_offset j + ?len)] =
      map ?v [0..<nat (hj_offset j + ?len)]"
    using assms(4) map_upt_append [OF b(3) less_imp_le [OF b(5)], where f = ?v] by (simp add: hs_good_def)
  then show ?thesis
    using hash_round_chunk [OF assms(1) b(1) assms(3,6-8)] assms(4) b(2,4) by (simp add: hs_good_def)
qed

text \<open>All the hash jobs of one piece.\<close>

definition hashes_good :: "site \<Rightarrow> int \<Rightarrow> world \<Rightarrow> bool" where
  "hashes_good si p w \<longleftrightarrow>
     (\<forall>j \<in> set (hash_thread_pool w). hj_storage j = si_idx si \<and> hj_piece j = p \<longrightarrow> hs_good si w j)"

lemma hs_good_view:
  assumes "hs_good si w j" "\<And>i. int i < piece_size (si_ps si) (hj_piece j) \<Longrightarrow> view si w' (hj_piece j, i) = view si w (hj_piece j, i)"
  shows "hs_good si w' j"
  using assms by (auto simp: hs_good_def)

lemma hash_round_job:
  "hash_round st j w = Inr (j', m) \<Longrightarrow> hj_storage j' = hj_storage j \<and> hj_piece j' = hj_piece j"
  by (auto simp: hash_round_def Let_def get_def bind_res_iffs split: option.splits if_splits)

lemma run_hash_good:
  assumes "view_inv si w" "0 \<le> p" "hashes_good si p w" "i < length (hash_thread_pool w)" "run_hash api i w = Inr w'"
    and "j \<in> set (hash_thread_pool w')" "hj_storage j = si_idx si" "hj_piece j = p"
  shows "hs_good si w j"
proof (cases "j \<in> set (hash_thread_pool w)")
  case True
  then show ?thesis using assms(3,7,8) by (simp add: hashes_good_def)
next
  case False
  define k where "k = hash_thread_pool w ! i"
  have inv: "io_inv w" "site_inv si w"
    using assms(1) by (simp_all add: view_inv_def)
  have mem: "k \<in> set (hash_thread_pool w)"
    using assms(4) by (simp add: k_def)
  obtain st m where r: "deref_storage (hj_storage k) w = Inr st" "hash_round st k w = Inr (j, m)"
      "hj_i k < blocks_in_piece (piece_size st (hj_piece k))"
    using assms(5,6) False set_remove_at [of i "hash_thread_pool w"] set_update_subset_insert [of "hash_thread_pool w" i]
    by (auto simp: run_hash_def k_def [symmetric] bind_res_iffs post_ioc_def split: if_splits
        dest!: release_pools(1) subsetD [OF set_update_subset_insert])
  have jk: "hj_storage k = si_idx si" "hj_piece k = p"
    using hash_round_job [OF r(2)] assms(7,8) by simp_all
  then have st: "st = si_ps si"
    using r(1) site_deref [OF inv] by simp
  have "hj_buf k \<in> set (read_bufs w)"
    using mem by (simp add: read_bufs_def)
  then obtain blk where "mem w (hj_buf k) = Some blk" "length blk = 16384"
    using inv(1) ledger_live unfolding io_inv_def mem_inv_ledger by blast
  moreover have "hs_good si w k"
    using assms(3) mem jk by (simp add: hashes_good_def)
  ultimately show ?thesis
    using hash_round_good [OF assms(1) _ jk(1)] r(2,3) jk(2) assms(2) st by blast
qed

lemma hashes_good_step:
  assumes "view_inv si w" "client_step api si l w w'" "0 \<le> p" "\<forall>i. effect si l (p, i) = None" "hashes_good si p w"
  shows "hashes_good si p w'"
  unfolding hashes_good_def
proof (intro ballI impI)
  fix j assume j: "j \<in> set (hash_thread_pool w')" "hj_storage j = si_idx si \<and> hj_piece j = p"
  have inv: "io_inv w" and l: "allowed l w" "exec api l w = Inr w'"
    using assms(1,2) by (simp_all add: view_inv_def client_step_def)
  have ps: "0 \<le> piece_size (si_ps si) p"
    using site_fs_ok [OF inv] assms(1) by (simp add: view_inv_def piece_size_def fs_ok_def)
  have old: "hs_good si w j" if "j \<in> set (hash_thread_pool w)"
    using that assms(5) j(2) by (simp add: hashes_good_def)
  have "hs_good si w j"
  proof (cases l)
    case (Read mres idx r h)
    then show ?thesis using async_read_pool [OF inv, of mres idx r h w'] l j(1) old by auto
  next
    case (Hash mres idx q h)
    then consider "j \<in> set (hash_thread_pool w)" | "hj_i j = 0" "hj_offset j = 0" "hj_chunks j = []"
        "hj_error j = storage_error_init" "\<not> hj_done j"
      using l(2) j(1) by (auto simp: async_hash_def post_ioc_def split: prod.splits option.splits)
    then show ?thesis
      by cases (use old j(2) ps in \<open>auto simp: hs_good_def\<close>)
  next
    case (RunRead i)
    then show ?thesis using run_read_pool l(2) j(1) old by fastforce
  next
    case (RunHash i)
    then show ?thesis
      using run_hash_good [OF assms(1,3,5), of i api w' j] l j by simp
  qed (use exec_pools_same [OF l(2)] j(1) old in auto)
  then show "hs_good si w' j"
  proof (rule hs_good_view)
    fix i assume "int i < piece_size (si_ps si) (hj_piece j)"
    then have "cell_ok si (hj_piece j, i)"
      using j(2) assms(3) by (simp add: cell_ok_def)
    then show "view si w' (hj_piece j, i) = view si w (hj_piece j, i)"
      using wb.step_seen [OF assms(1,2)] assms(4) j(2) by simp
  qed
qed

lemma hashes_good_run:
  assumes "lruns (client_step api si) w ls w'" "view_inv si w" "0 \<le> p"
    and "\<forall>l \<in> set ls. \<forall>i. effect si l (p, i) = None" "hashes_good si p w"
  shows "hashes_good si p w'"
  using assms
proof (induction rule: lruns.induct)
  case (more l w w1 ls w')
  then have "view_inv si w1" "hashes_good si p w1"
    using hashes_good_step [OF more.prems(1) more.hyps(1)] by (auto intro: wb.step_inv)
  with more show ?case by simp
qed simp

lemma hash_finish:
  assumes "view_inv si w" "hashes_good si p w" "i < length (hash_thread_pool w)" "j = hash_thread_pool w ! i"
    and "hj_storage j = si_idx si" "hj_piece j = p" "run_hash api i w = Inr w'"
    and "length (hash_thread_pool w') < length (hash_thread_pool w)"
  shows "\<exists>cs qs. concat cs = piece_bytes si w p \<and>
    ioc w' = ioc w @ Complete (HashDone (hj_handler j) p (job_digest api cs) storage_error_init) # map Watermark qs"
proof -
  have inv: "io_inv w" "site_inv si w"
    using assms(1) by (simp_all add: view_inv_def)
  have ps: "0 \<le> piece_size (si_ps si) p" "piece_size (si_ps si) p < 2147467264"
    using site_fs_ok [OF inv] by (simp_all add: piece_size_def fs_ok_def)
  have g: "hs_good si w j"
    using assms(2-6) by (auto simp: hashes_good_def)
  have st: "deref_storage (hj_storage j) w = Inr (si_ps si)"
    using site_deref [OF inv] assms(5) by simp
  have fin: "\<not> hj_i j < blocks_in_piece (piece_size (si_ps si) p)"
    using assms(3,4,6-8) st g by (auto simp: run_hash_def hs_good_def Let_def bind_res_iffs)
  then have "hj_offset j = piece_size (si_ps si) p"
    using g blocks_in_piece_cover [OF ps, of "hj_i j"] assms(6) by (simp add: hs_good_def)
  then have "concat (hj_chunks j) = piece_bytes si w p"
    using g assms(6) by (simp add: hs_good_def piece_bytes_def)
  moreover have "\<exists>qs. ioc w' = ioc w @ Complete (HashDone (hj_handler j) p (job_digest api (hj_chunks j)) storage_error_init) # map Watermark qs"
    using assms(4,6,7) st fin g
    by (auto simp: run_hash_def hs_good_def Let_def release_read_buffer_def bind_res_iffs post_ioc_def post_watermarks_def)
  ultimately show ?thesis by blast
qed

text \<open>What the code relies on of \<open>libtorrent::hasher\<close>: the digest is that of the bytes fed, however they are cut.\<close>

definition hasher_ok :: "'st hasher_api \<Rightarrow> (bytes \<Rightarrow> digest) \<Rightarrow> bool" where
  "hasher_ok api sha1 \<longleftrightarrow> (\<forall>cs. job_digest api cs = sha1 (concat cs))"

text \<open>C7: A hash is that of the piece as seen. Along any run in which no write to the piece is issued and
  that starts with no hash job for it, whenever a hash job of that piece finishes it posts, without
  error, the SHA-1 of exactly the piece's bytes as seen, blocks still pending in the store buffer
  included, in spite of the other jobs storing, erasing and freeing blocks in between.\<close>

theorem hash_is_of_seen_piece:
  assumes "view_inv si w" "0 \<le> p" "\<forall>j \<in> set (hash_thread_pool w). \<not> (hj_storage j = si_idx si \<and> hj_piece j = p)"
    and "lruns (client_step api si) w ls w2" "\<forall>l \<in> set ls. \<forall>i. effect si l (p, i) = None"
    and "i < length (hash_thread_pool w2)" "j = hash_thread_pool w2 ! i" "hj_storage j = si_idx si" "hj_piece j = p"
    and "exec api (RunHash i) w2 = Inr w3" "length (hash_thread_pool w3) < length (hash_thread_pool w2)"
    and "hasher_ok api sha1"
  shows "\<exists>qs. ioc w3 = ioc w2 @
           Complete (HashDone (hj_handler j) p (sha1 (piece_bytes si w p)) storage_error_init) # map Watermark qs"
proof -
  have "hashes_good si p w"
    using assms(3) by (auto simp: hashes_good_def)
  then have g: "hashes_good si p w2"
    by (rule hashes_good_run [OF assms(4,1,2,5)])
  have "view si w2 (p, i) = view si w (p, i)" if "i < nat (piece_size (si_ps si) p)" for i
    by (rule wb.run_untouched [OF assms(4,1)]) (use assms(2,5) that in \<open>auto simp: cell_ok_def\<close>)
  then have eq: "piece_bytes si w2 p = piece_bytes si w p"
    by (simp add: piece_bytes_def)
  have "run_hash api i w2 = Inr w3"
    using assms(10) by simp
  from hash_finish [OF wb.run_inv [OF assms(4,1)] g assms(6-9) this assms(11)] show ?thesis
    using assms(12) eq by (auto simp: hasher_ok_def)
qed

text \<open>The run of the witness: the hash of the example piece, whose only block is still pending.\<close>

definition example_hash_job :: hash_job where
  "example_hash_job = \<lparr>hj_storage = 0, hj_piece = 0, hj_buf = 12, hj_handler = 6, hj_i = 0, hj_offset = 0,
     hj_chunks = [], hj_error = storage_error_init, hj_done = False\<rparr>"

definition example_hashing :: world where
  "example_hashing =
     example_written\<lparr>mem := (mem example_written)(12 \<mapsto> replicate 16384 0),
       read_buffer_pool := \<lparr>m_size = 1, m_exceeded_max_size = False, m_observers = []\<rparr>,
       hash_thread_pool := [example_hash_job]\<rparr>"

lemma example_piece_size: "piece_size (si_ps example_site) 0 = 7" "blocks_in_piece 7 = 1"
  by (simp_all add: example_site_def piece_size_def example_storage_def ranges_storage_def
      blocks_in_piece_def DEFAULT_BLOCK_SIZE_def wrap_simps)

lemma example_hash_steps:
  "allowed (Hash (Some (12, replicate 16384 0)) 0 0 6) example_written"
  "async_hash (Some (12, replicate 16384 0)) 0 0 6 example_written = example_hashing"
  "run_hash example_hasher 0 example_hashing =
     Inr (example_hashing\<lparr>mem := mem example_hashing,
       hash_thread_pool := [example_hash_job\<lparr>hj_chunks := [[1, 2, 3, 4, 5, 6, 7]], hj_offset := 7, hj_i := 1\<rparr>]\<rparr>)"
proof -
  show "allowed (Hash (Some (12, replicate 16384 0)) 0 0 6) example_written"
    by (simp add: example_written_def example_world_def malloc_ok_def)
  show "async_hash (Some (12, replicate 16384 0)) 0 0 6 example_written = example_hashing"
    by (simp add: async_hash_def allocate_buffer_def allocate_buffer_impl_def example_written_def example_world_def
        raw_disk_io_new_def buffer_pool_init_def pool_simps example_hashing_def example_hash_job_def)
  have d: "deref_storage 0 example_hashing = Inr (si_ps example_site)"
    by (simp add: deref_storage_def example_hashing_def example_written_def example_world_def example_site_def)
  have g: "lookup_block (store_buf example_hashing) (torrent_location 0 0 0) = Some 9"
    by (simp add: example_hashing_def example_written_def)
  have "heap_load (mem example_hashing) 9 0 7 = Inr [1, 2, 3, 4, 5, 6, 7]"
    by (simp add: example_hashing_def example_written_def heap_load_def blit_def)
  then have "hash_round (si_ps example_site) example_hash_job example_hashing =
      Inr (example_hash_job\<lparr>hj_chunks := [[1, 2, 3, 4, 5, 6, 7]], hj_offset := 7, hj_i := 1\<rparr>, mem example_hashing)"
    using g by (simp add: hash_round_def example_hash_job_def example_piece_size DEFAULT_BLOCK_SIZE_def get_def size_t_id i32_id)
  then show "run_hash example_hasher 0 example_hashing =
     Inr (example_hashing\<lparr>mem := mem example_hashing,
       hash_thread_pool := [example_hash_job\<lparr>hj_chunks := [[1, 2, 3, 4, 5, 6, 7]], hj_offset := 7, hj_i := 1\<rparr>]\<rparr>)"
    using d by (simp add: run_hash_def example_hashing_def example_hash_job_def example_piece_size)
qed

theorem hash_is_of_seen_piece_witness:
  "\<exists>w2 w3 qs. exec example_hasher (RunHash 0) w2 = Inr w3 \<and> ioc w3 = ioc w2 @
     Complete (HashDone 6 0 (take 20 (piece_bytes example_site example_written 0 @ replicate 20 0)) storage_error_init)
       # map Watermark qs"
proof -
  define w2 where "w2 = example_hashing\<lparr>mem := mem example_hashing,
    hash_thread_pool := [example_hash_job\<lparr>hj_chunks := [[1, 2, 3, 4, 5, 6, 7]], hj_offset := 7, hj_i := 1\<rparr>]\<rparr>"
  let ?ls = "[Hash (Some (12, replicate 16384 0)) 0 0 6, RunHash 0]"
  have c: "client_step example_hasher example_site (Hash (Some (12, replicate 16384 0)) 0 0 6) example_written example_hashing"
    "client_step example_hasher example_site (RunHash 0) example_hashing w2"
    using example_hash_steps by (simp_all add: client_step_def w2_def pool_threads_def) (simp add: example_hashing_def)
  then have run: "lruns (client_step example_hasher example_site) example_written ?ls w2"
    by (blast intro: lruns.intros)
  have v2: "view_inv example_site w2"
    by (rule wb.run_inv [OF run example_view_inv(2)])
  have p2: "hash_thread_pool w2 = [example_hash_job\<lparr>hj_chunks := [[1, 2, 3, 4, 5, 6, 7]], hj_offset := 7, hj_i := 1\<rparr>]"
    by (simp add: w2_def)
  obtain w3 where w3: "run_hash example_hasher 0 w2 = Inr w3"
    using run_hash_inv [of w2 0 example_hasher] v2 p2 by (auto simp: view_inv_def)
  have d: "deref_storage 0 w2 = Inr (si_ps example_site)"
    by (simp add: deref_storage_def w2_def example_hashing_def example_written_def example_world_def example_site_def)
  have p3: "hash_thread_pool w3 = []"
    using w3 d p2
    by (auto simp: run_hash_def example_hash_job_def example_piece_size remove_at_def post_ioc_def dest!: release_pools(1))
  have h: "hasher_ok example_hasher (\<lambda>bs. take 20 (bs @ replicate 20 0))"
  proof -
    have "foldl (@) a cs = a @ concat cs" for a :: bytes and cs
      by (induction cs arbitrary: a) auto
    then show ?thesis by (simp add: hasher_ok_def job_digest_def example_hasher_def)
  qed
  have "\<exists>qs. ioc w3 = ioc w2 @ Complete (HashDone (hj_handler (hash_thread_pool w2 ! 0)) 0
      (take 20 (piece_bytes example_site example_written 0 @ replicate 20 0)) storage_error_init) # map Watermark qs"
  proof (rule hash_is_of_seen_piece [OF example_view_inv(2) _ _ run _ _ refl _ _ _ _ h])
    show "exec example_hasher (RunHash 0) w2 = Inr w3" using w3 by simp
    show "\<forall>j \<in> set (hash_thread_pool example_written). \<not> (hj_storage j = si_idx example_site \<and> hj_piece j = 0)"
      by (simp add: example_written_def example_world_def raw_disk_io_new_def)
  qed (simp_all add: p2 p3 example_hash_job_def example_site_def)
  then show ?thesis
    using w3 by (intro exI [of _ w2] exI [of _ w3]) (simp add: p2 example_hash_job_def)
qed

end
