(* ===== verification/Disk_Backpressure.thy ===== *)
theory Disk_Backpressure
  imports Disk_Progress
begin

text \<open>
  Back-pressure of the disk back end: which observers wait in the write pool, when they are told, and
  that none is forgotten while \<open>malloc\<close> works. The gate invariant of the pool is carried along the
  runs of the back end.
\<close>

section \<open>Observers\<close>

text \<open>
  An observer that will be told: it waits in the write pool, is in a callback posted to the io context,
  or has been told. \<open>malloc_works\<close> and \<open>observer_lives\<close> are what is assumed of a step.
\<close>

definition will_wake :: "observer \<Rightarrow> world \<Rightarrow> bool" where
  "will_wake ob w \<longleftrightarrow>
     ob \<in> set (m_observers (write_buffer_pool w)) \<or>
     (\<exists>cbs. Watermark cbs \<in> set (ioc w) \<and> ob \<in> set cbs) \<or> ob \<in> set (notified w)"

fun malloc_works :: "label \<Rightarrow> bool" where
  "malloc_works (Write mres idx r data ob h) \<longleftrightarrow> mres \<noteq> None"
| "malloc_works _ \<longleftrightarrow> True"

fun observer_lives :: "observer \<Rightarrow> label \<Rightarrow> bool" where
  "observer_lives ob (RunIoc alive) \<longleftrightarrow> alive ob"
| "observer_lives ob _ \<longleftrightarrow> True"

text \<open>Steps that neither take nor give back a write buffer.\<close>

definition calm :: "world \<Rightarrow> world \<Rightarrow> bool" where
  "calm w w' \<longleftrightarrow> write_buffer_pool w' = write_buffer_pool w \<and> set (ioc w) \<subseteq> set (ioc w') \<and> notified w' = notified w"

lemma calm_updates [step_simps]:
  "calm w (post_ioc c w') \<longleftrightarrow> write_buffer_pool w' = write_buffer_pool w \<and> set (ioc w) \<subseteq> insert (Complete c) (set (ioc w')) \<and> notified w' = notified w"
  "calm w (invoke c w') \<longleftrightarrow> calm w w'" "calm w (post_read j w') \<longleftrightarrow> calm w w'"
  by (auto simp: calm_def post_ioc_def invoke_def post_read_def)

lemma release_read_calm: "release_read_buffer a w1 = Inr w' \<Longrightarrow> calm w w1 \<Longrightarrow> calm w w'"
  by (auto simp: release_read_buffer_def bind_res_iffs post_watermarks_def calm_def)

lemma async_read_calm: "async_read mres idx r h w = Inr w' \<Longrightarrow> calm w w'"
  by (auto simp: async_read_def Let_def bind_res_iffs step_simps split: prod.splits option.splits if_splits)
    (auto simp: calm_def)

lemma run_hash_calm: "run_hash api i w = Inr w' \<Longrightarrow> calm w w'"
  by (auto simp: run_hash_def Let_def bind_res_iffs split: if_splits elim!: release_read_calm)
    (auto simp: calm_def post_ioc_def)

lemma exec_calm:
  assumes "exec api l w = Inr w'"
    and "\<And>mres idx r data ob h. l \<noteq> Write mres idx r data ob h" "\<And>i. l \<noteq> RunWrite i" "\<And>alive. l \<noteq> RunIoc alive"
  shows "calm w w'"
proof (cases l)
  case (NewTorrent path fs opened)
  with assms(1) show ?thesis
    by (auto simp: new_torrent_def calm_def Let_def split: prod.splits sum.splits list.splits)
next
  case (Read mres idx r h)
  with assms(1) show ?thesis by (auto intro: async_read_calm)
next
  case (Hash mres idx p h)
  with assms(1) show ?thesis
    by (auto simp: async_hash_def step_simps split: prod.splits option.splits) (auto simp: calm_def)
next
  case (RunRead i)
  with assms(1) show ?thesis
    by (auto simp: run_read_def bind_res_iffs step_simps split: prod.splits)
next
  case (RunHash i)
  with assms(1) show ?thesis by (auto intro: run_hash_calm)
next
  case (ClientRelease buf)
  with assms(1) show ?thesis
    by (auto simp: client_release_def elim!: release_read_calm) (simp add: calm_def)
qed (use assms in \<open>auto simp: step_simps remove_torrent_def passive_defs\<close>, auto simp: calm_def)

section \<open>The gate of the write pool along a run\<close>

lemma calm_will_wake: "calm w w' \<Longrightarrow> will_wake ob w \<Longrightarrow> will_wake ob w'"
  by (auto simp: calm_def will_wake_def)

lemma async_write_pool:
  assumes "async_write mres idx r data ob h w = Inr (exceeded, w')"
  shows "\<exists>buf m'. allocate_buffer_observed mres False ob (mem w) (write_buffer_pool w) = (buf, exceeded, m', write_buffer_pool w')"
    and "set (ioc w) \<subseteq> set (ioc w')" "notified w' = notified w"
    and "length (write_thread_pool w') = length (write_thread_pool w) +
           (if fst (allocate_buffer_observed mres False ob (mem w) (write_buffer_pool w)) = None then 0 else 1)"
  using assms
  by (auto simp: async_write_def bind_res_iffs post_ioc_def split: prod.splits option.splits if_splits)

lemma observers_grow:
  assumes "allocate_buffer_observed mres False ob h p = (buf, exceeded, h', p')"
  shows "set (m_observers p) \<subseteq> set (m_observers p')" "exceeded \<Longrightarrow> ob = Some x \<Longrightarrow> x \<in> set (m_observers p')"
    "exceeded = m_exceeded_max_size p'"
  using assms
  by (auto simp: allocate_buffer_observed_def allocate_buffer_impl_def Let_def split: prod.splits option.splits if_splits)

lemma release_write_pool:
  assumes "release_write_buffer a w = Inr w'"
  shows "\<exists>m' qs. free_disk_buffer a (mem w) (write_buffer_pool w) = Inr (m', write_buffer_pool w', qs) \<and>
           ioc w' = ioc w @ map Watermark qs \<and> notified w' = notified w"
  using assms by (auto simp: release_write_buffer_def bind_res_iffs post_watermarks_def)

lemma free_posts_observers:
  assumes "free_disk_buffer a h p = Inr (h', p', qs)" "x \<in> set (m_observers p)"
  shows "x \<in> set (m_observers p') \<or> (\<exists>cbs \<in> set qs. x \<in> set cbs)"
  using assms by (auto simp: free_disk_buffer_def check_buffer_level_def split: option.splits if_splits)

lemma run_write_cases:
  assumes "run_write i w = Inr w'"
  obtains (quiet) "calm w w'"
  | (release) w1 where "release_write_buffer (wj_buf (write_thread_pool w ! i)) w1 = Inr w'" "calm w w1" "mem w1 = mem w"
proof (cases "wj_stage (write_thread_pool w ! i)")
  case (Posting error)
  then show thesis
    using assms release [of "post_ioc (WriteDone (wj_handler (write_thread_pool w ! i)) error)
      (w\<lparr>write_thread_pool := remove_at i (write_thread_pool w)\<rparr>)"]
    by (auto simp: run_write_def calm_def post_ioc_def Let_def)
qed (use assms quiet in \<open>auto simp: run_write_def Let_def bind_res_iffs calm_def split: option.splits\<close>)

lemma run_ioc_wakes:
  assumes "run_ioc alive w = Inr w'" "alive ob" "will_wake ob w"
  shows "will_wake ob w'"
  using assms
  by (auto simp: run_ioc_def will_wake_def invoke_def watermark_callback_filter
      split: list.splits ioc_job.splits completion.splits option.splits)

lemma exec_will_wake:
  assumes "exec api l w = Inr w'" "observer_lives ob l" "will_wake ob w"
  shows "will_wake ob w'"
proof (cases l)
  case (Write mres idx r data o' h)
  then obtain e where e: "async_write mres idx r data o' h w = Inr (e, w')"
    using assms(1) by auto
  with async_write_pool [OF e] observers_grow(1) assms(3) show ?thesis
    by (fastforce simp: will_wake_def)
next
  case (RunWrite i)
  then have "run_write i w = Inr w'"
    using assms(1) by simp
  then show ?thesis
  proof (cases rule: run_write_cases)
    case quiet
    then show ?thesis using assms(3) by (rule calm_will_wake)
  next
    case (release w1)
    then have "will_wake ob w1"
      using assms(3) by (auto intro: calm_will_wake)
    then show ?thesis
      using release_write_pool [OF release(1)] free_posts_observers [of _ "mem w1" "write_buffer_pool w1"]
      by (fastforce simp: will_wake_def)
  qed
next
  case (RunIoc alive)
  then show ?thesis
    using assms run_ioc_wakes [of alive w w' ob] by simp
qed (use assms exec_calm [OF assms(1)] calm_will_wake in blast)+

lemma exec_gate:
  assumes "io_inv w" "allowed l w" "malloc_works l" "exec api l w = Inr w'" "gate_inv False (write_buffer_pool w)"
  shows "gate_inv False (write_buffer_pool w')"
proof (cases l)
  case (Write mres idx r data ob h)
  then obtain e where "async_write mres idx r data ob h w = Inr (e, w')"
    using assms(4) by auto
  moreover have "pool_ok (write_buffer_pool w)"
    using assms(1) by (simp add: io_inv_def mem_inv_def)
  ultimately show ?thesis
    using async_write_pool(1) [of mres idx r data ob h w e w'] gate_inv_observed [OF assms(5)] assms(3) Write
    by fastforce
next
  case (RunWrite i)
  then have "run_write i w = Inr w'"
    using assms(4) by simp
  then show ?thesis
  proof (cases rule: run_write_cases)
    case quiet
    then show ?thesis using assms(5) by (simp add: calm_def)
  next
    case (release w1)
    have "0 < length (write_bufs w)"
      using assms(2) RunWrite by (auto simp: write_bufs_def)
    then have "pool_ok (write_buffer_pool w1)" "0 < pool_level (write_buffer_pool w1)" "gate_inv False (write_buffer_pool w1)"
      using assms(1,5) release(2) by (simp_all add: io_inv_def mem_inv_def calm_def)
    then show ?thesis
      using release_write_pool [OF release(1)] gate_inv_free by blast
  qed
next
  case (RunIoc alive)
  then show ?thesis
    using assms(4,5) by (auto simp: run_ioc_def invoke_def
        split: list.splits ioc_job.splits completion.splits option.splits)
qed (use exec_calm [OF assms(4)] assms(5) in \<open>auto simp: calm_def\<close>)

lemma io_run_gate:
  assumes "io_run api w ls w'" "io_inv w" "gate_inv False (write_buffer_pool w)" "\<forall>l \<in> set ls. malloc_works l"
  shows "io_inv w' \<and> gate_inv False (write_buffer_pool w')"
  using assms
proof (induction rule: io_run.induct)
  case (step l w w1 ls w')
  then have "io_inv w1"
    using exec_inv [OF step.prems(1) step.hyps(1), of api] by auto
  with step show ?case
    using exec_gate [OF step.prems(1) step.hyps(1)] by auto
qed simp

lemma io_run_will_wake:
  "io_run api w ls w' \<Longrightarrow> will_wake ob w \<Longrightarrow> \<forall>l \<in> set ls. observer_lives ob l \<Longrightarrow> will_wake ob w'"
  by (induction rule: io_run.induct) (auto intro: exec_will_wake)

text \<open>Without work left nobody waits, so an observer that was to be told has been.\<close>

lemma quiescent_told:
  assumes "io_inv w" "gate_inv False (write_buffer_pool w)" "quiescent w" "will_wake ob w"
  shows "ob \<in> set (notified w)"
proof -
  have "pool_level (write_buffer_pool w) = 0"
    using assms(1,3) by (simp add: io_inv_def mem_inv_def write_bufs_def quiescent_def)
  then have "m_observers (write_buffer_pool w) = []"
    using assms(2) by (auto simp: gate_inv_def)
  then show ?thesis
    using assms(3,4) by (simp add: will_wake_def quiescent_def)
qed

lemma job_label_works: "job_label l \<Longrightarrow> malloc_works l"
  by (cases l) auto

lemma gate_inv_start: "gate_inv False (write_buffer_pool (raw_disk_io_new m s))"
  by (simp add: gate_inv_def raw_disk_io_new_def buffer_pool_init_def)

section \<open>Filling the write pool\<close>

text \<open>Any number of writes up to the capacity can be pending on a torrent.\<close>

lemma fill_writes:
  assumes "io_run api w0 ls0 w1" "\<forall>l \<in> set ls0. malloc_works l" "io_inv w1" "idx \<in> live_idx w1"
    and "write_thread_pool w1 = []" "\<And>a. k \<le> a \<Longrightarrow> mem w1 a = None"
  shows "n \<le> 1024 \<Longrightarrow> \<exists>ls w. io_run api w0 ls w \<and> (\<forall>l \<in> set ls. malloc_works l) \<and> io_inv w \<and> idx \<in> live_idx w \<and>
           length (write_thread_pool w) = n \<and> (897 < n \<longrightarrow> m_exceeded_max_size (write_buffer_pool w)) \<and>
           (\<forall>a. k + n \<le> a \<longrightarrow> mem w a = None)"
proof (induction n)
  case 0
  then show ?case
    using assms by (intro exI [of _ ls0] exI [of _ w1]) simp
next
  case (Suc n)
  then obtain ls w where w: "io_run api w0 ls w" "\<forall>l \<in> set ls. malloc_works l" "io_inv w" "idx \<in> live_idx w"
    "length (write_thread_pool w) = n" "897 < n \<longrightarrow> m_exceeded_max_size (write_buffer_pool w)"
    "\<forall>a. k + n \<le> a \<longrightarrow> mem w a = None"
    by auto
  let ?l = "Write (Some (k + n, replicate 16384 0)) idx example_request [1, 2, 3, 4, 5, 6, 7] None 0"
  have al: "allowed ?l w"
    using w(4,7) by (simp add: malloc_ok_def example_request_def)
  obtain w' where w': "exec api ?l w = Inr w'" "io_inv w'"
    using exec_inv [OF w(3) al] by blast
  then obtain e where e: "async_write (Some (k + n, replicate 16384 0)) idx example_request [1, 2, 3, 4, 5, 6, 7] None 0 w = Inr (e, w')"
    by auto
  have "pool_ok (write_buffer_pool w)" "pool_level (write_buffer_pool w) = n"
    using w(3,5) by (simp_all add: io_inv_def mem_inv_def write_bufs_def)
  then obtain p' where al': "allocate_buffer_observed (Some (k + n, replicate 16384 0)) False None (mem w) (write_buffer_pool w) =
      (Some (k + n), m_exceeded_max_size p', (mem w)(k + n \<mapsto> replicate 16384 0), p')"
    "m_exceeded_max_size p' = (m_exceeded_max_size (write_buffer_pool w) \<or> 896 < n)"
    using Suc.prems
    by (cases "m_exceeded_max_size (write_buffer_pool w)"; cases "896 < n")
      (simp_all add: allocate_buffer_observed_def allocate_buffer_impl_def Let_def pool_simps)
  have "length (write_thread_pool w') = Suc n" "897 < Suc n \<longrightarrow> m_exceeded_max_size (write_buffer_pool w')"
    "idx \<in> live_idx w'" "\<forall>a. k + Suc n \<le> a \<longrightarrow> mem w' a = None"
    using e al' w by (auto simp: async_write_def bind_res_iffs heap_store_def example_request_def split: option.splits if_splits)
  moreover have "io_run api w0 (ls @ [?l]) w'"
    by (rule io_run_append [OF w(1) io_run.step [OF al w'(1) io_run.none]])
  ultimately show ?case
    using w(2) w'(2) by (intro exI [of _ "ls @ [?l]"] exI [of _ w']) auto
qed

lemma example_filled:
  "\<exists>ls w. io_run api (raw_disk_io_new Map.empty example_os) ls w \<and> (\<forall>l \<in> set ls. malloc_works l) \<and> io_inv w \<and>
     0 \<in> live_idx w \<and> m_exceeded_max_size (write_buffer_pool w) \<and> (\<forall>a. 1000 \<le> a \<longrightarrow> mem w a = None)"
proof -
  let ?l = "NewTorrent ''/dev/sda1'' (ranges_storage [(2, 3), (8, 4)] 7) 4"
  have run: "io_run api (raw_disk_io_new Map.empty example_os) [?l] example_world"
    by (rule io_run.step [OF example_open_step io_run.none])
  have w: "0 \<in> live_idx example_world" "write_thread_pool example_world = []" "\<And>a. mem example_world a = None"
    by (simp_all add: example_world_def raw_disk_io_new_def)
  have "\<exists>ls w. io_run api (raw_disk_io_new Map.empty example_os) ls w \<and> (\<forall>l \<in> set ls. malloc_works l) \<and> io_inv w \<and>
      0 \<in> live_idx w \<and> length (write_thread_pool w) = 1000 \<and> (897 < (1000::nat) \<longrightarrow> m_exceeded_max_size (write_buffer_pool w)) \<and>
      (\<forall>a. 0 + 1000 \<le> a \<longrightarrow> mem w a = None)"
    by (rule fill_writes [OF run _ io_reach_inv [OF example_reach(1)] w]) simp_all
  then show ?thesis by auto
qed

section \<open>Property of the disk back end: back-pressure\<close>

text \<open>C12: Back-pressure is released. While \<open>malloc\<close> works, a client that \<open>async_write\<close> tells to stop is told
  to go on: as soon as nothing is left to do its observer has been called, whatever ran in between
  while it lived, and the jobs and the io context get there by themselves in a bounded number of
  steps. A client that is not told to stop leaves no observer waiting.\<close>

theorem backpressure_released:
  assumes "io_run api (raw_disk_io_new m s) ls w" "\<forall>l \<in> set ls. malloc_works l" "mres \<noteq> None"
    and "allowed (Write mres idx r data (Some ob) h) w"
    and "async_write mres idx r data (Some ob) h w = Inr (exceeded, w1)"
  shows "if exceeded
         then (\<forall>ls' w'. io_run api w1 ls' w' \<and> (\<forall>l \<in> set ls'. malloc_works l \<and> observer_lives ob l) \<and> quiescent w' \<longrightarrow>
                 ob \<in> set (notified w')) \<and>
              (\<exists>ls' w'. io_run api w1 ls' w' \<and> length ls' \<le> work w1 \<and> (\<forall>l \<in> set ls'. job_label l) \<and>
                 ob \<in> set (notified w'))
         else m_observers (write_buffer_pool w1) = []"
proof -
  let ?l = "Write mres idx r data (Some ob) h"
  have ex: "exec api ?l w = Inr w1"
    using assms(5) by simp
  have run: "io_run api (raw_disk_io_new m s) (ls @ [?l]) w1"
    by (rule io_run_append [OF assms(1) io_run.step [OF assms(4) ex io_run.none]])
  have inv: "io_inv w1" and gate: "gate_inv False (write_buffer_pool w1)"
    using io_run_gate [OF run io_inv_init gate_inv_start] assms(2,3) by simp_all
  obtain buf m' where al: "allocate_buffer_observed mres False (Some ob) (mem w) (write_buffer_pool w) =
      (buf, exceeded, m', write_buffer_pool w1)"
    using async_write_pool(1) [OF assms(5)] by blast
  show ?thesis
  proof (cases exceeded)
    case True
    then have wake: "will_wake ob w1"
      using observers_grow(2) [OF al] by (simp add: will_wake_def)
    have told: "ob \<in> set (notified w')"
      if "io_run api w1 ls' w'" "\<forall>l \<in> set ls'. malloc_works l \<and> observer_lives ob l" "quiescent w'" for ls' w'
      using io_run_gate [OF that(1) inv gate] io_run_will_wake [OF that(1) wake] quiescent_told that by blast
    obtain ls' w' where d: "io_run api w1 ls' w'" "length ls' \<le> work w1" "\<forall>l \<in> set ls'. job_label l"
        "\<forall>alive. RunIoc alive \<in> set ls' \<longrightarrow> alive = (\<lambda>_. True)" "quiescent w'"
      using drains [OF inv] by blast
    then have "\<forall>l \<in> set ls'. malloc_works l \<and> observer_lives ob l"
      by (metis job_label_works observer_lives.elims(3))
    then have "ob \<in> set (notified w')"
      by (rule told [OF d(1) _ d(5)])
    with True d(1-3) told show ?thesis by simp blast
  next
    case False
    then show ?thesis
      using gate observers_grow(3) [OF al] by (simp add: gate_inv_def)
  qed
qed

text \<open>The witness: with 1000 writes pending the next one is told to stop.\<close>

theorem backpressure_released_witness:
  "\<exists>w w1 ls' w'. async_write (Some (2000, replicate 16384 0)) 0 example_request [1, 2, 3, 4, 5, 6, 7] (Some 7) 0 w = Inr (True, w1) \<and>
     io_run example_hasher w1 ls' w' \<and> 7 \<in> set (notified w')"
proof -
  obtain ls w where w: "io_run example_hasher (raw_disk_io_new Map.empty example_os) ls w" "\<forall>l \<in> set ls. malloc_works l"
    "io_inv w" "0 \<in> live_idx w" "m_exceeded_max_size (write_buffer_pool w)" "\<forall>a. 1000 \<le> a \<longrightarrow> mem w a = None"
    using example_filled by blast
  let ?l = "Write (Some (2000, replicate 16384 0)) 0 example_request [1, 2, 3, 4, 5, 6, 7] (Some 7) 0"
  have al: "allowed ?l w"
    using w(4,6) by (simp add: malloc_ok_def example_request_def)
  obtain w1 where "exec example_hasher ?l w = Inr w1"
    using exec_inv [OF w(3) al] by blast
  then obtain e where e: "async_write (Some (2000, replicate 16384 0)) 0 example_request [1, 2, 3, 4, 5, 6, 7] (Some 7) 0 w = Inr (e, w1)"
    by auto
  have "e"
    using async_write_pool(1) [OF e] w(5)
    by (auto simp: allocate_buffer_observed_def allocate_buffer_impl_def Let_def split: prod.splits option.splits if_splits)
  then show ?thesis
    using backpressure_released [OF w(1,2) _ al e] e by auto
qed

section \<open>An observer that is forgotten\<close>

text \<open>
  An observer nobody knows, and one that waits with no write buffer out: only the return of a write buffer posts the
  observers of the write pool, and the read pool has its own.
\<close>

definition unknown_observer :: "observer \<Rightarrow> world \<Rightarrow> bool" where
  "unknown_observer ob w \<longleftrightarrow>
     ob \<notin> set (m_observers (read_buffer_pool w)) \<and> (\<forall>cbs. Watermark cbs \<in> set (ioc w) \<longrightarrow> ob \<notin> set cbs) \<and>
     ob \<notin> set (notified w)"

definition stranded :: "observer \<Rightarrow> world \<Rightarrow> bool" where
  "stranded ob w \<longleftrightarrow>
     write_thread_pool w = [] \<and> ob \<in> set (m_observers (write_buffer_pool w)) \<and> unknown_observer ob w"

fun gets_write_buffer :: "label \<Rightarrow> bool" where
  "gets_write_buffer (Write mres idx r data ob h) \<longleftrightarrow> mres \<noteq> None"
| "gets_write_buffer _ \<longleftrightarrow> False"

text \<open>Steps that do not touch the write pool and post nothing but completions and the observers of the read pool.\<close>

definition aside :: "world \<Rightarrow> world \<Rightarrow> bool" where
  "aside w w' \<longleftrightarrow>
     write_thread_pool w' = write_thread_pool w \<and> write_buffer_pool w' = write_buffer_pool w \<and> notified w' = notified w \<and>
     set (m_observers (read_buffer_pool w')) \<subseteq> set (m_observers (read_buffer_pool w)) \<and>
     (\<forall>cbs. Watermark cbs \<in> set (ioc w') \<longrightarrow>
        Watermark cbs \<in> set (ioc w) \<or> set cbs \<subseteq> set (m_observers (read_buffer_pool w)))"

lemma aside_stranded: "aside w w' \<Longrightarrow> stranded ob w \<Longrightarrow> stranded ob w'"
  by (auto simp: aside_def stranded_def unknown_observer_def)

lemma aside_updates [step_simps]:
  "aside w (post_ioc c w') \<longleftrightarrow> aside w w'" "aside w (invoke c w') \<longleftrightarrow> aside w w'" "aside w (post_read j w') \<longleftrightarrow> aside w w'"
  by (auto simp: aside_def post_ioc_def invoke_def post_read_def)

lemma allocate_observers:
  "allocate_buffer mres h p = (buf, h', p') \<Longrightarrow> m_observers p' = m_observers p"
  by (auto simp: allocate_buffer_def allocate_buffer_impl_def Let_def split: if_splits option.splits)

lemma release_read_aside:
  assumes "release_read_buffer a w1 = Inr w'" "aside w w1"
  shows "aside w w'"
proof -
  obtain h p qs where f: "free_disk_buffer a (mem w1) (read_buffer_pool w1) = Inr (h, p, qs)"
      "w' = post_watermarks qs (w1\<lparr>mem := h, read_buffer_pool := p\<rparr>)"
    using assms(1) by (auto simp: release_read_buffer_def bind_res_iffs)
  have "set (m_observers p) \<subseteq> set (m_observers (read_buffer_pool w1))"
    "\<forall>cbs \<in> set qs. cbs = m_observers (read_buffer_pool w1)"
    using f(1) by (auto simp: free_disk_buffer_def check_buffer_level_def split: option.splits if_splits)
  then show ?thesis
    using assms(2) f(2) by (auto simp: aside_def post_watermarks_def)
qed

lemma async_read_aside: "async_read mres idx r h w = Inr w' \<Longrightarrow> aside w w'"
  by (auto simp: async_read_def Let_def bind_res_iffs step_simps split: prod.splits option.splits if_splits)
    (auto simp: aside_def dest: allocate_observers)

lemma run_hash_aside: "run_hash api i w = Inr w' \<Longrightarrow> aside w w'"
  by (auto simp: run_hash_def Let_def bind_res_iffs split: if_splits elim!: release_read_aside)
    (auto simp: aside_def post_ioc_def)

lemma exec_aside:
  assumes "exec api l w = Inr w'"
    and "\<And>mres idx r data ob h. l \<noteq> Write mres idx r data ob h" "\<And>i. l \<noteq> RunWrite i" "\<And>alive. l \<noteq> RunIoc alive"
  shows "aside w w'"
proof (cases l)
  case (NewTorrent path fs opened)
  with assms(1) show ?thesis
    by (auto simp: new_torrent_def aside_def Let_def split: prod.splits sum.splits list.splits)
next
  case (Read mres idx r h)
  with assms(1) show ?thesis by (auto intro: async_read_aside)
next
  case (Hash mres idx p h)
  with assms(1) show ?thesis
    by (auto simp: async_hash_def step_simps split: prod.splits option.splits) (auto simp: aside_def dest: allocate_observers)
next
  case (RunRead i)
  with assms(1) show ?thesis
    by (auto simp: run_read_def bind_res_iffs step_simps split: prod.splits) (auto simp: aside_def)
next
  case (RunHash i)
  with assms(1) show ?thesis by (auto intro: run_hash_aside)
next
  case (ClientRelease buf)
  with assms(1) show ?thesis
    by (auto simp: client_release_def elim!: release_read_aside) (simp add: aside_def)
qed (use assms in \<open>auto simp: step_simps remove_torrent_def passive_defs\<close>, auto simp: aside_def)

text \<open>A write without a buffer adds its observer, if the flag is up, and goes straight to the partition.\<close>

lemma write_without_buffer:
  assumes "async_write None idx r data ob h w = Inr (exceeded, w')"
  shows "exceeded" "write_thread_pool w' = write_thread_pool w" "read_buffer_pool w' = read_buffer_pool w" "notified w' = notified w"
    and "\<And>cbs. Watermark cbs \<in> set (ioc w') \<Longrightarrow> Watermark cbs \<in> set (ioc w)"
    and "set (m_observers (write_buffer_pool w')) = set (m_observers (write_buffer_pool w)) \<union> set_option ob"
  using assms
  by (auto simp: async_write_def allocate_buffer_observed_def allocate_buffer_impl_def Let_def bind_res_iffs post_ioc_def
      split: prod.splits option.splits if_splits)

lemma exec_stranded:
  assumes "allowed l w" "exec api l w = Inr w'" "\<not> gets_write_buffer l" "stranded ob w"
  shows "stranded ob w'"
proof (cases l)
  case (Write mres idx r data o' h)
  with assms(3) have "mres = None" by (cases mres) simp_all
  with Write obtain e where "async_write None idx r data o' h w = Inr (e, w')"
    using assms(2) by auto
  from write_without_buffer [OF this] show ?thesis
    using assms(4) by (auto simp: stranded_def unknown_observer_def)
next
  case (RunWrite i)
  then show ?thesis
    using assms(1,4) by (simp add: stranded_def)
next
  case (RunIoc alive)
  then show ?thesis
    using assms(2,4) by (auto simp: run_ioc_def stranded_def unknown_observer_def invoke_def watermark_callback_filter
        split: list.splits ioc_job.splits completion.splits option.splits)
qed (use assms exec_aside [OF assms(2)] aside_stranded in blast)+

lemma io_run_stranded:
  "io_run api w ls w' \<Longrightarrow> stranded ob w \<Longrightarrow> \<forall>l \<in> set ls. \<not> gets_write_buffer l \<Longrightarrow> stranded ob w'"
  by (induction rule: io_run.induct) (auto intro: exec_stranded)

text \<open>C29: Without the assumption on \<open>malloc\<close> a wake-up can be lost. When \<open>malloc\<close> fails for a write while no write
  buffer is out, the client is told to wait, and its observer is not called before a later write gets a buffer:
  whatever jobs, io context steps, reads, hashes and further writes without a buffer run, it is still queued and has
  not been told, also when nothing is left to do, and the jobs do get there.\<close>

theorem malloc_failure_strands_observer:
  assumes "io_inv w" "write_thread_pool w = []" "unknown_observer ob w" "allowed (Write None idx r data (Some ob) h) w"
    and "async_write None idx r data (Some ob) h w = Inr (exceeded, w1)"
  shows "exceeded \<and>
    (\<forall>ls w'. io_run api w1 ls w' \<and> (\<forall>l \<in> set ls. \<not> gets_write_buffer l) \<longrightarrow>
       ob \<in> set (m_observers (write_buffer_pool w')) \<and> ob \<notin> set (notified w')) \<and>
    (\<exists>ls w'. io_run api w1 ls w' \<and> (\<forall>l \<in> set ls. job_label l) \<and> quiescent w' \<and>
       ob \<in> set (m_observers (write_buffer_pool w')) \<and> ob \<notin> set (notified w'))"
proof -
  let ?waits = "\<lambda>w'. ob \<in> set (m_observers (write_buffer_pool w')) \<and> ob \<notin> set (notified w')"
  note wr = write_without_buffer [OF assms(5)]
  have w1: "stranded ob w1"
    using assms(2,3) wr by (simp add: stranded_def unknown_observer_def)
  have str: "?waits w'" if "io_run api w1 ls w'" "\<forall>l \<in> set ls. \<not> gets_write_buffer l" for ls w'
  proof -
    have "stranded ob w'"
      by (rule io_run_stranded [OF that(1) w1 that(2)])
    then show ?thesis
      by (simp add: stranded_def unknown_observer_def)
  qed
  have "io_inv w1"
    using async_write_inv [OF assms(1,4)] assms(5) by auto
  then obtain ls w' where d: "io_run api w1 ls w'" "\<forall>l \<in> set ls. job_label l" "quiescent w'"
    using drains by blast
  have "\<not> gets_write_buffer l" if "job_label l" for l
    using that by (cases l) simp_all
  with d(2) have "?waits w'"
    by (intro str [OF d(1)]) blast
  with d have "\<exists>ls w'. io_run api w1 ls w' \<and> (\<forall>l \<in> set ls. job_label l) \<and> quiescent w' \<and> ?waits w'"
    by blast
  with wr(1) str show ?thesis by blast
qed

theorem malloc_failure_strands_observer_witness:
  "\<exists>w1 ls w'. async_write None 0 example_request [1, 2, 3, 4, 5, 6, 7] (Some 7) 5 example_world = Inr (True, w1) \<and>
     io_run example_hasher w1 ls w' \<and> quiescent w' \<and> 7 \<in> set (m_observers (write_buffer_pool w')) \<and> 7 \<notin> set (notified w')"
proof -
  let ?l = "Write None 0 example_request [1, 2, 3, 4, 5, 6, 7] (Some 7) 5"
  have inv: "io_inv example_world"
    by (rule io_reach_inv [OF example_reach(1) [of example_hasher]])
  have w: "write_thread_pool example_world = []" "allowed ?l example_world" "unknown_observer ob example_world" for ob
    by (simp_all add: example_world_def raw_disk_io_new_def malloc_ok_def example_request_def unknown_observer_def buffer_pool_init_def)
  obtain w1 where "exec example_hasher ?l example_world = Inr w1"
    using exec_inv [OF inv w(2)] by blast
  then obtain e where e: "async_write None 0 example_request [1, 2, 3, 4, 5, 6, 7] (Some 7) 5 example_world = Inr (e, w1)"
    by auto
  note fails = malloc_failure_strands_observer [OF inv w(1,3,2) e, of example_hasher]
  then have "e" by (rule conjunct1)
  with e fails show ?thesis by auto
qed

end
