(* ===== verification/Disk_Destroy.thy ===== *)
theory Disk_Destroy
  imports Disk_View
begin

text \<open>
  The destructor of \<open>raw_disk_io\<close>, which joins the three thread pools: it ends, and what was pending is
  on the partition afterwards.
\<close>

section \<open>Joining the thread pools\<close>

text \<open>
  While the destructor of \<open>raw_disk_io\<close> waits, only the threads of the pools run. Joining a pool takes
  until its queue is empty; the three pools are joined one after the other.
\<close>

definition join_pool :: "(world \<Rightarrow> 'j list) \<Rightarrow> 'st hasher_api \<Rightarrow> world \<Rightarrow> label list \<Rightarrow> world \<Rightarrow> bool" where
  "join_pool pool api w ls w' \<longleftrightarrow> io_run api w ls w' \<and> (\<forall>l \<in> set ls. pool_label l) \<and> pool w' = []"

definition raw_disk_io_delete :: "'st hasher_api \<Rightarrow> world \<Rightarrow> label list \<Rightarrow> world \<Rightarrow> bool" where
  "raw_disk_io_delete api w ls w' \<longleftrightarrow>
     (\<exists>ls1 w1 ls2 w2 ls3. ls = ls1 @ ls2 @ ls3 \<and> join_pool read_thread_pool api w ls1 w1 \<and>
        join_pool write_thread_pool api w1 ls2 w2 \<and> join_pool hash_thread_pool api w2 ls3 w')"

text \<open>A step of a pool thread adds no job, calls no handler and tells no observer.\<close>

definition winds_down :: "world \<Rightarrow> world \<Rightarrow> bool" where
  "winds_down w w' \<longleftrightarrow>
     length (read_thread_pool w') \<le> length (read_thread_pool w) \<and>
     length (write_thread_pool w') \<le> length (write_thread_pool w) \<and>
     length (hash_thread_pool w') \<le> length (hash_thread_pool w) \<and>
     invoked w' = invoked w \<and> notified w' = notified w \<and> client_bufs w' = client_bufs w"

lemma winds_down_release:
  "release_read_buffer a w1 = Inr w' \<Longrightarrow> winds_down w w1 \<Longrightarrow> winds_down w w'"
  "release_write_buffer a w1 = Inr w' \<Longrightarrow> winds_down w w1 \<Longrightarrow> winds_down w w'"
  by (auto simp: release_read_buffer_def release_write_buffer_def bind_res_iffs post_watermarks_def winds_down_def)

lemma length_remove_at_le: "length (remove_at i xs) \<le> length xs"
  by (simp add: remove_at_def)

lemma pool_step_winds_down:
  assumes "exec api l w = Inr w'" "pool_label l"
  shows "winds_down w w'"
proof (cases l)
  case (RunRead i)
  with assms(1) show ?thesis
    by (auto simp: run_read_def bind_res_iffs post_ioc_def winds_down_def length_remove_at_le split: prod.splits)
next
  case (RunWrite i)
  with assms(1) show ?thesis
    by (auto simp: run_write_def Let_def bind_res_iffs post_ioc_def winds_down_def length_remove_at_le
        elim!: winds_down_release(2) [of _ _ _ w, unfolded winds_down_def] split: write_stage.splits option.splits)
next
  case (RunHash i)
  with assms(1) show ?thesis
    by (auto simp: run_hash_def Let_def bind_res_iffs post_ioc_def winds_down_def length_remove_at_le
        elim!: winds_down_release(1) [of _ _ _ w, unfolded winds_down_def] split: if_splits)
qed (use assms in simp_all)

lemma pool_run_winds_down:
  "io_run api w ls w' \<Longrightarrow> \<forall>l \<in> set ls. pool_label l \<Longrightarrow> winds_down w w'"
proof (induction rule: io_run.induct)
  case (step l w w1 ls w')
  then have "winds_down w w1" "winds_down w1 w'"
    using pool_step_winds_down [OF step.hyps(2)] by auto
  then show ?case by (simp add: winds_down_def)
qed (simp add: winds_down_def)

text \<open>The waiting cannot go on forever, whatever the threads do, and is never stuck.\<close>

lemma pool_run_bounded:
  "io_run api w ls w' \<Longrightarrow> \<forall>l \<in> set ls. pool_label l \<Longrightarrow> length ls + work w' \<le> work w"
proof (induction rule: io_run.induct)
  case (step l w w1 ls w')
  have "internal l w"
    using step.prems by (cases l) auto
  then have "work w1 < work w"
    by (rule internal_work [OF step.hyps(1) _ step.hyps(2)])
  with step show ?case by auto
qed simp

lemma join_pool_exists:
  assumes "io_inv w" "\<And>w. pool w \<noteq> [] \<Longrightarrow> internal l w \<and> allowed l w" "pool_label l"
  shows "\<exists>ls w'. join_pool pool api w ls w'"
proof -
  have "\<exists>ls w'. io_run api w ls w' \<and> length ls \<le> work w \<and>
      (\<forall>l \<in> set ls. pool_label l \<and> job_label l \<and> issued l = []) \<and> pool w' = []"
    using assms(2,3) by (intro drains_by [OF assms(1)]) blast
  then show ?thesis by (auto simp: join_pool_def)
qed

lemma io_run_inv: "io_run api w ls w' \<Longrightarrow> io_inv w \<Longrightarrow> io_inv w'"
proof (induction rule: io_run.induct)
  case (step l w w1 ls w')
  then show ?case using exec_inv [OF step.prems step.hyps(1), of api] by auto
qed simp

lemma delete_exists:
  assumes "io_inv w"
  shows "\<exists>ls w'. raw_disk_io_delete api w ls w'"
proof -
  obtain ls1 w1 where 1: "join_pool read_thread_pool api w ls1 w1"
    using join_pool_exists [OF assms, of read_thread_pool "RunRead 0" api] by (auto simp: pool_threads_def)
  then have "io_inv w1"
    using assms io_run_inv by (auto simp: join_pool_def)
  then obtain ls2 w2 where 2: "join_pool write_thread_pool api w1 ls2 w2"
    using join_pool_exists [of w1 write_thread_pool "RunWrite 0" api] by (auto simp: pool_threads_def)
  then have "io_inv w2"
    using \<open>io_inv w1\<close> io_run_inv by (auto simp: join_pool_def)
  then obtain ls3 w3 where "join_pool hash_thread_pool api w2 ls3 w3"
    using join_pool_exists [of w2 hash_thread_pool "RunHash 0" api] by (auto simp: pool_threads_def)
  with 1 2 show ?thesis
    unfolding raw_disk_io_delete_def by blast
qed

lemma delete_run:
  assumes "raw_disk_io_delete api w ls w'"
  shows "io_run api w ls w'" "\<forall>l \<in> set ls. pool_label l"
    and "read_thread_pool w' = []" "write_thread_pool w' = []" "hash_thread_pool w' = []"
proof -
  obtain ls1 w1 ls2 w2 ls3 where ls: "ls = ls1 @ ls2 @ ls3"
    and r: "io_run api w ls1 w1" "io_run api w1 ls2 w2" "io_run api w2 ls3 w'"
    and l: "\<forall>l \<in> set ls1. pool_label l" "\<forall>l \<in> set ls2. pool_label l" "\<forall>l \<in> set ls3. pool_label l"
    and e: "read_thread_pool w1 = []" "write_thread_pool w2 = []" "hash_thread_pool w' = []"
    using assms unfolding raw_disk_io_delete_def join_pool_def by blast
  show "io_run api w ls w'"
    unfolding ls by (intro io_run_append [OF r(1)] io_run_append [OF r(2)] r(3))
  show "\<forall>l \<in> set ls. pool_label l"
    using l ls by auto
  show "read_thread_pool w' = []" "write_thread_pool w' = []" "hash_thread_pool w' = []"
    using pool_run_winds_down [OF r(2) l(2)] pool_run_winds_down [OF r(3) l(3)] e by (auto simp: winds_down_def)
qed

section \<open>Property of the disk back end: destruction\<close>

text \<open>C11: The destructor flushes. It can always finish, and under every schedule of the pool threads it does
  so within a bounded number of steps; when it has finished no job is left, all write buffers are
  given back, no handler was called and no observer told meanwhile (their completions stay in the io
  context), and the partition holds every byte that was seen before, the pending ones included.\<close>

theorem destructor_stores_writes:
  assumes "view_inv si w"
  shows "(\<exists>ls w'. raw_disk_io_delete api w ls w') \<and>
    (\<forall>ls w'. raw_disk_io_delete api w ls w' \<longrightarrow>
       length ls \<le> work w \<and>
       read_thread_pool w' = [] \<and> write_thread_pool w' = [] \<and> hash_thread_pool w' = [] \<and>
       m_size (write_buffer_pool w') = 0 \<and> invoked w' = invoked w \<and> notified w' = notified w \<and>
       (\<forall>c. cell_ok si c \<longrightarrow> disk si w' c = view si w c))"
proof
  have inv: "io_inv w"
    using assms by (simp add: view_inv_def)
  then show "\<exists>ls w'. raw_disk_io_delete api w ls w'"
    by (rule delete_exists)
  show "\<forall>ls w'. raw_disk_io_delete api w ls w' \<longrightarrow>
       length ls \<le> work w \<and>
       read_thread_pool w' = [] \<and> write_thread_pool w' = [] \<and> hash_thread_pool w' = [] \<and>
       m_size (write_buffer_pool w') = 0 \<and> invoked w' = invoked w \<and> notified w' = notified w \<and>
       (\<forall>c. cell_ok si c \<longrightarrow> disk si w' c = view si w c)"
  proof (intro allI impI)
    fix ls w' assume d: "raw_disk_io_delete api w ls w'"
    note run = delete_run [OF d]
    have jobs: "\<forall>l \<in> set ls. job_label l"
      using run(2) by (auto elim!: pool_label.elims)
    have "mem_inv w'"
      using io_run_inv [OF run(1) inv] by (simp add: io_inv_def)
    then have "m_size (write_buffer_pool w') = 0"
      using run(4) by (intro lvl_zero_iff [THEN iffD1]) (simp_all add: mem_inv_def write_bufs_def)
    moreover have "disk si w' c = view si w c" if "cell_ok si c" for c
      using stored_view [OF assms run(1) jobs run(4) that] .
    ultimately show "length ls \<le> work w \<and>
       read_thread_pool w' = [] \<and> write_thread_pool w' = [] \<and> hash_thread_pool w' = [] \<and>
       m_size (write_buffer_pool w') = 0 \<and> invoked w' = invoked w \<and> notified w' = notified w \<and>
       (\<forall>c. cell_ok si c \<longrightarrow> disk si w' c = view si w c)"
      using run(3-5) pool_run_bounded [OF run(1,2)] pool_run_winds_down [OF run(1,2)] by (simp add: winds_down_def)
  qed
qed

theorem destructor_stores_writes_witness:
  "\<exists>ls w'. raw_disk_io_delete example_hasher example_written ls w' \<and> write_thread_pool w' = [] \<and>
     disk example_site w' (0, 5) = 6 \<and> disk example_site example_written (0, 5) = 0"
proof -
  have ok: "cell_ok example_site (0, 5)"
    by (simp add: cell_ok_def example_site_def piece_size_def example_storage_def ranges_storage_def)
  have "view example_site example_written (0, 5) = 6" "disk example_site example_written (0, 5) = 0"
    by (simp_all add: view_def cell_loc_def disk_def example_written_def example_world_def example_site_def example_os_def
        example_addr_def blit_def)
  with destructor_stores_writes [OF example_view_inv(2), of example_hasher] ok show ?thesis
    by metis
qed

end
