(* ===== verification/Polling.thy ===== *)
theory Polling
  imports Prelude
begin

text \<open>
  Loops that poll a flag and sleep. The locale \<open>poll_loop\<close> is what the wait of the daemon and the two
  reporting threads have in common; each of them is an interpretation of it.
\<close>

text \<open>
  \<open>seen n\<close> is what test number \<open>n\<close> of the loop reads, \<open>ok n\<close> whether the round after it goes through,
  \<open>round\<close> what the round does to the output and \<open>result\<close> what the loop returns.
\<close>

locale poll_loop =
  fixes seen :: "nat \<Rightarrow> bool"
    and ok :: "nat \<Rightarrow> bool"
    and loop :: "nat \<Rightarrow> 'out \<Rightarrow> 'res option"
    and round :: "nat \<Rightarrow> 'out \<Rightarrow> 'out"
    and result :: "nat \<Rightarrow> 'out \<Rightarrow> 'res"
  assumes leave: "seen n \<Longrightarrow> loop n out = Some (result n out)"
    and continue: "\<not> seen n \<Longrightarrow> ok n \<Longrightarrow> loop n out = loop (Suc n) (round n out)"
begin

text \<open>The loop ends at the first test that sees the flag, after one round for each test before it.\<close>

lemma loop_ends:
  "n \<le> N \<Longrightarrow> seen N \<Longrightarrow> \<forall>k \<in> {n..<N}. \<not> seen k \<and> ok k \<Longrightarrow> loop n out = Some (result N (fold round [n..<N] out))"
proof (induction "N - n" arbitrary: n out)
  case 0
  then show ?case by (simp add: leave)
next
  case (Suc d)
  then have "n < N" "\<not> seen n" "ok n" by auto
  moreover have "loop (Suc n) (round n out) = Some (result N (fold round [Suc n..<N] (round n out)))"
    using Suc.hyps(2) Suc.prems by (intro Suc.hyps(1)) auto
  ultimately show ?case
    by (simp add: continue upt_conv_Cons)
qed

lemma loop_least:
  assumes "\<exists>k. n \<le> k \<and> seen k" "\<forall>k. ok k"
  defines "N \<equiv> LEAST k. n \<le> k \<and> seen k"
  shows "loop n out = Some (result N (fold round [n..<N] out))"
proof -
  have "n \<le> N \<and> seen N"
    unfolding N_def by (rule LeastI_ex [OF assms(1)])
  moreover have "\<not> seen k" if "n \<le> k" "k < N" for k
    using that not_less_Least [of k "\<lambda>k. n \<le> k \<and> seen k"] by (auto simp: N_def)
  ultimately show ?thesis
    using assms(2) by (intro loop_ends) auto
qed

end

end
