(* ===== verification/Daemon.thy ===== *)
theory Daemon
  imports Polling
begin

text \<open>
  The daemon object (\<open>daemon.hpp\<close>, \<open>daemon.cpp\<close>): the shutdown flag and the operations on the
  libtorrent session. libtorrent is a record of functions, an argument of every definition that calls
  it; an exception is its message. A call that changes the session returns the exception, if there is one, beside
  the session, since a call that throws may have changed it.
\<close>

unbundle bit_operations_syntax

section \<open>What the daemon uses of libtorrent\<close>

type_synonym torrent_handle = nat
type_synonym flags_t = "64 word"
type_synonym exn = string

text \<open>A \<open>libtorrent::sha1_hash\<close> holds 20 bytes.\<close>

type_synonym sha1_hash = "160 word"

text \<open>A \<open>std::chrono::duration\<close>: a count and the number of ticks in a second.\<close>

datatype duration = Duration int int

fun duration_cast_seconds :: "duration \<Rightarrow> int" where
  "duration_cast_seconds (Duration n per) = trunc_div n per"

record 't add_torrent_params =
  atp_ti :: 't
  atp_save_path :: string
  atp_max_uploads :: int
  atp_max_connections :: int
  atp_flags :: flags_t

record 'f lt_torrent_status =
  lts_name :: string
  lts_progress :: 'f
  lts_download_payload_rate :: int
  lts_upload_payload_rate :: int
  lts_is_finished :: bool
  lts_num_peers :: int
  lts_active_duration :: duration
  lts_state :: int
  lts_total_done :: int
  lts_total :: int
  lts_num_pieces :: int
  lts_finished_duration :: duration
  lts_seeding_duration :: duration
  lts_total_payload_download :: int
  lts_total_payload_upload :: int
  lts_flags :: flags_t
  lts_save_path :: string
  lts_last_upload :: int
  lts_last_download :: int

text \<open>
  \<open>lt_bdecode\<close> and \<open>lt_torrent_info\<close> return the error code's truth value beside the object; the calls
  that can throw return a sum, or an option beside the session. \<open>lt_find_torrent\<close> is \<open>None\<close> for a handle that is not
  valid. \<open>lt_print_hash\<close> and \<open>lt_read_hash\<close> are the stream operators of
  \<open>sha1_hash\<close>; \<open>lt_clock_per\<close> is the number of clock ticks in a second.
\<close>

record ('s, 'n, 't, 'f) lt_api =
  lt_bdecode :: "bytes \<Rightarrow> int \<Rightarrow> int \<Rightarrow> bool \<times> 'n"
  lt_torrent_info :: "'n \<Rightarrow> bool \<times> 't"
  lt_add_torrent :: "'t add_torrent_params \<Rightarrow> 's \<Rightarrow> exn option \<times> 's"
  lt_get_torrents :: "'s \<Rightarrow> torrent_handle list"
  lt_info_hash :: "'s \<Rightarrow> torrent_handle \<Rightarrow> sha1_hash"
  lt_status :: "'s \<Rightarrow> torrent_handle \<Rightarrow> exn + 'f lt_torrent_status"
  lt_find_torrent :: "'s \<Rightarrow> sha1_hash \<Rightarrow> torrent_handle option"
  lt_pause :: "torrent_handle \<Rightarrow> 's \<Rightarrow> exn option \<times> 's"
  lt_resume :: "torrent_handle \<Rightarrow> 's \<Rightarrow> exn option \<times> 's"
  lt_pop_alerts :: "'s \<Rightarrow> (string \<times> string) list \<times> 's"
  lt_print_hash :: "sha1_hash \<Rightarrow> string"
  lt_read_hash :: "string \<Rightarrow> sha1_hash"
  lt_seed_mode :: flags_t
  lt_sequential_download :: flags_t
  lt_paused :: flags_t
  lt_clock_per :: int

section \<open>The daemon\<close>

record 's ezio =
  session_ref :: 's
  shutdown_flag :: bool

record 'f torrent_status =
  ts_hash :: string
  ts_name :: string
  ts_progress :: 'f
  ts_download_rate :: int
  ts_upload_rate :: int
  ts_active_time :: int
  ts_is_finished :: bool
  ts_num_peers :: int
  ts_state :: int
  ts_total_done :: int
  ts_total :: int
  ts_num_pieces :: int
  ts_finished_time :: int
  ts_seeding_time :: int
  ts_total_payload_download :: int
  ts_total_payload_upload :: int
  ts_is_paused :: bool
  ts_save_path :: string
  ts_last_upload :: int
  ts_last_download :: int

definition ezio_new :: "'s \<Rightarrow> 's ezio" where
  "ezio_new session = \<lparr>session_ref = session, shutdown_flag = False\<rparr>"

definition stop :: "'s ezio \<Rightarrow> 's ezio" where
  "stop d = d\<lparr>shutdown_flag := True\<rparr>"

definition get_shutdown :: "'s ezio \<Rightarrow> bool" where
  "get_shutdown d = shutdown_flag d"

definition get_version :: "string \<Rightarrow> string" where
  "get_version git_version = git_version"

text \<open>
  \<open>wait\<close> polls the flag, which other threads may set: \<open>seen n\<close> is what the \<open>n\<close>-th test of the loop
  reads. The result is the number of times it slept.
\<close>

partial_function (option) wait_from :: "(nat \<Rightarrow> bool) \<Rightarrow> nat \<Rightarrow> nat option" where
  "wait_from seen n = (if seen n then Some n else wait_from seen (Suc n))"

definition wait :: "(nat \<Rightarrow> bool) \<Rightarrow> nat option" where
  "wait seen = wait_from seen 0"

definition add_torrent ::
  "('s, 'n, 't, 'f) lt_api \<Rightarrow> bytes \<Rightarrow> string \<Rightarrow> bool \<Rightarrow> int \<Rightarrow> int \<Rightarrow> bool \<Rightarrow> 's ezio \<Rightarrow> exn option \<times> 's ezio" where
  "add_torrent lt torrent_body save_path seeding_mode max_uploads max_connections sequential_download d =
     (let depth_limit = 100; token_limit = 10000000 in
      case lt_bdecode lt torrent_body depth_limit token_limit of (ec, node) \<Rightarrow>
        if ec then (Some ''failed to decode node'', d)
        else case lt_torrent_info lt node of (ec, ti) \<Rightarrow>
          let flags = 0;
              flags = (if seeding_mode then flags OR lt_seed_mode lt else flags);
              flags = (if sequential_download then flags OR lt_sequential_download lt else flags);
              atp = \<lparr>atp_ti = ti, atp_save_path = save_path,
                     atp_max_uploads = (if max_uploads > 0 then max_uploads else 3),
                     atp_max_connections = (if max_connections > 0 then max_connections else 5),
                     atp_flags = flags\<rparr>
          in if ec then (Some ''failed to save path'', d)
             else (case lt_add_torrent lt atp (session_ref d) of (e, s) \<Rightarrow> (e, d\<lparr>session_ref := s\<rparr>)))"

text \<open>The fields of one entry; \<open>now\<close> is the time read before the loop.\<close>

definition make_status ::
  "('s, 'n, 't, 'f) lt_api \<Rightarrow> int \<Rightarrow> string \<Rightarrow> 'f lt_torrent_status \<Rightarrow> 'f torrent_status" where
  "make_status lt now hash t_stat =
     \<lparr>ts_hash = hash, ts_name = lts_name t_stat, ts_progress = lts_progress t_stat,
      ts_download_rate = lts_download_payload_rate t_stat, ts_upload_rate = lts_upload_payload_rate t_stat,
      ts_active_time = duration_cast_seconds (lts_active_duration t_stat),
      ts_is_finished = lts_is_finished t_stat, ts_num_peers = lts_num_peers t_stat,
      ts_state = lts_state t_stat, ts_total_done = lts_total_done t_stat, ts_total = lts_total t_stat,
      ts_num_pieces = lts_num_pieces t_stat,
      ts_finished_time = duration_cast_seconds (lts_finished_duration t_stat),
      ts_seeding_time = duration_cast_seconds (lts_seeding_duration t_stat),
      ts_total_payload_download = lts_total_payload_download t_stat,
      ts_total_payload_upload = lts_total_payload_upload t_stat,
      ts_is_paused = (lts_flags t_stat AND lt_paused lt \<noteq> 0), ts_save_path = lts_save_path t_stat,
      ts_last_upload =
        (if lts_last_upload t_stat \<noteq> 0
         then duration_cast_seconds (Duration (now - lts_last_upload t_stat) (lt_clock_per lt)) else -1),
      ts_last_download =
        (if lts_last_download t_stat \<noteq> 0
         then duration_cast_seconds (Duration (now - lts_last_download t_stat) (lt_clock_per lt)) else -1)\<rparr>"

type_synonym 'f status_map = "(string \<times> 'f torrent_status) list"

primrec status_loop ::
  "('s, 'n, 't, 'f) lt_api \<Rightarrow> int \<Rightarrow> 's \<Rightarrow> torrent_handle list \<Rightarrow> 'f status_map \<Rightarrow> exn + 'f status_map" where
  "status_loop lt now s [] result = Inr result"
| "status_loop lt now s (h # torrents) result =
     (let hash = lt_print_hash lt (lt_info_hash lt s h)
      in bind_res (lt_status lt s h) (\<lambda>t_stat.
           status_loop lt now s torrents (omap_emplace hash (make_status lt now hash t_stat) result)))"

definition get_torrent_status ::
  "('s, 'n, 't, 'f) lt_api \<Rightarrow> int \<Rightarrow> string list \<Rightarrow> 's ezio \<Rightarrow> exn + 'f status_map" where
  "get_torrent_status lt now hashes d =
     status_loop lt now (session_ref d) (lt_get_torrents lt (session_ref d)) []"

definition pause_torrent :: "('s, 'n, 't, 'f) lt_api \<Rightarrow> string \<Rightarrow> 's ezio \<Rightarrow> exn option \<times> 's ezio" where
  "pause_torrent lt hash d =
     (case lt_find_torrent lt (session_ref d) (lt_read_hash lt hash) of
        None \<Rightarrow> (None, d)
      | Some h \<Rightarrow> (case lt_pause lt h (session_ref d) of (e, s) \<Rightarrow> (e, d\<lparr>session_ref := s\<rparr>)))"

definition resume_torrent :: "('s, 'n, 't, 'f) lt_api \<Rightarrow> string \<Rightarrow> 's ezio \<Rightarrow> exn option \<times> 's ezio" where
  "resume_torrent lt hash d =
     (case lt_find_torrent lt (session_ref d) (lt_read_hash lt hash) of
        None \<Rightarrow> (None, d)
      | Some h \<Rightarrow> (case lt_resume lt h (session_ref d) of (e, s) \<Rightarrow> (e, d\<lparr>session_ref := s\<rparr>)))"

definition pop_alerts :: "('s, 'n, 't, 'f) lt_api \<Rightarrow> 's ezio \<Rightarrow> (string \<times> string) list \<times> 's ezio" where
  "pop_alerts lt d = (case lt_pop_alerts lt (session_ref d) of (alerts, s) \<Rightarrow> (alerts, d\<lparr>session_ref := s\<rparr>))"

section \<open>Polling\<close>

interpretation wait_loop: poll_loop seen "\<lambda>n. True" "\<lambda>n (_ :: unit). wait_from seen n" "\<lambda>n out. out" "\<lambda>n out. n"
  for seen
  by unfold_locales (simp_all add: wait_from.simps [of seen])

lemma wait_from_least: "\<exists>m. n \<le> m \<and> seen m \<Longrightarrow> wait_from seen n = Some (LEAST m. n \<le> m \<and> seen m)"
  using wait_loop.loop_least [of n seen] by simp

lemma wait_from_seen: "wait_from seen n = Some m \<Longrightarrow> seen m"
  by (rule wait_from.raw_induct [of "\<lambda>seen n m. seen m"]) (auto split: if_splits)

lemma wait_from_none:
  assumes "\<forall>m. \<not> seen m"
  shows "wait_from seen n = None"
  using assms wait_from_seen [of seen n] by (cases "wait_from seen n") auto

section \<open>The status map\<close>

definition status_entry ::
  "('s, 'n, 't, 'f) lt_api \<Rightarrow> int \<Rightarrow> 's \<Rightarrow> torrent_handle \<Rightarrow> 'f lt_torrent_status \<Rightarrow> string \<times> 'f torrent_status" where
  "status_entry lt now s h t_stat =
     (let hash = lt_print_hash lt (lt_info_hash lt s h) in (hash, make_status lt now hash t_stat))"

text \<open>The loop inserts one entry for each torrent, in the order of the session's list.\<close>

lemma status_loop_emplaces:
  assumes "status_loop lt now s hs acc = Inr m"
  shows "\<exists>stats. list_all2 (\<lambda>h st. lt_status lt s h = Inr st) hs stats \<and>
      m = foldl (\<lambda>m kv. omap_emplace (fst kv) (snd kv) m) acc (map2 (status_entry lt now s) hs stats)"
  using assms
proof (induction hs arbitrary: acc)
  case (Cons h hs)
  then obtain st where st: "lt_status lt s h = Inr st"
      "status_loop lt now s hs (omap_emplace (fst (status_entry lt now s h st)) (snd (status_entry lt now s h st)) acc) = Inr m"
    by (auto simp: bind_res_Inr_iff Let_def status_entry_def)
  obtain stats where "list_all2 (\<lambda>h st. lt_status lt s h = Inr st) hs stats"
      "m = foldl (\<lambda>m kv. omap_emplace (fst kv) (snd kv) m)
        (omap_emplace (fst (status_entry lt now s h st)) (snd (status_entry lt now s h st)) acc)
        (map2 (status_entry lt now s) hs stats)"
    using Cons.IH [OF st(2)] by blast
  then show ?case
    using st(1) by (intro exI [of _ "st # stats"]) simp
qed simp

lemma status_loop_lookup:
  assumes "status_loop lt now s hs [] = Inr m"
  shows "\<exists>stats. list_all2 (\<lambda>h st. lt_status lt s h = Inr st) hs stats \<and> omap_ok m \<and>
           (\<forall>x. map_of m x = map_of (map2 (status_entry lt now s) hs stats) x)"
proof -
  obtain stats where st: "list_all2 (\<lambda>h st. lt_status lt s h = Inr st) hs stats"
    and m: "m = foldl (\<lambda>m kv. omap_emplace (fst kv) (snd kv) m) [] (map2 (status_entry lt now s) hs stats)"
    using status_loop_emplaces [OF assms] by blast
  show ?thesis
    using st om.ok_emplaces [where m = "[]" and kvs = "map2 (status_entry lt now s) hs stats"]
      om.lookup_emplaces [where m = "[]" and kvs = "map2 (status_entry lt now s) hs stats"]
    unfolding m by auto
qed

lemma map_of_fst_set: "fst ` set m = {x. map_of m x \<noteq> None}"
  by (metis (mono_tags, lifting) Collect_cong dom_def dom_map_of_conv_image_fst)

lemma status_keys:
  assumes "status_loop lt now s hs [] = Inr m"
  shows "fst ` set m = (\<lambda>h. lt_print_hash lt (lt_info_hash lt s h)) ` set hs"
proof -
  obtain stats where st: "list_all2 (\<lambda>h st. lt_status lt s h = Inr st) hs stats"
    and lk: "\<forall>x. map_of m x = map_of (map2 (status_entry lt now s) hs stats) x"
    using status_loop_lookup [OF assms] by blast
  have "fst ` set m = fst ` set (map2 (status_entry lt now s) hs stats)"
    unfolding map_of_fst_set using lk by simp
  also have "\<dots> = (\<lambda>h. lt_print_hash lt (lt_info_hash lt s h)) ` set hs"
  proof -
    have "map fst (map2 (status_entry lt now s) hs stats) = map (\<lambda>h. lt_print_hash lt (lt_info_hash lt s h)) hs"
      using list_all2_lengthD [OF st] by (induction hs stats rule: list_induct2) (auto simp: status_entry_def Let_def)
    then show ?thesis by (metis list.set_map)
  qed
  finally show ?thesis .
qed

text \<open>The entry of a hash is made from the first torrent that has it.\<close>

lemma status_first:
  assumes "status_loop lt now s (hs @ h # hs') [] = Inr m"
    and "\<forall>g \<in> set hs. lt_print_hash lt (lt_info_hash lt s g) \<noteq> lt_print_hash lt (lt_info_hash lt s h)"
  shows "\<exists>st. lt_status lt s h = Inr st \<and> map_of m (lt_print_hash lt (lt_info_hash lt s h)) =
           Some (make_status lt now (lt_print_hash lt (lt_info_hash lt s h)) st)"
proof -
  obtain stats where st: "list_all2 (\<lambda>h st. lt_status lt s h = Inr st) (hs @ h # hs') stats"
    and lk: "\<forall>x. map_of m x = map_of (map2 (status_entry lt now s) (hs @ h # hs') stats) x"
    using status_loop_lookup [OF assms(1)] by blast
  then obtain as cs where "stats = as @ cs" "length as = length hs" "list_all2 (\<lambda>h st. lt_status lt s h = Inr st) (h # hs') cs"
    by (auto simp: list_all2_append1)
  then obtain a bs where s: "stats = as @ a # bs" "length as = length hs" "lt_status lt s h = Inr a"
    by (auto simp: list_all2_Cons1)
  have "map_of (map2 (status_entry lt now s) hs as) (lt_print_hash lt (lt_info_hash lt s h)) = None"
    using assms(2) s(2) by (auto simp: map_of_eq_None_iff status_entry_def Let_def dest: set_zip_leftD)
  then show ?thesis
    using lk s by (auto simp: map_of_append map_add_def status_entry_def Let_def)
qed

section \<open>Addressing a torrent by its hash\<close>

text \<open>
  What libtorrent promises of a session: a hash that is printed reads back, and \<open>find_torrent\<close> returns the torrent of
  the session that has the hash, if there is one; a session does not hold two torrents with one hash.
\<close>

definition session_ok :: "('s, 'n, 't, 'f) lt_api \<Rightarrow> 's \<Rightarrow> bool" where
  "session_ok lt s \<longleftrightarrow>
     (\<forall>b. lt_read_hash lt (lt_print_hash lt b) = b) \<and>
     (\<forall>b h. lt_find_torrent lt s b = Some h \<longleftrightarrow> h \<in> set (lt_get_torrents lt s) \<and> lt_info_hash lt s h = b)"

text \<open>
  \<open>torrent_handle::pause\<close> and \<open>resume\<close> set and clear the flag \<open>paused\<close> in the status of that torrent, and keep the
  torrents and the flag of the others; nothing is said of the rest of the status, nor of a call that throws.
\<close>

definition paused_in :: "('s, 'n, 't, 'f) lt_api \<Rightarrow> 's \<Rightarrow> torrent_handle \<Rightarrow> bool" where
  "paused_in lt s h \<longleftrightarrow> (case lt_status lt s h of Inl e \<Rightarrow> False | Inr st \<Rightarrow> lts_flags st AND lt_paused lt \<noteq> 0)"

definition flips_pause ::
  "('s, 'n, 't, 'f) lt_api \<Rightarrow> bool \<Rightarrow> (torrent_handle \<Rightarrow> 's \<Rightarrow> exn option \<times> 's) \<Rightarrow> bool" where
  "flips_pause lt p f \<longleftrightarrow>
     (\<forall>h s s'. f h s = (None, s') \<longrightarrow>
        lt_get_torrents lt s' = lt_get_torrents lt s \<and>
        (\<forall>g \<in> set (lt_get_torrents lt s). lt_info_hash lt s' g = lt_info_hash lt s g \<and>
           paused_in lt s' g = (if g = h then p else paused_in lt s g)))"

lemma session_hash_unique:
  assumes "session_ok lt s" "g \<in> set (lt_get_torrents lt s)" "h \<in> set (lt_get_torrents lt s)"
    and "lt_print_hash lt (lt_info_hash lt s g) = lt_print_hash lt (lt_info_hash lt s h)"
  shows "g = h"
proof -
  have "lt_info_hash lt s g = lt_info_hash lt s h"
    using assms(1,4) unfolding session_ok_def by metis
  then show ?thesis
    using assms(1-3) unfolding session_ok_def by (metis option.inject)
qed

lemma status_of_torrent:
  assumes "session_ok lt s" "status_loop lt now s (lt_get_torrents lt s) [] = Inr m" "h \<in> set (lt_get_torrents lt s)"
  shows "\<exists>e. map_of m (lt_print_hash lt (lt_info_hash lt s h)) = Some e \<and> ts_is_paused e = paused_in lt s h"
proof -
  obtain hs hs' where split: "lt_get_torrents lt s = hs @ h # hs'" "h \<notin> set hs"
    using split_list_first [OF assms(3)] by blast
  then have "\<forall>g \<in> set hs. lt_print_hash lt (lt_info_hash lt s g) \<noteq> lt_print_hash lt (lt_info_hash lt s h)"
    using session_hash_unique [OF assms(1) _ assms(3)] by auto
  from status_first [OF assms(2) [unfolded split(1)] this] show ?thesis
    by (auto simp: make_status_def paused_in_def)
qed

text \<open>A call that acts on the torrent found for a hash changes its entry in the status map and no other.\<close>

lemma flip_reported:
  assumes "session_ok lt (session_ref d)" "session_ok lt s'" "flips_pause lt p f"
    and "get_torrent_status lt now hashes d = Inr m"
    and "lt_find_torrent lt (session_ref d) (lt_read_hash lt hash) = Some h" "f h (session_ref d) = (None, s')"
    and "get_torrent_status lt now' hashes' (d\<lparr>session_ref := s'\<rparr>) = Inr m'"
  shows "lt_print_hash lt (lt_read_hash lt hash) \<in> fst ` set m \<and> fst ` set m' = fst ` set m \<and>
    (\<forall>k \<in> fst ` set m. \<exists>e e'. map_of m k = Some e \<and> map_of m' k = Some e' \<and>
       ts_is_paused e' = (if k = lt_print_hash lt (lt_read_hash lt hash) then p else ts_is_paused e))"
proof -
  let ?s = "session_ref d" and ?hash = "\<lambda>s h. lt_print_hash lt (lt_info_hash lt s h)"
  let ?c = "lt_print_hash lt (lt_read_hash lt hash)"
  have loops: "status_loop lt now ?s (lt_get_torrents lt ?s) [] = Inr m" "status_loop lt now' s' (lt_get_torrents lt s') [] = Inr m'"
    using assms(4,7) by (simp_all add: get_torrent_status_def)
  have same: "lt_get_torrents lt s' = lt_get_torrents lt ?s"
    and eff: "\<And>g. g \<in> set (lt_get_torrents lt ?s) \<Longrightarrow> lt_info_hash lt s' g = lt_info_hash lt ?s g \<and>
        paused_in lt s' g = (if g = h then p else paused_in lt ?s g)"
    using assms(3,6) unfolding flips_pause_def by blast+
  have h: "h \<in> set (lt_get_torrents lt ?s)" "?hash ?s h = ?c"
    using assms(1,5) unfolding session_ok_def by auto
  have keys: "fst ` set m' = fst ` set m"
    using status_keys [OF loops(1)] status_keys [OF loops(2)] same eff by simp
  have "\<exists>e e'. map_of m k = Some e \<and> map_of m' k = Some e' \<and> ts_is_paused e' = (if k = ?c then p else ts_is_paused e)"
    if k: "k \<in> fst ` set m" for k
  proof -
    obtain g where g: "g \<in> set (lt_get_torrents lt ?s)" "k = ?hash ?s g"
      using k status_keys [OF loops(1)] by auto
    have "(k = ?c) = (g = h)"
      using session_hash_unique [OF assms(1) g(1) h(1)] g(2) h(2) [symmetric] by auto
    then show ?thesis
      using status_of_torrent [OF assms(1) loops(1) g(1)] status_of_torrent [OF assms(2) loops(2), of g] eff [OF g(1)] g same
      by auto
  qed
  moreover have "?c \<in> fst ` set m"
    using h status_keys [OF loops(1)] by (metis imageI)
  ultimately show ?thesis
    using keys by blast
qed

text \<open>A hash that \<open>find_torrent\<close> does not find is in no status map, and two maps of one session agree.\<close>

lemma unknown_hash:
  assumes "session_ok lt (session_ref d)" "lt_find_torrent lt (session_ref d) (lt_read_hash lt hash) = None"
    and "get_torrent_status lt now hashes d = Inr m" "get_torrent_status lt now' hashes' d = Inr m'"
  shows "lt_print_hash lt (lt_read_hash lt hash) \<notin> fst ` set m \<and> fst ` set m' = fst ` set m \<and>
    (\<forall>k \<in> fst ` set m. \<exists>e e'. map_of m k = Some e \<and> map_of m' k = Some e' \<and>
       ts_is_paused e' = (if k = lt_print_hash lt (lt_read_hash lt hash) then p else ts_is_paused e))"
proof -
  let ?s = "session_ref d" and ?c = "lt_print_hash lt (lt_read_hash lt hash)"
  have loops: "status_loop lt now ?s (lt_get_torrents lt ?s) [] = Inr m" "status_loop lt now' ?s (lt_get_torrents lt ?s) [] = Inr m'"
    using assms(3,4) by (simp_all add: get_torrent_status_def)
  have c: "?c \<notin> fst ` set m"
  proof
    assume "?c \<in> fst ` set m"
    then obtain h where "h \<in> set (lt_get_torrents lt ?s)" "?c = lt_print_hash lt (lt_info_hash lt ?s h)"
      using status_keys [OF loops(1)] by auto
    then show False
      using assms(1,2) unfolding session_ok_def by (metis option.distinct(1))
  qed
  have "\<exists>e e'. map_of m k = Some e \<and> map_of m' k = Some e' \<and> ts_is_paused e' = (if k = ?c then p else ts_is_paused e)"
    if k: "k \<in> fst ` set m" for k
  proof -
    obtain g where "g \<in> set (lt_get_torrents lt ?s)" "k = lt_print_hash lt (lt_info_hash lt ?s g)"
      using k status_keys [OF loops(1)] by auto
    moreover have "k \<noteq> ?c"
      using k c by blast
    ultimately show ?thesis
      using status_of_torrent [OF assms(1) loops(1), of g] status_of_torrent [OF assms(1) loops(2), of g] by auto
  qed
  then show ?thesis
    using c status_keys [OF loops(1)] status_keys [OF loops(2)] by simp
qed

section \<open>An example session\<close>

text \<open>A session as the list of its torrents, the handle being the position; for the witnesses.\<close>

type_synonym example_session = "(sha1_hash \<times> nat lt_torrent_status) list"

definition example_status :: "string \<Rightarrow> nat lt_torrent_status" where
  "example_status path =
     \<lparr>lts_name = ''sda1'', lts_progress = 1, lts_download_payload_rate = 0, lts_upload_payload_rate = 0,
      lts_is_finished = True, lts_num_peers = 2, lts_active_duration = Duration 2500 1000, lts_state = 5,
      lts_total_done = 7, lts_total = 7, lts_num_pieces = 1, lts_finished_duration = Duration 3 1,
      lts_seeding_duration = Duration 3 1, lts_total_payload_download = 0, lts_total_payload_upload = 0,
      lts_flags = 0, lts_save_path = path, lts_last_upload = 0, lts_last_download = 2000\<rparr>"

primrec find_index :: "sha1_hash \<Rightarrow> example_session \<Rightarrow> nat option" where
  "find_index b [] = None"
| "find_index b (t # ts) = (if fst t = b then Some 0 else map_option Suc (find_index b ts))"

definition example_lt :: "(example_session, bytes, bytes, nat) lt_api" where
  "example_lt =
     \<lparr>lt_bdecode = (\<lambda>body depth tokens. (body = [], body)),
      lt_torrent_info = (\<lambda>node. (length node < 2, node)),
      lt_add_torrent = (\<lambda>atp s.
        (None, if word_of_nat (length (atp_ti atp)) \<in> fst ` set s then s
               else s @ [(word_of_nat (length (atp_ti atp)), (example_status (atp_save_path atp))\<lparr>lts_flags := atp_flags atp\<rparr>)])),
      lt_get_torrents = (\<lambda>s. [0..<length s]), lt_info_hash = (\<lambda>s h. fst (s ! h)),
      lt_status = (\<lambda>s h. Inr (snd (s ! h))), lt_find_torrent = (\<lambda>s b. find_index b s),
      lt_pause = (\<lambda>h s. (None, s[h := (fst (s ! h), (snd (s ! h))\<lparr>lts_flags := 16\<rparr>)])),
      lt_resume = (\<lambda>h s. (None, s[h := (fst (s ! h), (snd (s ! h))\<lparr>lts_flags := 0\<rparr>)])),
      lt_pop_alerts = (\<lambda>s. ([], s)), lt_print_hash = (\<lambda>b. replicate (unat b) CHR ''A''),
      lt_read_hash = (\<lambda>str. word_of_nat (length str)), lt_seed_mode = 1, lt_sequential_download = 512,
      lt_paused = 16, lt_clock_per = 1000\<rparr>"

lemma example_lt_simps:
  "lt_get_torrents example_lt s = [0..<length s]" "lt_info_hash example_lt s h = fst (s ! h)"
  "lt_status example_lt s h = Inr (snd (s ! h))" "lt_find_torrent example_lt s b = find_index b s"
  "lt_print_hash example_lt 1 = ''A''" "lt_print_hash example_lt 2 = ''AA''" "lt_read_hash example_lt ''A'' = 1"
  "lt_paused example_lt = 16" "lt_pause example_lt h s = (None, s[h := (fst (s ! h), (snd (s ! h))\<lparr>lts_flags := 16\<rparr>)])"
  by (simp_all add: example_lt_def) (simp add: numeral_2_eq_2)

lemma find_index_iff: "distinct (map fst s) \<Longrightarrow> find_index b s = Some h \<longleftrightarrow> h < length s \<and> fst (s ! h) = b"
proof (induction s arbitrary: h)
  case (Cons t ts)
  have "fst t \<notin> set (map fst ts)"
    using Cons.prems by simp
  then have "fst t \<noteq> fst (ts ! i)" if "i < length ts" for i
    using that by (metis image_eqI list.set_map nth_mem)
  with Cons show ?case by (cases h) (auto, metis)
qed simp

lemma example_session_ok: "distinct (map fst s) \<Longrightarrow> session_ok example_lt s"
  by (simp add: session_ok_def example_lt_simps find_index_iff) (simp add: example_lt_def)

lemma example_flips: "flips_pause example_lt True (lt_pause example_lt)" "flips_pause example_lt False (lt_resume example_lt)"
  by (auto simp: flips_pause_def paused_in_def example_lt_def nth_list_update)

section \<open>Properties of the daemon\<close>

text \<open>\<open>wait\<close> returns if the shutdown flag is ever seen set, after exactly as many sleeps as there were
  tests that did not see it; otherwise it never returns.\<close>

theorem wait_until_shutdown:
  "wait seen = (if \<exists>n. seen n then Some (LEAST n. seen n) else None)"
  using wait_from_least [of 0 seen] wait_from_none [of seen 0] by (auto simp: wait_def)

text \<open>C35: The status map lists every torrent of the session, whatever hashes were asked for: it is sorted by
  hash without repetition, its keys are the printed info hashes of all torrents, and the entry of a
  hash is made from the first torrent that has it; durations are truncated to seconds and a last
  transfer that never happened is -1.\<close>

theorem get_torrent_status_complete:
  assumes "get_torrent_status lt now hashes d = Inr m"
  shows "sorted_wrt (<) (map fst m) \<and>
    fst ` set m = (\<lambda>h. lt_print_hash lt (lt_info_hash lt (session_ref d) h)) ` set (lt_get_torrents lt (session_ref d)) \<and>
    (\<forall>hs h hs'. lt_get_torrents lt (session_ref d) = hs @ h # hs' \<and>
       (\<forall>g \<in> set hs. lt_print_hash lt (lt_info_hash lt (session_ref d) g) \<noteq> lt_print_hash lt (lt_info_hash lt (session_ref d) h)) \<longrightarrow>
       (\<exists>st. lt_status lt (session_ref d) h = Inr st \<and>
          map_of m (lt_print_hash lt (lt_info_hash lt (session_ref d) h)) =
            Some (make_status lt now (lt_print_hash lt (lt_info_hash lt (session_ref d) h)) st)))"
proof -
  have loop: "status_loop lt now (session_ref d) (lt_get_torrents lt (session_ref d)) [] = Inr m"
    using assms by (simp add: get_torrent_status_def)
  have "omap_ok m"
    using status_loop_lookup [OF loop] by blast
  then show ?thesis
    using status_keys [OF loop] status_first [of lt now "session_ref d"] loop by auto
qed

theorem get_torrent_status_complete_witness:
  "\<exists>m. get_torrent_status example_lt 5000 [''zz''] (ezio_new [(2, example_status ''/dev/sdb1''), (1, example_status ''/dev/sda1'')]) = Inr m \<and>
     map fst m = [''A'', ''AA''] \<and>
     map_of m ''A'' = Some (make_status example_lt 5000 ''A'' (example_status ''/dev/sda1''))"
proof -
  let ?d = "ezio_new [(2, example_status ''/dev/sdb1''), (1, example_status ''/dev/sda1'')]"
  let ?m = "[(''A'', make_status example_lt 5000 ''A'' (example_status ''/dev/sda1'')),
    (''AA'', make_status example_lt 5000 ''AA'' (example_status ''/dev/sdb1''))]"
  have m: "get_torrent_status example_lt 5000 [''zz''] ?d = Inr ?m"
    by (simp add: get_torrent_status_def ezio_new_def example_lt_simps upt_rec Let_def)
  have "\<exists>st. lt_status example_lt (session_ref ?d) 1 = Inr st \<and>
      map_of ?m (lt_print_hash example_lt (lt_info_hash example_lt (session_ref ?d) 1)) =
      Some (make_status example_lt 5000 (lt_print_hash example_lt (lt_info_hash example_lt (session_ref ?d) 1)) st)"
    by (rule get_torrent_status_complete [OF m, THEN conjunct2, THEN conjunct2, rule_format, of "[0]" 1 "[]"])
      (auto simp: ezio_new_def example_lt_simps upt_rec)
  then show ?thesis
    using m by (intro exI [of _ ?m]) (simp add: ezio_new_def example_lt_simps)
qed

text \<open>C36: Pausing and resuming by hash, seen through the status map. When libtorrent finds the torrents of its session by
  hash and its own \<open>pause\<close> and \<open>resume\<close> set and clear the flag of one torrent, then after a \<open>pause_torrent\<close> or
  \<open>resume_torrent\<close> that does not throw the status map has the entries it had before, the torrent addressed by the hash
  is reported paused or not paused as asked, and every other torrent as it was before. A hash taken from the status map
  addresses the torrent it was reported for; a hash that is no torrent's leaves the daemon and its session as they are.
  The shutdown flag is kept.\<close>

theorem pause_acts_on_reported_torrent:
  assumes "flips_pause lt True (lt_pause lt)" "flips_pause lt False (lt_resume lt)"
    and "session_ok lt (session_ref d)" "session_ok lt (session_ref d')"
    and "(if p then pause_torrent lt hash d else resume_torrent lt hash d) = (None, d')"
    and "get_torrent_status lt now hashes d = Inr m" "get_torrent_status lt now' hashes' d' = Inr m'"
  shows "fst ` set m' = fst ` set m \<and> shutdown_flag d' = shutdown_flag d \<and>
    (\<forall>k \<in> fst ` set m. \<exists>e e'. map_of m k = Some e \<and> map_of m' k = Some e' \<and>
       ts_is_paused e' = (if k = lt_print_hash lt (lt_read_hash lt hash) then p else ts_is_paused e)) \<and>
    (hash \<in> fst ` set m \<longrightarrow> lt_print_hash lt (lt_read_hash lt hash) = hash) \<and>
    (lt_print_hash lt (lt_read_hash lt hash) \<notin> fst ` set m \<longrightarrow> d' = d)"
proof -
  let ?c = "lt_print_hash lt (lt_read_hash lt hash)" and ?f = "if p then lt_pause lt else lt_resume lt"
  have keys: "fst ` set n = (\<lambda>h. lt_print_hash lt (lt_info_hash lt (session_ref e) h)) ` set (lt_get_torrents lt (session_ref e))"
    if "get_torrent_status lt t hs e = Inr n" for t hs e n
    using that by (intro status_keys) (simp add: get_torrent_status_def)
  have flips: "flips_pause lt p ?f"
    using assms(1,2) by simp
  have canonical: "hash \<in> fst ` set m \<longrightarrow> ?c = hash"
    using keys [OF assms(6)] assms(3) by (auto simp: session_ok_def)
  show ?thesis
  proof (cases "lt_find_torrent lt (session_ref d) (lt_read_hash lt hash)")
    case None
    then have d': "d' = d"
      using assms(5) by (simp add: pause_torrent_def resume_torrent_def split: if_splits)
    then show ?thesis
      using unknown_hash [OF assms(3) None assms(6), of now' hashes' m'] assms(7) canonical by simp
  next
    case (Some h)
    then obtain s' where s': "?f h (session_ref d) = (None, s')" "d' = d\<lparr>session_ref := s'\<rparr>"
      using assms(5) by (auto simp: pause_torrent_def resume_torrent_def split: if_splits prod.splits)
    have "session_ok lt s'" "get_torrent_status lt now' hashes' (d\<lparr>session_ref := s'\<rparr>) = Inr m'"
      using assms(4,7) s'(2) by simp_all
    from flip_reported [OF assms(3) this(1) flips assms(6) Some s'(1) this(2)] show ?thesis
      using canonical s'(2) by simp
  qed
qed

theorem pause_acts_on_reported_torrent_witness:
  "\<exists>d' m'. pause_torrent example_lt ''A'' (ezio_new [(2, example_status ''/dev/sdb1''), (1, example_status ''/dev/sda1'')]) = (None, d') \<and>
     get_torrent_status example_lt 5000 [] d' = Inr m' \<and>
     map_option ts_is_paused (map_of m' ''A'') = Some True \<and> map_option ts_is_paused (map_of m' ''AA'') = Some False"
proof -
  let ?d = "ezio_new [(2, example_status ''/dev/sdb1''), (1, example_status ''/dev/sda1'')]"
  let ?d' = "ezio_new [(2, example_status ''/dev/sdb1''), (1, (example_status ''/dev/sda1'')\<lparr>lts_flags := 16\<rparr>)]"
  let ?m = "[(''A'', make_status example_lt 5000 ''A'' (example_status ''/dev/sda1'')),
    (''AA'', make_status example_lt 5000 ''AA'' (example_status ''/dev/sdb1''))]"
  let ?m' = "[(''A'', make_status example_lt 5000 ''A'' ((example_status ''/dev/sda1'')\<lparr>lts_flags := 16\<rparr>)),
    (''AA'', make_status example_lt 5000 ''AA'' (example_status ''/dev/sdb1''))]"
  have m: "get_torrent_status example_lt 5000 [] ?d = Inr ?m" "get_torrent_status example_lt 5000 [] ?d' = Inr ?m'"
    by (simp_all add: get_torrent_status_def ezio_new_def example_lt_simps upt_rec Let_def)
  have p: "(if True then pause_torrent example_lt ''A'' ?d else resume_torrent example_lt ''A'' ?d) = (None, ?d')"
    by (simp add: pause_torrent_def ezio_new_def example_lt_simps)
  have ok: "session_ok example_lt (session_ref ?d)" "session_ok example_lt (session_ref ?d')"
    by (simp_all add: ezio_new_def example_session_ok)
  have "\<forall>k \<in> fst ` set ?m. \<exists>e e'. map_of ?m k = Some e \<and> map_of ?m' k = Some e' \<and>
      ts_is_paused e' = (if k = lt_print_hash example_lt (lt_read_hash example_lt ''A'') then True else ts_is_paused e)"
    using pause_acts_on_reported_torrent [OF example_flips ok p m] by blast
  then have "map_option ts_is_paused (map_of ?m' ''A'') = Some True \<and>
      map_option ts_is_paused (map_of ?m' ''AA'') = Some (ts_is_paused (make_status example_lt 5000 ''AA'' (example_status ''/dev/sdb1'')))"
    by (auto simp: example_lt_simps)
  moreover have "\<not> ts_is_paused (make_status example_lt 5000 ''AA'' (example_status ''/dev/sdb1''))"
    by (simp add: make_status_def example_status_def)
  ultimately show ?thesis
    using p m(2) by (intro exI [of _ ?d'] exI [of _ ?m']) simp
qed

end
