(* ===== verification/Service.thy ===== *)
theory Service
  imports Daemon
begin

text \<open>
  The gRPC service (\<open>service.hpp\<close>, \<open>service.cpp\<close>): each handler as a function on the daemon, with its
  \<open>try\<close> blocks; what a call that throws did to the session stays done. A handler without a \<open>try\<close> passes an exception
  on (\<open>Inl\<close>). The messages are those of
  \<open>ezio.proto\<close>. Of the gRPC server only whether it was built is modelled.
\<close>

section \<open>Messages\<close>

datatype grpc_status = OK | UNAVAILABLE string

record 'f Torrent =
  t_hash :: string
  t_name :: string
  t_progress :: 'f
  t_download_rate :: int
  t_upload_rate :: int
  t_active_time :: int
  t_is_finished :: bool
  t_num_peers :: int
  t_state :: int
  t_total_done :: int
  t_total :: int
  t_num_pieces :: int
  t_finished_time :: int
  t_seeding_time :: int
  t_total_payload_download :: int
  t_total_payload_upload :: int
  t_is_paused :: bool
  t_save_path :: string
  t_last_upload :: int
  t_last_download :: int

record add_request =
  ar_torrent :: bytes
  ar_save_path :: string
  ar_seeding_mode :: bool
  ar_max_uploads :: int
  ar_max_connections :: int
  ar_sequential_download :: bool

record add_response =
  ar_result :: bool

record 'f update_status =
  us_hashes :: "string list"
  us_torrents :: "string \<rightharpoonup> 'f Torrent"

section \<open>Handlers\<close>

definition Shutdown :: "'s ezio \<Rightarrow> grpc_status \<times> 's ezio" where
  "Shutdown d = (OK, stop d)"

definition torrent_message :: "string \<Rightarrow> 'f torrent_status \<Rightarrow> 'f Torrent" where
  "torrent_message hash t_stat =
     \<lparr>t_hash = hash, t_name = ts_name t_stat, t_progress = ts_progress t_stat,
      t_download_rate = ts_download_rate t_stat, t_upload_rate = ts_upload_rate t_stat,
      t_active_time = ts_active_time t_stat, t_is_finished = ts_is_finished t_stat,
      t_num_peers = ts_num_peers t_stat, t_state = ts_state t_stat, t_total_done = ts_total_done t_stat,
      t_total = ts_total t_stat, t_num_pieces = ts_num_pieces t_stat,
      t_finished_time = ts_finished_time t_stat, t_seeding_time = ts_seeding_time t_stat,
      t_total_payload_download = ts_total_payload_download t_stat,
      t_total_payload_upload = ts_total_payload_upload t_stat, t_is_paused = ts_is_paused t_stat,
      t_save_path = ts_save_path t_stat, t_last_upload = ts_last_upload t_stat,
      t_last_download = ts_last_download t_stat\<rparr>"

text \<open>The loop over the status map; the insertion into the message's map keeps an entry that is there.\<close>

primrec fill_response :: "'f status_map \<Rightarrow> 'f update_status \<Rightarrow> 'f update_status" where
  "fill_response [] response = response"
| "fill_response (iter # result) response =
     fill_response result
       (response\<lparr>us_hashes := us_hashes response @ [fst iter],
         us_torrents := (case us_torrents response (fst iter) of
            None \<Rightarrow> (us_torrents response)(fst iter \<mapsto> torrent_message (fst iter) (snd iter))
          | Some _ \<Rightarrow> us_torrents response)\<rparr>)"

definition GetTorrentStatus ::
  "('s, 'n, 't, 'f) lt_api \<Rightarrow> int \<Rightarrow> string list \<Rightarrow> 'f update_status \<Rightarrow> 's ezio \<Rightarrow> exn + grpc_status \<times> 'f update_status" where
  "GetTorrentStatus lt now request_hashes response d =
     bind_res (get_torrent_status lt now request_hashes d) (\<lambda>result. Inr (OK, fill_response result response))"

definition AddTorrent ::
  "('s, 'n, 't, 'f) lt_api \<Rightarrow> add_request \<Rightarrow> add_response \<Rightarrow> 's ezio \<Rightarrow> grpc_status \<times> add_response \<times> 's ezio" where
  "AddTorrent lt request response d =
     (case add_torrent lt (ar_torrent request) (ar_save_path request) (ar_seeding_mode request)
             (ar_max_uploads request) (ar_max_connections request) (ar_sequential_download request) d of
        (Some e, d') \<Rightarrow> (UNAVAILABLE e, response, d')
      | (None, d') \<Rightarrow> (OK, response, d'))"

definition PauseTorrent :: "('s, 'n, 't, 'f) lt_api \<Rightarrow> string \<Rightarrow> 's ezio \<Rightarrow> grpc_status \<times> 's ezio" where
  "PauseTorrent lt hash d =
     (case pause_torrent lt hash d of (Some e, d') \<Rightarrow> (UNAVAILABLE e, d') | (None, d') \<Rightarrow> (OK, d'))"

definition ResumeTorrent :: "('s, 'n, 't, 'f) lt_api \<Rightarrow> string \<Rightarrow> 's ezio \<Rightarrow> grpc_status \<times> 's ezio" where
  "ResumeTorrent lt hash d =
     (case resume_torrent lt hash d of (Some e, d') \<Rightarrow> (UNAVAILABLE e, d') | (None, d') \<Rightarrow> (OK, d'))"

definition GetVersion :: "string \<Rightarrow> grpc_status \<times> string" where
  "GetVersion git_version = (OK, git_version)"

section \<open>The server\<close>

text \<open>
  The member \<open>server_\<close>: the address served, nothing while the pointer is null. \<open>build_and_start\<close> is
  whether \<open>ServerBuilder::BuildAndStart\<close> returns a server for the address; it returns null when the
  port cannot be bound.
\<close>

record grpc_service =
  grpc_server :: "string option"

definition service_new :: grpc_service where
  "service_new = \<lparr>grpc_server = None\<rparr>"

definition service_start :: "(string \<Rightarrow> bool) \<Rightarrow> string \<Rightarrow> grpc_service \<Rightarrow> grpc_service" where
  "service_start build_and_start addr sv =
     sv\<lparr>grpc_server := (if build_and_start addr then Some addr else None)\<rparr>"

text \<open>\<open>stop\<close> and \<open>wait\<close> call a method of the server through the pointer.\<close>

definition service_stop :: "grpc_service \<Rightarrow> ub + grpc_service" where
  "service_stop sv = (case grpc_server sv of None \<Rightarrow> Inl NullDeref | Some _ \<Rightarrow> Inr sv)"

definition service_wait :: "grpc_service \<Rightarrow> ub + grpc_service" where
  "service_wait sv = (case grpc_server sv of None \<Rightarrow> Inl NullDeref | Some _ \<Rightarrow> Inr sv)"

section \<open>Calls\<close>

text \<open>
  A call of the service, with its status or the exception that escapes from the handler, and the
  daemon after it.
\<close>

datatype rpc =
    CallShutdown
  | CallStatus int "string list"
  | CallAdd add_request
  | CallPause string
  | CallResume string
  | CallVersion string

fun answer :: "('s, 'n, 't, 'f) lt_api \<Rightarrow> 's ezio \<Rightarrow> rpc \<Rightarrow> (exn + grpc_status) \<times> 's ezio" where
  "answer lt d CallShutdown = map_prod Inr id (Shutdown d)"
| "answer lt d (CallStatus now hashes) =
     (map_sum id fst (GetTorrentStatus lt now hashes \<lparr>us_hashes = [], us_torrents = Map.empty\<rparr> d), d)"
| "answer lt d (CallAdd request) = map_prod Inr snd (AddTorrent lt request \<lparr>ar_result = False\<rparr> d)"
| "answer lt d (CallPause hash) = map_prod Inr id (PauseTorrent lt hash d)"
| "answer lt d (CallResume hash) = map_prod Inr id (ResumeTorrent lt hash d)"
| "answer lt d (CallVersion version) = (Inr (fst (GetVersion version)), d)"

definition serve :: "('s, 'n, 't, 'f) lt_api \<Rightarrow> 's ezio \<Rightarrow> rpc \<Rightarrow> 's ezio" where
  "serve lt d c = snd (answer lt d c)"

lemma daemon_flag:
  "shutdown_flag (snd (add_torrent lt body path seed up conn seq d)) = shutdown_flag d"
  "shutdown_flag (snd (pause_torrent lt hash d)) = shutdown_flag d"
  "shutdown_flag (snd (resume_torrent lt hash d)) = shutdown_flag d"
  by (auto simp: add_torrent_def pause_torrent_def resume_torrent_def Let_def split: prod.splits option.splits)

lemma handler_daemon:
  "snd (snd (AddTorrent lt request response d)) =
     snd (add_torrent lt (ar_torrent request) (ar_save_path request) (ar_seeding_mode request)
       (ar_max_uploads request) (ar_max_connections request) (ar_sequential_download request) d)"
  "snd (PauseTorrent lt hash d) = snd (pause_torrent lt hash d)"
  "snd (ResumeTorrent lt hash d) = snd (resume_torrent lt hash d)"
  by (simp_all add: AddTorrent_def PauseTorrent_def ResumeTorrent_def split: prod.split option.split)

lemma serve_flag: "shutdown_flag (serve lt d c) \<longleftrightarrow> shutdown_flag d \<or> c = CallShutdown"
  by (cases c) (simp_all add: serve_def Shutdown_def stop_def handler_daemon daemon_flag)

lemma fill_response_eq:
  "omap_ok m \<Longrightarrow> (\<And>k. k \<in> fst ` set m \<Longrightarrow> us_torrents r k = None) \<Longrightarrow>
   us_hashes (fill_response m r) = us_hashes r @ map fst m \<and>
   us_torrents (fill_response m r) =
     (\<lambda>k. case map_of m k of None \<Rightarrow> us_torrents r k | Some st \<Rightarrow> Some (torrent_message k st))"
proof (induction m arbitrary: r)
  case (Cons e m)
  let ?r = "r\<lparr>us_hashes := us_hashes r @ [fst e],
    us_torrents := (us_torrents r)(fst e \<mapsto> torrent_message (fst e) (snd e))\<rparr>"
  have d: "fst e \<notin> fst ` set m"
    using Cons.prems(1) by auto
  have ih: "us_hashes (fill_response m ?r) = us_hashes ?r @ map fst m \<and>
      us_torrents (fill_response m ?r) =
        (\<lambda>k. case map_of m k of None \<Rightarrow> us_torrents ?r k | Some st \<Rightarrow> Some (torrent_message k st))"
    using Cons.prems d by (intro Cons.IH) auto
  have eq: "fill_response (e # m) r = fill_response m ?r"
    using Cons.prems(2) [of "fst e"] by simp
  have "map_of m (fst e) = None" "\<And>k. map_of (e # m) k = (if k = fst e then Some (snd e) else map_of m k)"
    using d by (auto simp: map_of_eq_None_iff)
  then show ?case
    unfolding eq using ih by (auto simp: fun_eq_iff split: option.split)
qed simp

section \<open>Properties of the service\<close>

text \<open>The reply in terms of the daemon's status map.\<close>

lemma reply_of_status:
  assumes "GetTorrentStatus lt now request \<lparr>us_hashes = [], us_torrents = Map.empty\<rparr> d = Inr (st, r)"
  shows "\<exists>m. status_loop lt now (session_ref d) (lt_get_torrents lt (session_ref d)) [] = Inr m \<and> omap_ok m \<and>
    st = OK \<and> us_hashes r = map fst m \<and> us_torrents r = (\<lambda>k. map_option (torrent_message k) (map_of m k))"
proof -
  obtain m where loop: "status_loop lt now (session_ref d) (lt_get_torrents lt (session_ref d)) [] = Inr m"
    and r: "st = OK" "r = fill_response m \<lparr>us_hashes = [], us_torrents = Map.empty\<rparr>"
    using assms by (auto simp: GetTorrentStatus_def bind_res_Inr_iff get_torrent_status_def)
  have "omap_ok m"
    using status_loop_lookup [OF loop] by blast
  then show ?thesis
    using loop r fill_response_eq [of m "\<lparr>us_hashes = [], us_torrents = Map.empty\<rparr>"]
    by (auto simp: fun_eq_iff split: option.split)
qed

lemma reply_hashes:
  assumes "GetTorrentStatus lt now request \<lparr>us_hashes = [], us_torrents = Map.empty\<rparr> d = Inr (st, r)"
  shows "set (us_hashes r) = (\<lambda>h. lt_print_hash lt (lt_info_hash lt (session_ref d) h)) ` set (lt_get_torrents lt (session_ref d))"
  using reply_of_status [OF assms] status_keys by fastforce

lemma reply_entry:
  assumes "session_ok lt (session_ref d)" "h \<in> set (lt_get_torrents lt (session_ref d))"
    and "GetTorrentStatus lt now request \<lparr>us_hashes = [], us_torrents = Map.empty\<rparr> d = Inr (st, r)"
    and "k = lt_print_hash lt (lt_info_hash lt (session_ref d) h)"
  shows "\<exists>s. lt_status lt (session_ref d) h = Inr s \<and> us_torrents r k = Some (torrent_message k (make_status lt now k s))"
proof -
  obtain m where loop: "status_loop lt now (session_ref d) (lt_get_torrents lt (session_ref d)) [] = Inr m"
    and m: "us_torrents r = (\<lambda>k. map_option (torrent_message k) (map_of m k))"
    using reply_of_status [OF assms(3)] by blast
  obtain hs hs' where split: "lt_get_torrents lt (session_ref d) = hs @ h # hs'" "h \<notin> set hs"
    using split_list_first [OF assms(2)] by blast
  then have "\<forall>g \<in> set hs. lt_print_hash lt (lt_info_hash lt (session_ref d) g) \<noteq> lt_print_hash lt (lt_info_hash lt (session_ref d) h)"
    using session_hash_unique [OF assms(1) _ assms(2)] by auto
  from status_first [OF loop [unfolded split(1)] this] show ?thesis
    by (auto simp: m assms(4))
qed

text \<open>C37: The reply of \<open>GetTorrentStatus\<close>, field by field: the hashes are in strictly increasing order, for every
  torrent of the session exactly one, and there is a message under each of them and under nothing else. Each of the twenty
  fields of the message comes from the status libtorrent gives for the first torrent with that hash, the durations
  truncated to seconds, and -1 for a last transfer that never happened. The reply does not depend on the hashes in the
  request, although the protocol says that they select the torrents.\<close>

theorem status_reply:
  assumes "GetTorrentStatus lt now request \<lparr>us_hashes = [], us_torrents = Map.empty\<rparr> d = Inr (st, r)"
  shows "st = OK \<and> sorted_wrt (<) (us_hashes r) \<and>
    set (us_hashes r) = (\<lambda>h. lt_print_hash lt (lt_info_hash lt (session_ref d) h)) ` set (lt_get_torrents lt (session_ref d)) \<and>
    dom (us_torrents r) = set (us_hashes r) \<and>
    GetTorrentStatus lt now request' \<lparr>us_hashes = [], us_torrents = Map.empty\<rparr> d = Inr (st, r) \<and>
    (\<forall>hs h hs' k. lt_get_torrents lt (session_ref d) = hs @ h # hs' \<and> k = lt_print_hash lt (lt_info_hash lt (session_ref d) h) \<and>
       (\<forall>g \<in> set hs. lt_print_hash lt (lt_info_hash lt (session_ref d) g) \<noteq> k) \<longrightarrow>
       (\<exists>s t. lt_status lt (session_ref d) h = Inr s \<and> us_torrents r k = Some t \<and>
          t_hash t = k \<and> t_name t = lts_name s \<and> t_progress t = lts_progress s \<and>
          t_download_rate t = lts_download_payload_rate s \<and> t_upload_rate t = lts_upload_payload_rate s \<and>
          t_active_time t = duration_cast_seconds (lts_active_duration s) \<and> t_is_finished t = lts_is_finished s \<and>
          t_num_peers t = lts_num_peers s \<and> t_state t = lts_state s \<and> t_total_done t = lts_total_done s \<and>
          t_total t = lts_total s \<and> t_num_pieces t = lts_num_pieces s \<and>
          t_finished_time t = duration_cast_seconds (lts_finished_duration s) \<and>
          t_seeding_time t = duration_cast_seconds (lts_seeding_duration s) \<and>
          t_total_payload_download t = lts_total_payload_download s \<and>
          t_total_payload_upload t = lts_total_payload_upload s \<and>
          t_is_paused t = (lts_flags s AND lt_paused lt \<noteq> 0) \<and> t_save_path t = lts_save_path s \<and>
          t_last_upload t = (if lts_last_upload s = 0 then -1
            else trunc_div (now - lts_last_upload s) (lt_clock_per lt)) \<and>
          t_last_download t = (if lts_last_download s = 0 then -1
            else trunc_div (now - lts_last_download s) (lt_clock_per lt))))"
proof -
  obtain m where loop: "status_loop lt now (session_ref d) (lt_get_torrents lt (session_ref d)) [] = Inr m"
    and m: "omap_ok m" "st = OK" "us_hashes r = map fst m" "us_torrents r = (\<lambda>k. map_option (torrent_message k) (map_of m k))"
    using reply_of_status [OF assms] by blast
  have same: "GetTorrentStatus lt now request' \<lparr>us_hashes = [], us_torrents = Map.empty\<rparr> d = Inr (st, r)"
    using assms by (simp add: GetTorrentStatus_def get_torrent_status_def)
  have dom: "dom (us_torrents r) = set (us_hashes r)"
    by (simp add: m dom_def map_of_eq_None_iff del: not_None_eq)
  have first: "\<exists>s. lt_status lt (session_ref d) h = Inr s \<and> us_torrents r k = Some (torrent_message k (make_status lt now k s))"
    if "lt_get_torrents lt (session_ref d) = hs @ h # hs' \<and> k = lt_print_hash lt (lt_info_hash lt (session_ref d) h) \<and>
      (\<forall>g \<in> set hs. lt_print_hash lt (lt_info_hash lt (session_ref d) g) \<noteq> k)" for hs h hs' k
    using that status_first [of lt now "session_ref d" hs h hs' m] loop m(4) by auto
  show ?thesis
  proof (intro conjI allI impI, goal_cases)
    case (6 hs h hs' k)
    then obtain s where "lt_status lt (session_ref d) h = Inr s" "us_torrents r k = Some (torrent_message k (make_status lt now k s))"
      using first [of hs h hs' k] by blast
    then show ?case
      by (intro exI [of _ s] exI [of _ "torrent_message k (make_status lt now k s)"])
        (simp add: make_status_def torrent_message_def)
  qed (use m same dom reply_hashes [OF assms] in simp_all)
qed

theorem status_reply_witness:
  "\<exists>r t. GetTorrentStatus example_lt 5000 [''B''] \<lparr>us_hashes = [], us_torrents = Map.empty\<rparr>
         (ezio_new [(1, example_status ''/dev/sda1'')]) = Inr (OK, r) \<and> us_hashes r = [''A''] \<and>
       us_torrents r ''A'' = Some t \<and> t_save_path t = ''/dev/sda1'' \<and> t_last_download t = 3"
proof -
  let ?d = "ezio_new [(1, example_status ''/dev/sda1'')]"
  let ?m = "[(''A'', make_status example_lt 5000 ''A'' (example_status ''/dev/sda1''))]"
  let ?r = "fill_response ?m \<lparr>us_hashes = [], us_torrents = Map.empty\<rparr>"
  have r: "GetTorrentStatus example_lt 5000 [''B''] \<lparr>us_hashes = [], us_torrents = Map.empty\<rparr> ?d = Inr (OK, ?r)"
    by (simp add: GetTorrentStatus_def get_torrent_status_def ezio_new_def example_lt_simps Let_def)
  have "lt_get_torrents example_lt (session_ref ?d) = [] @ 0 # [] \<and>
      ''A'' = lt_print_hash example_lt (lt_info_hash example_lt (session_ref ?d) 0) \<and>
      (\<forall>g \<in> set []. lt_print_hash example_lt (lt_info_hash example_lt (session_ref ?d) g) \<noteq> ''A'')"
    by (simp add: ezio_new_def example_lt_simps)
  then obtain s t where "lt_status example_lt (session_ref ?d) 0 = Inr s" "us_torrents ?r ''A'' = Some t"
      "t_save_path t = lts_save_path s"
      "t_last_download t = (if lts_last_download s = 0 then -1 else trunc_div (5000 - lts_last_download s) (lt_clock_per example_lt))"
    using status_reply [OF r] by blast
  moreover have "s = example_status ''/dev/sda1''" "lt_clock_per example_lt = 1000"
    using calculation(1) by (simp_all add: ezio_new_def example_lt_simps) (simp add: example_lt_def)
  ultimately show ?thesis
    using r by (intro exI [of _ ?r] exI [of _ t]) (simp add: example_status_def trunc_div_def)
qed

section \<open>Adding a torrent\<close>

text \<open>
  What libtorrent documents of \<open>session::add_torrent\<close> when it does not throw: the torrents of the session stay in it; a
  torrent whose hash the session has already is not added again, and otherwise exactly one torrent with that hash is new,
  with the save path of the parameters and paused only if their flags say so. \<open>hash_of\<close> is \<open>torrent_info::info_hash\<close>.
\<close>

definition adds_torrent :: "('s, 'n, 't, 'f) lt_api \<Rightarrow> ('t \<Rightarrow> sha1_hash) \<Rightarrow> bool" where
  "adds_torrent lt hash_of \<longleftrightarrow>
     (\<forall>atp s s'. lt_add_torrent lt atp s = (None, s') \<longrightarrow>
        (\<forall>g \<in> set (lt_get_torrents lt s). lt_info_hash lt s' g = lt_info_hash lt s g) \<and>
        (if hash_of (atp_ti atp) \<in> lt_info_hash lt s ` set (lt_get_torrents lt s)
         then set (lt_get_torrents lt s') = set (lt_get_torrents lt s)
         else \<exists>h. set (lt_get_torrents lt s') = insert h (set (lt_get_torrents lt s)) \<and>
                lt_info_hash lt s' h = hash_of (atp_ti atp) \<and>
                (\<forall>st. lt_status lt s' h = Inr st \<longrightarrow> lts_save_path st = atp_save_path atp \<and>
                   (lts_flags st AND lt_paused lt \<noteq> 0) = (atp_flags atp AND lt_paused lt \<noteq> 0))))"

text \<open>A torrent that is added appears in the reply, and the hashes that were there stay.\<close>

lemma added_appears:
  assumes "adds_torrent lt hash_of" "session_ok lt (session_ref d')"
    and "lt_add_torrent lt atp (session_ref d) = (None, session_ref d')"
    and "GetTorrentStatus lt now request \<lparr>us_hashes = [], us_torrents = Map.empty\<rparr> d = Inr (st, r)"
    and "GetTorrentStatus lt now' request' \<lparr>us_hashes = [], us_torrents = Map.empty\<rparr> d' = Inr (st', r')"
    and "k = lt_print_hash lt (hash_of (atp_ti atp))"
  shows "set (us_hashes r') = insert k (set (us_hashes r)) \<and>
    (k \<notin> set (us_hashes r) \<longrightarrow> (\<exists>t. us_torrents r' k = Some t \<and> t_save_path t = atp_save_path atp \<and>
       t_is_paused t = (atp_flags atp AND lt_paused lt \<noteq> 0)))"
proof -
  let ?s = "session_ref d" and ?s' = "session_ref d'"
  let ?known = "hash_of (atp_ti atp) \<in> lt_info_hash lt ?s ` set (lt_get_torrents lt ?s)"
  note added = assms(1) [unfolded adds_torrent_def, rule_format, OF assms(3)]
  note same = conjunct1 [OF added, rule_format] and torrents = conjunct2 [OF added]
  show ?thesis
  proof (cases ?known)
    case True
    then have "set (us_hashes r') = set (us_hashes r)"
      using same torrents by (simp add: reply_hashes [OF assms(4)] reply_hashes [OF assms(5)])
    moreover have "k \<in> set (us_hashes r)"
      using True by (auto simp: reply_hashes [OF assms(4)] assms(6))
    ultimately show ?thesis by blast
  next
    case False
    then obtain h where ts: "set (lt_get_torrents lt ?s') = insert h (set (lt_get_torrents lt ?s))"
      and h: "lt_info_hash lt ?s' h = hash_of (atp_ti atp)"
      and new: "\<And>s. lt_status lt ?s' h = Inr s \<Longrightarrow> lts_save_path s = atp_save_path atp \<and>
          (lts_flags s AND lt_paused lt \<noteq> 0) = (atp_flags atp AND lt_paused lt \<noteq> 0)"
      using torrents by (simp only: if_False) blast
    have "set (us_hashes r') = insert k (set (us_hashes r))"
      using same by (simp add: reply_hashes [OF assms(4)] reply_hashes [OF assms(5)] ts h assms(6))
    moreover obtain s t where "lt_status lt ?s' h = Inr s" "us_torrents r' k = Some t" "t_save_path t = lts_save_path s"
        "t_is_paused t = (lts_flags s AND lt_paused lt \<noteq> 0)"
      using reply_entry [OF assms(2) _ assms(5), of h k] ts h assms(6) by (auto simp: torrent_message_def make_status_def)
    ultimately show ?thesis
      using new [of s] by simp
  qed
qed

text \<open>What \<open>AddTorrent\<close> does on its branches.\<close>

lemma add_torrent_branches:
  assumes "AddTorrent lt request response d = (status, response', d')"
    and "lt_bdecode lt (ar_torrent request) 100 10000000 = (ec, node)" "lt_torrent_info lt node = (ec', ti)"
  shows "response' = response \<and> shutdown_flag d' = shutdown_flag d \<and>
    (ec \<longrightarrow> status = UNAVAILABLE ''failed to decode node'' \<and> d' = d) \<and>
    (\<not> ec \<and> ec' \<longrightarrow> status = UNAVAILABLE ''failed to save path'' \<and> d' = d) \<and>
    (\<not> ec \<and> \<not> ec' \<longrightarrow> (\<exists>atp e. lt_add_torrent lt atp (session_ref d) = (e, session_ref d') \<and>
       status = (case e of None \<Rightarrow> OK | Some m \<Rightarrow> UNAVAILABLE m) \<and> atp_ti atp = ti \<and> atp_save_path atp = ar_save_path request \<and>
       atp_max_uploads atp = (if 0 < ar_max_uploads request then ar_max_uploads request else 3) \<and>
       atp_max_connections atp = (if 0 < ar_max_connections request then ar_max_connections request else 5) \<and>
       atp_flags atp = (if ar_seeding_mode request then lt_seed_mode lt else 0) OR
         (if ar_sequential_download request then lt_sequential_download lt else 0)))"
proof -
  let ?atp = "\<lparr>atp_ti = ti, atp_save_path = ar_save_path request,
    atp_max_uploads = (if 0 < ar_max_uploads request then ar_max_uploads request else 3),
    atp_max_connections = (if 0 < ar_max_connections request then ar_max_connections request else 5),
    atp_flags = (if ar_seeding_mode request then lt_seed_mode lt else 0) OR
      (if ar_sequential_download request then lt_sequential_download lt else 0)\<rparr>"
  obtain e s where es: "lt_add_torrent lt ?atp (session_ref d) = (e, s)" by fastforce
  have eq: "add_torrent lt (ar_torrent request) (ar_save_path request) (ar_seeding_mode request) (ar_max_uploads request)
      (ar_max_connections request) (ar_sequential_download request) d =
      (if ec then (Some ''failed to decode node'', d) else if ec' then (Some ''failed to save path'', d)
       else (e, d\<lparr>session_ref := s\<rparr>))"
    using es assms(2,3)
    by (cases "ar_seeding_mode request"; cases "ar_sequential_download request") (simp_all add: add_torrent_def Let_def)
  show ?thesis
  proof (cases "ec \<or> ec'")
    case True
    then show ?thesis
      using assms(1) by (auto simp: AddTorrent_def eq split: if_splits)
  next
    case False
    then have "lt_add_torrent lt ?atp (session_ref d) = (e, session_ref d')" "shutdown_flag d' = shutdown_flag d"
        "status = (case e of None \<Rightarrow> OK | Some m \<Rightarrow> UNAVAILABLE m)" "response' = response"
      using assms(1) es by (auto simp: AddTorrent_def eq split: option.splits)
    then show ?thesis
      using False by (intro conjI impI exI [of _ ?atp] exI [of _ e]) simp_all
  qed
qed

text \<open>C38: \<open>AddTorrent\<close> from the request to the next status reply. A body that does not decode, or that gives no torrent,
  is answered with \<open>UNAVAILABLE\<close> and the daemon's message, and nothing is changed. Otherwise the session is given exactly one
  set of parameters, with the save path of the request and with 3 uploads and 5 connections for limits that are not
  positive, and the status says whether the session threw. After \<open>OK\<close> a status reply lists the hash of the torrent besides
  those it listed before, and if it is new, its message has the save path of the request and it is not paused, whatever
  options were asked for. The field \<open>result\<close> of the response is never set, and the shutdown flag is kept.\<close>

theorem added_torrent_is_reported:
  assumes "adds_torrent lt hash_of" "lt_seed_mode lt AND lt_paused lt = 0" "lt_sequential_download lt AND lt_paused lt = 0"
    and "session_ok lt (session_ref d')" "AddTorrent lt request response d = (status, response', d')"
    and "lt_bdecode lt (ar_torrent request) 100 10000000 = (ec, node)" "lt_torrent_info lt node = (ec', ti)"
    and "GetTorrentStatus lt now hashes \<lparr>us_hashes = [], us_torrents = Map.empty\<rparr> d = Inr (st, r)"
    and "GetTorrentStatus lt now' hashes' \<lparr>us_hashes = [], us_torrents = Map.empty\<rparr> d' = Inr (st', r')"
    and "k = lt_print_hash lt (hash_of ti)"
  shows "response' = response \<and> shutdown_flag d' = shutdown_flag d \<and>
    (ec \<longrightarrow> status = UNAVAILABLE ''failed to decode node'' \<and> d' = d) \<and>
    (\<not> ec \<and> ec' \<longrightarrow> status = UNAVAILABLE ''failed to save path'' \<and> d' = d) \<and>
    (\<not> ec \<and> \<not> ec' \<longrightarrow> (\<exists>atp e. lt_add_torrent lt atp (session_ref d) = (e, session_ref d') \<and>
       status = (case e of None \<Rightarrow> OK | Some m \<Rightarrow> UNAVAILABLE m) \<and> atp_ti atp = ti \<and> atp_save_path atp = ar_save_path request \<and>
       atp_max_uploads atp = (if 0 < ar_max_uploads request then ar_max_uploads request else 3) \<and>
       atp_max_connections atp = (if 0 < ar_max_connections request then ar_max_connections request else 5))) \<and>
    (status = OK \<longrightarrow> set (us_hashes r') = insert k (set (us_hashes r)) \<and>
       (k \<notin> set (us_hashes r) \<longrightarrow>
          (\<exists>t. us_torrents r' k = Some t \<and> t_save_path t = ar_save_path request \<and> \<not> t_is_paused t)))"
proof -
  note branches = add_torrent_branches [OF assms(5-7)]
  have reported: "set (us_hashes r') = insert k (set (us_hashes r)) \<and> (k \<notin> set (us_hashes r) \<longrightarrow>
      (\<exists>t. us_torrents r' k = Some t \<and> t_save_path t = ar_save_path request \<and> \<not> t_is_paused t))" if ok: "status = OK"
  proof -
    have "\<not> ec" "\<not> ec'"
      using branches ok by auto
    then obtain atp where atp: "lt_add_torrent lt atp (session_ref d) = (None, session_ref d')" "atp_ti atp = ti"
        "atp_save_path atp = ar_save_path request"
        "atp_flags atp = (if ar_seeding_mode request then lt_seed_mode lt else 0) OR
           (if ar_sequential_download request then lt_sequential_download lt else 0)"
      using branches ok by (auto split: option.splits)
    have "atp_flags atp AND lt_paused lt = 0"
      unfolding atp(4) using assms(2,3) by (simp add: bit.conj_disj_distrib2)
    moreover have "k = lt_print_hash lt (hash_of (atp_ti atp))"
      using atp(2) assms(10) by simp
    ultimately show ?thesis
      using added_appears [OF assms(1,4) atp(1) assms(8,9), of k] atp(3) by auto
  qed
  show ?thesis
    by (intro conjI) (use branches reported in blast)+
qed

lemma example_adds: "adds_torrent example_lt (\<lambda>ti. word_of_nat (length ti))"
proof -
  have known: "(\<lambda>h. fst (s ! h)) ` {0..<length s} = fst ` set s" for s :: example_session
    by (simp add: set_conv_nth image_image atLeast0LessThan lessThan_def setcompr_eq_image)
  show ?thesis
    unfolding adds_torrent_def
    by (auto simp: example_lt_def known nth_append example_status_def intro!: exI [of _ "length _"])
qed

theorem added_torrent_is_reported_witness:
  "\<exists>d' r' t. AddTorrent example_lt \<lparr>ar_torrent = [1, 2], ar_save_path = ''/dev/sda1'', ar_seeding_mode = True,
         ar_max_uploads = 0, ar_max_connections = 0, ar_sequential_download = True\<rparr> \<lparr>ar_result = False\<rparr>
         (ezio_new [(1, example_status ''/dev/sdb1'')]) = (OK, \<lparr>ar_result = False\<rparr>, d') \<and>
     GetTorrentStatus example_lt 5000 [] \<lparr>us_hashes = [], us_torrents = Map.empty\<rparr> d' = Inr (OK, r') \<and>
     set (us_hashes r') = {''A'', ''AA''} \<and> us_torrents r' ''AA'' = Some t \<and> t_save_path t = ''/dev/sda1'' \<and> \<not> t_is_paused t"
proof -
  let ?req = "\<lparr>ar_torrent = [1, 2], ar_save_path = ''/dev/sda1'', ar_seeding_mode = True,
    ar_max_uploads = 0, ar_max_connections = 0, ar_sequential_download = True\<rparr>"
  let ?new = "(example_status ''/dev/sda1'')\<lparr>lts_flags := 513\<rparr>" and ?old = "example_status ''/dev/sdb1''"
  let ?d = "ezio_new [(1, ?old)]" and ?d' = "ezio_new [(1, ?old), (2, ?new)]"
  let ?empty = "\<lparr>us_hashes = [], us_torrents = Map.empty\<rparr>"
  let ?r = "fill_response [(''A'', make_status example_lt 5000 ''A'' ?old)] ?empty"
  let ?r' = "fill_response [(''A'', make_status example_lt 5000 ''A'' ?old), (''AA'', make_status example_lt 5000 ''AA'' ?new)] ?empty"
  have r: "GetTorrentStatus example_lt 5000 [] ?empty ?d = Inr (OK, ?r)"
    "GetTorrentStatus example_lt 5000 [] ?empty ?d' = Inr (OK, ?r')"
    by (simp_all add: GetTorrentStatus_def get_torrent_status_def ezio_new_def example_lt_simps upt_rec Let_def)
  have add: "AddTorrent example_lt ?req \<lparr>ar_result = False\<rparr> ?d = (OK, \<lparr>ar_result = False\<rparr>, ?d')"
    by (simp add: AddTorrent_def add_torrent_def example_lt_def ezio_new_def Let_def)
  have lib: "lt_seed_mode example_lt AND lt_paused example_lt = 0" "lt_sequential_download example_lt AND lt_paused example_lt = 0"
    "session_ok example_lt (session_ref ?d')" "''AA'' = lt_print_hash example_lt (word_of_nat (length [1 :: 8 word, 2]))"
    "lt_bdecode example_lt (ar_torrent ?req) 100 10000000 = (False, [1, 2])" "lt_torrent_info example_lt [1, 2] = (False, [1, 2])"
    by (simp_all add: example_lt_simps ezio_new_def example_session_ok) (simp_all add: example_lt_def numeral_2_eq_2)
  have hashes: "set (us_hashes ?r) = {''A''}"
    using reply_hashes [OF r(1)] by (simp add: ezio_new_def example_lt_simps)
  have "set (us_hashes ?r') = insert ''AA'' (set (us_hashes ?r)) \<and> (''AA'' \<notin> set (us_hashes ?r) \<longrightarrow>
      (\<exists>t. us_torrents ?r' ''AA'' = Some t \<and> t_save_path t = ar_save_path ?req \<and> \<not> t_is_paused t))"
    using added_torrent_is_reported [OF example_adds lib(1-3) add lib(5,6) r lib(4)] by blast
  then show ?thesis
    using add r(2) hashes by (intro exI [of _ ?d'] exI [of _ ?r']) auto
qed

text \<open>The shutdown flag is set by \<open>Shutdown\<close> and by nothing else, and stays set whatever calls follow,
  so that polling it sees it from the first poll after the call on.\<close>

theorem shutdown_is_final:
  "shutdown_flag (foldl (serve lt) d calls) \<longleftrightarrow> shutdown_flag d \<or> CallShutdown \<in> set calls"
  by (induction calls arbitrary: d) (auto simp: serve_flag)

end
