(* ===== verification/Lifecycle.thy ===== *)
theory Lifecycle
  imports Service
begin

text \<open>
  The process around the daemon: the command line (\<open>config.cpp\<close>), the two reporting threads
  (\<open>log.cpp\<close>) and \<open>main.cpp\<close>, from the parsed options to the end of the process. The option parser
  is an argument; a \<open>std::thread\<close> is whether it can be joined, and what its function prints is a list.
\<close>

section \<open>Command line\<close>

record config =
  file_flag :: bool
  listen_address :: string

definition config_new :: config where
  "config_new = \<lparr>file_flag = False, listen_address = ''127.0.0.1:50051''\<rparr>"

text \<open>
  What \<open>boost::program_options\<close> found for the four options of the description; \<open>notify\<close> stores the
  values into the members. Parsing can throw.
\<close>

record variables_map =
  vm_help :: bool
  vm_file :: bool
  vm_listen :: "string option"
  vm_version :: bool

datatype config_result = Configured config | Exit int | Thrown string

definition notify :: "variables_map \<Rightarrow> config \<Rightarrow> config" where
  "notify vmap c =
     c\<lparr>file_flag := vm_file vmap,
       listen_address := (case vm_listen vmap of None \<Rightarrow> listen_address c | Some a \<Rightarrow> a)\<rparr>"

definition parse_from_argv ::
  "(string list \<Rightarrow> string + variables_map) \<Rightarrow> string list \<Rightarrow> config \<Rightarrow> config_result" where
  "parse_from_argv parser argv c =
     (case parser argv of
        Inl e \<Rightarrow> Thrown e
      | Inr vmap \<Rightarrow>
          let c = notify vmap c
          in if vm_help vmap then Exit 0
             else if vm_version vmap then Exit 0
             else Configured c)"

section \<open>The reporting threads\<close>

text \<open>The arguments of the line printed for a torrent, before their formatting in floating point.\<close>

record 'f speed_line =
  rl_save_path :: string
  rl_progress :: 'f
  rl_download_rate :: int
  rl_upload_rate :: int
  rl_paused :: string
  rl_finished :: string
  rl_active :: int
  rl_finished_time :: int
  rl_seeding :: int

definition report_line :: "'f torrent_status \<Rightarrow> 'f speed_line" where
  "report_line t_stat =
     \<lparr>rl_save_path = ts_save_path t_stat, rl_progress = ts_progress t_stat,
      rl_download_rate = ts_download_rate t_stat, rl_upload_rate = ts_upload_rate t_stat,
      rl_paused = (if ts_is_paused t_stat then ''P'' else '' ''),
      rl_finished = (if ts_is_finished t_stat then ''F'' else '' ''),
      rl_active = ts_active_time t_stat, rl_finished_time = ts_finished_time t_stat,
      rl_seeding = ts_seeding_time t_stat\<rparr>"

text \<open>
  The loops. \<open>seen n\<close> is what the \<open>n\<close>-th test of the flag reads, \<open>dm n\<close> the daemon and \<open>now n\<close> the
  clock after the sleep that follows it. An exception escapes from the thread function (\<open>Inl\<close>).
\<close>

partial_function (option) report_speed_from ::
  "('s, 'n, 't, 'f) lt_api \<Rightarrow> (nat \<Rightarrow> bool) \<Rightarrow> (nat \<Rightarrow> 's ezio) \<Rightarrow> (nat \<Rightarrow> int) \<Rightarrow> nat \<Rightarrow> 'f speed_line list
   \<Rightarrow> (exn + 'f speed_line list) option" where
  "report_speed_from lt seen dm now n out =
     (if seen n then Some (Inr out)
      else case get_torrent_status lt (now n) [] (dm n) of
        Inl e \<Rightarrow> Some (Inl e)
      | Inr result \<Rightarrow> report_speed_from lt seen dm now (Suc n) (out @ map (report_line \<circ> snd) result))"

definition report_speed where
  "report_speed lt seen dm now = report_speed_from lt seen dm now 0 []"

partial_function (option) report_alert_from ::
  "('s, 'n, 't, 'f) lt_api \<Rightarrow> (nat \<Rightarrow> bool) \<Rightarrow> (nat \<Rightarrow> 's ezio) \<Rightarrow> nat \<Rightarrow> (string \<times> string) list
   \<Rightarrow> (string \<times> string) list option" where
  "report_alert_from lt seen dm n out =
     (if seen n then Some out
      else report_alert_from lt seen dm (Suc n) (out @ fst (pop_alerts lt (dm n))))"

definition report_alert where
  "report_alert lt seen dm = report_alert_from lt seen dm 0 []"

text \<open>
  The object \<open>log\<close>: its two threads. Joining a thread that is not joinable throws; joining one whose
  function does not return (\<open>speed_ends\<close>, \<open>alert_ends\<close>) blocks, which is \<open>None\<close>.
\<close>

record log_threads =
  m_speed :: bool
  m_alert :: bool

definition log_new :: log_threads where
  "log_new = \<lparr>m_speed = True, m_alert = True\<rparr>"

definition log_join :: "bool \<Rightarrow> bool \<Rightarrow> log_threads \<Rightarrow> (exn + log_threads) option" where
  "log_join speed_ends alert_ends l =
     (if \<not> m_speed l then Some (Inl ''Invalid argument'')
      else if \<not> speed_ends then None
      else let l = l\<lparr>m_speed := False\<rparr>
           in if \<not> m_alert l then Some (Inl ''Invalid argument'')
              else if \<not> alert_ends then None
              else Some (Inr (l\<lparr>m_alert := False\<rparr>)))"

text \<open>How a process ends: by returning from \<open>main\<close>, by \<open>exit\<close>, by \<open>std::terminate\<close>, by undefined behaviour.\<close>

datatype process_end = Returned int | Exited int | Terminated string | Crashed ub

text \<open>
  What the destructor does next: it joins and is implicitly \<open>noexcept\<close>, so an exception in it ends the
  process by \<open>std::terminate\<close>. \<open>Inr\<close> is a destructor that returns.
\<close>

definition log_delete :: "bool \<Rightarrow> bool \<Rightarrow> log_threads \<Rightarrow> (process_end + log_threads) option" where
  "log_delete speed_ends alert_ends l =
     map_option (map_sum Terminated id) (log_join speed_ends alert_ends l)"

section \<open>\<open>main\<close>\<close>

text \<open>The settings given to the session and the disk back end chosen; the constants are libtorrent's.\<close>

record lt_settings =
  alert_mask :: flags_t
  out_enc_policy :: int
  in_enc_policy :: int
  enable_outgoing_utp :: bool
  enable_incoming_utp :: bool
  mixed_mode_algorithm :: int

datatype disk_choice = DefaultDiskIO | RawDiskIO

definition main_settings :: "flags_t \<Rightarrow> flags_t \<Rightarrow> int \<Rightarrow> int \<Rightarrow> lt_settings" where
  "main_settings category_error category_status pe_disabled prefer_tcp =
     \<lparr>alert_mask = category_error OR category_status, out_enc_policy = pe_disabled, in_enc_policy = pe_disabled,
      enable_outgoing_utp = False, enable_incoming_utp = False, mixed_mode_algorithm = prefer_tcp\<rparr>"

definition disk_io_of :: "config \<Rightarrow> disk_choice" where
  "disk_io_of c = (if \<not> file_flag c then RawDiskIO else DefaultDiskIO)"

text \<open>
  What the outside world does during a run: the calls that clients make, in batches; for each of the three threads that
  poll the flag, how many batches have been served when its test number \<open>n\<close> reads it; and the daemon and the clock as the
  reporting threads find them after the sleep.
\<close>

record 's run =
  client_calls :: "nat \<Rightarrow> rpc list"
  served_main :: "nat \<Rightarrow> nat"
  served_speed :: "nat \<Rightarrow> nat"
  served_alert :: "nat \<Rightarrow> nat"
  speed_daemon :: "nat \<Rightarrow> 's ezio"
  speed_now :: "nat \<Rightarrow> int"
  alert_daemon :: "nat \<Rightarrow> 's ezio"

text \<open>The flag as a test reads it: that of a daemon after the calls of the batches served, and only a running server serves any.\<close>

definition flag_read :: "('s, 'n, 't, 'f) lt_api \<Rightarrow> grpc_service \<Rightarrow> 's \<Rightarrow> (nat \<Rightarrow> rpc list) \<Rightarrow> nat \<Rightarrow> bool" where
  "flag_read lt sv session calls served =
     get_shutdown (foldl (serve lt) (ezio_new session)
       (case grpc_server sv of None \<Rightarrow> [] | Some _ \<Rightarrow> concat (map calls [0..<served])))"

text \<open>
  From the command line to the end of the process. \<open>session\<close> is the libtorrent session as created. An exception that
  escapes from the function of the speed thread terminates the process; \<open>None\<close> is a process that does not end. Of the
  objects of \<open>main\<close> the log is destroyed first.
\<close>

definition main_end ::
  "('s, 'n, 't, 'f) lt_api \<Rightarrow> (string list \<Rightarrow> string + variables_map) \<Rightarrow> (string \<Rightarrow> bool) \<Rightarrow> string list \<Rightarrow> 's \<Rightarrow> 's run
   \<Rightarrow> process_end option" where
  "main_end lt parser build_and_start argv session run =
     (case parse_from_argv parser argv config_new of
        Thrown e \<Rightarrow> Some (Terminated e)
      | Exit status \<Rightarrow> Some (Exited status)
      | Configured c \<Rightarrow>
          let sv = service_start build_and_start (listen_address c) service_new;
              seen = (\<lambda>served n. flag_read lt sv session (client_calls run) (served n));
              speed = report_speed lt (seen (served_speed run)) (speed_daemon run) (speed_now run);
              alert = report_alert lt (seen (served_alert run)) (alert_daemon run)
          in case (speed, wait (seen (served_main run))) of
               (Some (Inl e), _) \<Rightarrow> Some (Terminated e)
             | (_, None) \<Rightarrow> None
             | (_, Some n) \<Rightarrow>
                 (case log_join (speed \<noteq> None) (alert \<noteq> None) log_new of
                    None \<Rightarrow> None
                  | Some (Inl e) \<Rightarrow> Some (Terminated e)
                  | Some (Inr l) \<Rightarrow>
                      (case service_stop sv of
                         Inl u \<Rightarrow> Some (Crashed u)
                       | Inr sv' \<Rightarrow>
                           (case log_delete (speed \<noteq> None) (alert \<noteq> None) l of
                              None \<Rightarrow> None
                            | Some (Inl p) \<Rightarrow> Some p
                            | Some (Inr _) \<Rightarrow> Some (Returned 0)))))"

section \<open>Properties of the process\<close>

text \<open>The command line: \<open>--help\<close> and \<open>--version\<close> end the process with status 0, a parser error escapes,
  and otherwise the service listens on the address given, or on 127.0.0.1:50051 if there is none, and
  the raw disk back end is used exactly when \<open>--file\<close> is absent.\<close>

theorem parse_from_argv_outcomes:
  "case parse_from_argv parser argv config_new of
     Thrown e \<Rightarrow> parser argv = Inl e
   | Exit status \<Rightarrow> status = 0 \<and> (\<exists>vm. parser argv = Inr vm \<and> (vm_help vm \<or> vm_version vm))
   | Configured c \<Rightarrow> (\<exists>vm. parser argv = Inr vm \<and> \<not> vm_help vm \<and> \<not> vm_version vm \<and>
        (disk_io_of c = RawDiskIO) = (\<not> vm_file vm) \<and>
        listen_address c = (case vm_listen vm of None \<Rightarrow> ''127.0.0.1:50051'' | Some a \<Rightarrow> a))"
  by (auto simp: parse_from_argv_def notify_def config_new_def disk_io_of_def Let_def
      split: sum.splits if_splits option.splits)

text \<open>What a round of each report prints; a round of the speed report goes through if no status throws.\<close>

definition speed_lines :: "('s, 'n, 't, 'f) lt_api \<Rightarrow> int \<Rightarrow> 's ezio \<Rightarrow> 'f speed_line list" where
  "speed_lines lt now d =
     (case get_torrent_status lt now [] d of Inl e \<Rightarrow> [] | Inr result \<Rightarrow> map (report_line \<circ> snd) result)"

interpretation speed_loop: poll_loop seen "\<lambda>n. \<exists>m. get_torrent_status lt (now n) [] (dm n) = Inr m"
  "report_speed_from lt seen dm now" "\<lambda>n out. out @ speed_lines lt (now n) (dm n)" "\<lambda>n out. Inr out"
  for lt seen dm now
proof unfold_locales
  fix n out
  show "seen n \<Longrightarrow> report_speed_from lt seen dm now n out = Some (Inr out)"
    by (simp add: report_speed_from.simps)
  show "\<not> seen n \<Longrightarrow> \<exists>m. get_torrent_status lt (now n) [] (dm n) = Inr m \<Longrightarrow>
      report_speed_from lt seen dm now n out = report_speed_from lt seen dm now (Suc n) (out @ speed_lines lt (now n) (dm n))"
    by (subst report_speed_from.simps) (auto simp: speed_lines_def)
qed

interpretation alert_loop: poll_loop seen "\<lambda>n. True" "report_alert_from lt seen dm"
  "\<lambda>n out. out @ fst (pop_alerts lt (dm n))" "\<lambda>n out. out"
  for lt seen dm
  by unfold_locales (simp_all add: report_alert_from.simps [of lt seen dm])

lemma report_alert_from_seen: "report_alert_from lt seen dm n out = Some out' \<Longrightarrow> \<exists>m. seen m"
  by (rule report_alert_from.raw_induct [of "\<lambda>lt seen dm n out out'. \<exists>m. seen m"]) (auto split: if_splits)

lemma fold_append: "fold (\<lambda>n out. out @ f n) ns out = out @ concat (map f ns)"
  by (induction ns arbitrary: out) simp_all

text \<open>The speed report ends when the flag is seen, after one round for each test that did not see it, and
  has then printed, round by round, one line for each torrent of the session at that time.\<close>

theorem report_speed_rounds:
  assumes "seen N" "\<forall>k < N. \<not> seen k"
    and "\<forall>k < N. get_torrent_status lt (now k) [] (dm k) = Inr (m k)"
  shows "report_speed lt seen dm now =
           Some (Inr (concat (map (\<lambda>k. map (report_line \<circ> snd) (m k)) [0..<N])))"
proof -
  have "report_speed lt seen dm now = Some (Inr (concat (map (\<lambda>k. speed_lines lt (now k) (dm k)) [0..<N])))"
    using assms speed_loop.loop_ends [of 0 N seen lt now dm "[]"] by (simp add: report_speed_def fold_append)
  then show ?thesis
    using assms(3) by (auto simp: speed_lines_def intro!: arg_cong [of _ _ concat])
qed

theorem report_speed_rounds_witness:
  "\<exists>l. report_speed example_lt (\<lambda>n. 1 \<le> n) (\<lambda>n. ezio_new [(1, example_status ''/dev/sda1'')]) (\<lambda>n. 0) = Some (Inr [l]) \<and>
       rl_save_path l = ''/dev/sda1'' \<and> rl_active l = 2"
proof -
  let ?d = "ezio_new [(1, example_status ''/dev/sda1'')]"
  have "get_torrent_status example_lt 0 [] ?d =
      Inr [(''A'', make_status example_lt 0 ''A'' (example_status ''/dev/sda1''))]"
    by (simp add: get_torrent_status_def ezio_new_def example_lt_simps Let_def)
  then have "report_speed example_lt (\<lambda>n. 1 \<le> n) (\<lambda>n. ?d) (\<lambda>n. 0) =
      Some (Inr (concat (map (\<lambda>k. map (report_line \<circ> snd)
        [(''A'', make_status example_lt 0 ''A'' (example_status ''/dev/sda1''))]) [0..<1])))"
    by (intro report_speed_rounds) auto
  then show ?thesis
    by (simp add: report_line_def make_status_def example_status_def trunc_div_def)
qed

text \<open>The alert report ends at the first test that sees the flag, and has then printed, in order, the alerts
  that each round before it took from the session; without a test that sees the flag it does not end.\<close>

theorem report_alert_drains:
  "report_alert lt seen dm =
     (if \<exists>n. seen n then Some (concat (map (\<lambda>k. fst (pop_alerts lt (dm k))) [0..<(LEAST n. seen n)])) else None)"
proof (cases "\<exists>n. seen n")
  case True
  then show ?thesis
    using alert_loop.loop_least [of 0 seen lt dm "[]"] by (simp add: report_alert_def fold_append)
next
  case False
  then have "report_alert_from lt seen dm n out = None" for n out
    using report_alert_from_seen [of lt seen dm n out] by (cases "report_alert_from lt seen dm n out") auto
  with False show ?thesis by (simp add: report_alert_def)
qed

text \<open>The flag is read as set exactly when a server runs and has served a \<open>Shutdown\<close>.\<close>

lemma flag_read_iff:
  "flag_read lt sv session calls served \<longleftrightarrow> grpc_server sv \<noteq> None \<and> (\<exists>k < served. CallShutdown \<in> set (calls k))"
  by (cases "grpc_server sv") (auto simp: flag_read_def get_shutdown_def shutdown_is_final ezio_new_def)

text \<open>A thread that in the end sees every batch reads the flag as set at some test if there is a \<open>Shutdown\<close> at all.\<close>

lemma flag_read_ever:
  assumes "\<And>k. \<exists>n. k < served n"
  shows "(\<exists>n. flag_read lt (service_start build_and_start addr sv) session calls (served n)) \<longleftrightarrow>
    build_and_start addr \<and> (\<exists>k. CallShutdown \<in> set (calls k))"
  using assms by (auto simp: flag_read_iff service_start_def) blast

text \<open>The speed report ends only by reading the flag or by an exception of a status.\<close>

lemma report_speed_from_seen:
  "report_speed_from lt seen dm now n out = Some res \<Longrightarrow> (\<exists>m. seen m) \<or> (\<exists>m e. get_torrent_status lt (now m) [] (dm m) = Inl e)"
  by (rule report_speed_from.raw_induct
      [of "\<lambda>lt seen dm now n out res. (\<exists>m. seen m) \<or> (\<exists>m e. get_torrent_status lt (now m) [] (dm m) = Inl e)"])
    (auto split: if_splits sum.splits)

lemma report_speed_ends:
  assumes "\<forall>n. \<exists>m. get_torrent_status lt (now n) [] (dm n) = Inr m"
  shows "if \<exists>n. seen n then \<exists>out. report_speed lt seen dm now = Some (Inr out) else report_speed lt seen dm now = None"
proof (cases "\<exists>n. seen n")
  case True
  then show ?thesis
    using speed_loop.loop_least [of 0 seen lt now dm "[]"] assms by (auto simp: report_speed_def)
next
  case False
  have "get_torrent_status lt (now n) [] (dm n) \<noteq> Inl e" for n e
    using assms by (metis sum.distinct(1))
  then have "report_speed lt seen dm now = None"
    using report_speed_from_seen [of lt seen dm now 0 "[]"] False
    by (cases "report_speed_from lt seen dm now 0 []") (auto simp: report_speed_def)
  then show ?thesis
    using False by simp
qed

text \<open>\<open>wait\<close> returns, if at all, from a test that read the flag as set.\<close>

lemma wait_seen: "wait seen = Some n \<Longrightarrow> seen n"
  by (auto simp: wait_def dest: wait_from_seen)

text \<open>C40: How the process ends. In a configured run in which no status throws and each of the three threads that poll the
  flag in the end sees every served call, the process ends exactly when the server was started and a client calls
  \<open>Shutdown\<close>, and then never normally: \<open>main\<close> joins the log threads and the destructor of the log object joins them
  again, which throws in a destructor and is \<open>std::terminate\<close>. If the port could not be bound, nothing can shut the process down
  and it waits forever. No run of any kind returns from \<open>main\<close>, and none reaches the call through the null server.\<close>

theorem main_never_returns:
  assumes "parse_from_argv parser argv config_new = Configured c"
    and "\<forall>n. \<exists>m. get_torrent_status lt (speed_now run n) [] (speed_daemon run n) = Inr m"
    and "\<forall>k. (\<exists>n. k < served_main run n) \<and> (\<exists>n. k < served_speed run n) \<and> (\<exists>n. k < served_alert run n)"
  shows "main_end lt parser build_and_start argv session run =
           (if build_and_start (listen_address c) \<and> (\<exists>k. CallShutdown \<in> set (client_calls run k))
            then Some (Terminated ''Invalid argument'') else None) \<and>
         main_end lt' parser' build' argv' session' run' \<noteq> Some (Returned v) \<and>
         main_end lt' parser' build' argv' session' run' \<noteq> Some (Crashed u)"
proof (intro conjI)
  let ?sv = "service_start build_and_start (listen_address c) service_new"
  let ?seen = "\<lambda>served n. flag_read lt ?sv session (client_calls run) (served n)"
  let ?ends = "build_and_start (listen_address c) \<and> (\<exists>k. CallShutdown \<in> set (client_calls run k))"
  have read: "(\<exists>n. ?seen (served_main run) n) = ?ends" "(\<exists>n. ?seen (served_speed run) n) = ?ends"
    "(\<exists>n. ?seen (served_alert run) n) = ?ends"
    using assms(3) by (intro flag_read_ever; blast)+
  have speed: "if ?ends then \<exists>out. report_speed lt (?seen (served_speed run)) (speed_daemon run) (speed_now run) = Some (Inr out)
      else report_speed lt (?seen (served_speed run)) (speed_daemon run) (speed_now run) = None"
    using report_speed_ends [OF assms(2), of "?seen (served_speed run)"] unfolding read(2) .
  show "main_end lt parser build_and_start argv session run = (if ?ends then Some (Terminated ''Invalid argument'') else None)"
  proof (cases ?ends)
    case True
    then obtain out out' n where "report_speed lt (?seen (served_speed run)) (speed_daemon run) (speed_now run) = Some (Inr out)"
        "report_alert lt (?seen (served_alert run)) (alert_daemon run) = Some out'" "wait (?seen (served_main run)) = Some n"
      using speed read by (auto simp: report_alert_drains wait_until_shutdown)
    moreover have "service_stop ?sv = Inr ?sv"
      using True by (simp add: service_stop_def service_start_def)
    ultimately show ?thesis
      using True assms(1) by (simp add: main_end_def log_join_def log_new_def log_delete_def)
  next
    case False
    then have "report_speed lt (?seen (served_speed run)) (speed_daemon run) (speed_now run) = None"
        "wait (?seen (served_main run)) = None"
      using speed read by (simp_all add: wait_until_shutdown)
    then show ?thesis
      using False assms(1) by (auto simp: main_end_def)
  qed
  show "main_end lt' parser' build' argv' session' run' \<noteq> Some (Returned v)"
    by (auto simp: main_end_def log_join_def log_new_def log_delete_def Let_def
        split: config_result.split option.split sum.split)
  show "main_end lt' parser' build' argv' session' run' \<noteq> Some (Crashed u)"
    by (auto simp: main_end_def log_join_def log_new_def log_delete_def Let_def service_stop_def flag_read_iff
        split: config_result.split option.split sum.split dest: wait_seen)
qed

text \<open>Two runs with the same client, one whose server started and one whose port was taken.\<close>

theorem main_never_returns_witness:
  "\<exists>run. main_end example_lt (\<lambda>argv. Inr \<lparr>vm_help = False, vm_file = False, vm_listen = None, vm_version = False\<rparr>) (\<lambda>addr. True)
       [''ezio''] [] run = Some (Terminated ''Invalid argument'') \<and>
     main_end example_lt (\<lambda>argv. Inr \<lparr>vm_help = False, vm_file = False, vm_listen = None, vm_version = False\<rparr>) (\<lambda>addr. False)
       [''ezio''] [] run = None"
proof -
  let ?parser = "\<lambda>argv. Inr \<lparr>vm_help = False, vm_file = False, vm_listen = None, vm_version = False\<rparr>"
  let ?run = "\<lparr>client_calls = (\<lambda>k. if k = 2 then [CallVersion ''1'', CallShutdown] else []), served_main = (\<lambda>n. n div 2),
    served_speed = id, served_alert = id, speed_daemon = (\<lambda>n. ezio_new []), speed_now = int, alert_daemon = (\<lambda>n. ezio_new [])\<rparr>"
  have c: "parse_from_argv ?parser [''ezio''] config_new = Configured config_new"
    by (simp add: parse_from_argv_def notify_def config_new_def)
  have s: "\<forall>n. \<exists>m. get_torrent_status example_lt (speed_now ?run n) [] (speed_daemon ?run n) = Inr m"
    by (simp add: get_torrent_status_def ezio_new_def example_lt_simps)
  have "k < served_main ?run (2 * k + 2) \<and> k < served_speed ?run (Suc k) \<and> k < served_alert ?run (Suc k)" for k
    by simp
  then have b: "\<forall>k. (\<exists>n. k < served_main ?run n) \<and> (\<exists>n. k < served_speed ?run n) \<and> (\<exists>n. k < served_alert ?run n)"
    by blast
  have "\<exists>k. CallShutdown \<in> set (client_calls ?run k)"
    by (intro exI [of _ 2]) simp
  then show ?thesis
    using conjunct1 [OF main_never_returns [OF c s b, of "\<lambda>addr. True" "[]"]]
      conjunct1 [OF main_never_returns [OF c s b, of "\<lambda>addr. False" "[]"]]
    by (intro exI [of _ ?run]) simp
qed

end
