(* ===== verification/Disk_Parts.thy ===== *)
theory Disk_Parts
  imports Disk_Safety
begin

text \<open>
  The calls of \<open>raw_disk_io\<close> cut where they take or release a mutex or hand something to another thread: in
  \<open>Disk_Steps\<close> a call is one step, here the threads of the pools may run between its parts. The parts put together
  are the calls of \<open>Raw_Disk_IO\<close>, and memory safety holds under every interleaving of the parts with the jobs.
\<close>

section \<open>Calls in parts\<close>

text \<open>
  A call of the network thread that has begun and what it still has to do; \<open>Returned e\<close> is the state between
  calls, with what the last \<open>async_write\<close> returned. The variables are those the source keeps on the stack.
\<close>

datatype call =
    Returned bool
  | ReadLook int peer_request addr handler
  | ReadEnd "read_job option" addr handler
  | WriteInsert write_job bool
  | WriteSubmit write_job bool
  | WriteDirect int peer_request bytes handler bool
  | WriteReply handler storage_error bool
  | HashSubmit hash_job
  | HashRefused handler int

text \<open>\<open>async_read\<close>: the checks and the allocation, the look into the store buffer, the answer or the job.\<close>

definition read_begin ::
  "(addr \<times> bytes) option \<Rightarrow> int \<Rightarrow> peer_request \<Rightarrow> handler \<Rightarrow> world \<Rightarrow> ub + call \<times> world" where
  "read_begin mres idx r handler w =
     (if DEFAULT_BLOCK_SIZE < pr_length r then Inl AssertFail
      else if pr_length r \<le> 0 \<or> pr_start r < 0
      then Inr (Returned False, invoke (ReadDone handler None (io_error invalid_request file_read)) w)
      else case allocate_buffer mres (mem w) (read_buffer_pool w) of
        (None, m, p) \<Rightarrow>
          Inr (Returned False, invoke (ReadDone handler None (io_error no_memory alloc_cache_piece))
                 (w\<lparr>mem := m, read_buffer_pool := p\<rparr>))
      | (Some buf, m, p) \<Rightarrow> Inr (ReadLook idx r buf handler, w\<lparr>mem := m, read_buffer_pool := p\<rparr>))"

definition read_look :: "int \<Rightarrow> peer_request \<Rightarrow> addr \<Rightarrow> handler \<Rightarrow> world \<Rightarrow> ub + call \<times> world" where
  "read_look idx r buf handler w =
     (let block_offset = pr_start r - pr_start r mod DEFAULT_BLOCK_SIZE;
          read_offset = pr_start r - block_offset
      in if DEFAULT_BLOCK_SIZE < i32 (read_offset + pr_length r)
         then
           let loc1 = torrent_location idx (pr_piece r) block_offset;
               loc2 = torrent_location idx (pr_piece r) (i32 (block_offset + DEFAULT_BLOCK_SIZE));
               len1 = DEFAULT_BLOCK_SIZE - read_offset
           in if \<not> len1 < pr_length r then Inl AssertFail
              else case get2 loc1 loc2 (copy_halves buf read_offset len1 (pr_length r))
                          (store_buf w) (Inr (mem w)) of
                (ret, res) \<Rightarrow> bind_res res (\<lambda>m.
                  Inr (ReadEnd
                         (if ret = 3 then None
                          else if ret \<noteq> 0 then Some (ReadPartial idx r block_offset len1 ret buf handler)
                          else Some (ReadWhole idx r buf handler)) buf handler,
                       w\<lparr>mem := m\<rparr>))
         else
           case get (torrent_location idx (pr_piece r) block_offset)
                  (\<lambda>buf1. memcpy_block buf 0 buf1 (nat read_offset) (size_t (pr_length r)))
                  (store_buf w) (Inr (mem w)) of
             (hit, res) \<Rightarrow> bind_res res (\<lambda>m.
               Inr (ReadEnd (if hit then None else Some (ReadWhole idx r buf handler)) buf handler,
                    w\<lparr>mem := m\<rparr>)))"

text \<open>\<open>async_write\<close>: the allocation and the copy into the new buffer, which no other thread knows yet.\<close>

definition write_begin ::
  "(addr \<times> bytes) option \<Rightarrow> int \<Rightarrow> peer_request \<Rightarrow> bytes \<Rightarrow> observer option \<Rightarrow> handler \<Rightarrow> world
   \<Rightarrow> ub + call \<times> world" where
  "write_begin mres storage r data ob handler w =
     (if DEFAULT_BLOCK_SIZE < pr_length r then Inl AssertFail
      else case allocate_buffer_observed mres False ob (mem w) (write_buffer_pool w) of
        (Some buf, exceeded, m, p) \<Rightarrow>
          if length data < size_t (pr_length r) then Inl OutOfBounds
          else bind_res (heap_store m buf 0 (take (size_t (pr_length r)) data)) (\<lambda>m'.
            Inr (WriteInsert \<lparr>wj_storage = storage, wj_req = r, wj_buf = buf, wj_handler = handler,
                              wj_stage = Storing\<rparr> exceeded,
                 w\<lparr>mem := m', write_buffer_pool := p\<rparr>))
      | (None, exceeded, m, p) \<Rightarrow>
          Inr (WriteDirect storage r data handler exceeded, w\<lparr>mem := m, write_buffer_pool := p\<rparr>))"

definition hash_begin :: "(addr \<times> bytes) option \<Rightarrow> int \<Rightarrow> int \<Rightarrow> handler \<Rightarrow> world \<Rightarrow> call \<times> world" where
  "hash_begin mres storage piece handler w =
     (case allocate_buffer mres (mem w) (read_buffer_pool w) of
        (None, m, p) \<Rightarrow> (HashRefused handler piece, w\<lparr>mem := m, read_buffer_pool := p\<rparr>)
      | (Some buf, m, p) \<Rightarrow>
          (HashSubmit \<lparr>hj_storage = storage, hj_piece = piece, hj_buf = buf, hj_handler = handler,
                       hj_i = 0, hj_offset = 0, hj_chunks = [], hj_error = storage_error_init,
                       hj_done = False\<rparr>,
           w\<lparr>mem := m, read_buffer_pool := p\<rparr>))"

text \<open>The next part of the call.\<close>

fun advance :: "call \<Rightarrow> world \<Rightarrow> ub + call \<times> world" where
  "advance (Returned e) w = Inr (Returned e, w)"
| "advance (ReadLook idx r buf handler) w = read_look idx r buf handler w"
| "advance (ReadEnd next buf handler) w =
     Inr (Returned False,
       case next of None \<Rightarrow> invoke (ReadDone handler (Some buf) storage_error_init) w | Some j \<Rightarrow> post_read j w)"
| "advance (WriteInsert j e) w =
     Inr (WriteSubmit j e, w\<lparr>store_buf := insert_block (wj_loc j) (wj_buf j) (store_buf w)\<rparr>)"
| "advance (WriteSubmit j e) w = Inr (Returned e, w\<lparr>write_thread_pool := write_thread_pool w @ [j]\<rparr>)"
| "advance (WriteDirect storage r data handler e) w =
     bind_res (deref_storage storage w) (\<lambda>ps.
       bind_res (write_storage ps (Some data) (pr_piece r) (pr_start r) (pr_length r)
                   storage_error_init (sys w)) (\<lambda>(s, error).
         Inr (WriteReply handler error e, w\<lparr>sys := s\<rparr>)))"
| "advance (WriteReply handler error e) w = Inr (Returned e, post_ioc (WriteDone handler error) w)"
| "advance (HashSubmit j) w = Inr (Returned False, w\<lparr>hash_thread_pool := hash_thread_pool w @ [j]\<rparr>)"
| "advance (HashRefused handler piece) w =
     Inr (Returned False,
       post_ioc (HashDone handler piece sha1_hash_zero (io_error no_memory alloc_cache_piece)) w)"

text \<open>A call without interruption: no call has more than two parts after its beginning.\<close>

definition complete :: "call \<times> world \<Rightarrow> ub + call \<times> world" where
  "complete cw = bind_res (advance (fst cw) (snd cw)) (\<lambda>(c, w). advance c w)"

lemma read_parts:
  "bind_res (read_begin mres idx r handler w) complete =
   map_sum id (Pair (Returned False)) (async_read mres idx r handler w)"
  by (auto simp: read_begin_def complete_def read_look_def async_read_def bind_res_def Let_def
      split: prod.splits option.splits sum.splits)

lemma write_parts:
  "bind_res (write_begin mres storage r data ob handler w) complete =
   map_sum id (map_prod Returned id) (async_write mres storage r data ob handler w)"
  by (auto simp: write_begin_def complete_def async_write_def bind_res_def wj_loc_def deref_storage_def
      split: prod.splits option.splits sum.splits)

lemma hash_parts:
  "complete (hash_begin mres storage piece handler w) =
   Inr (Returned False, async_hash mres storage piece handler w)"
  by (auto simp: hash_begin_def complete_def async_hash_def split: prod.splits option.splits)
section \<open>Parts interleaved with jobs\<close>

text \<open>
  The network thread starts a call when none is running and then takes its parts one by one; the threads of the
  pools run between any two of them. The io context and the client's own steps belong to the network thread.
\<close>

datatype part = Step label | Advance

fun idle :: "call \<Rightarrow> bool" where
  "idle (Returned e) = True"
| "idle _ = False"

fun part_allowed :: "part \<Rightarrow> call \<times> world \<Rightarrow> bool" where
  "part_allowed (Step l) (c, w) \<longleftrightarrow> allowed l w \<and> (pool_label l \<or> idle c)"
| "part_allowed Advance (c, w) \<longleftrightarrow> \<not> idle c"

definition lift_call :: "ub + call \<times> world \<Rightarrow> fault + call \<times> world" where
  "lift_call r = map_sum Undefined id r"

fun exec_part :: "'st hasher_api \<Rightarrow> part \<Rightarrow> call \<times> world \<Rightarrow> fault + call \<times> world" where
  "exec_part api Advance (c, w) = lift_call (advance c w)"
| "exec_part api (Step (Read mres idx r h)) (c, w) = lift_call (read_begin mres idx r h w)"
| "exec_part api (Step (Write mres idx r data ob h)) (c, w) = lift_call (write_begin mres idx r data ob h w)"
| "exec_part api (Step (Hash mres idx p h)) (c, w) = Inr (hash_begin mres idx p h w)"
| "exec_part api (Step l) (c, w) = map_sum id (Pair c) (exec api l w)"

inductive part_reach :: "'st hasher_api \<Rightarrow> call \<times> world \<Rightarrow> bool" for api where
  start: "part_reach api (Returned False, raw_disk_io_new m s)"
| more: "part_reach api cw \<Longrightarrow> part_allowed l cw \<Longrightarrow> exec_part api l cw = Inr cw' \<Longrightarrow> part_reach api cw'"

text \<open>
  What the call on the way owns is accounted for by finishing it early: \<open>settle\<close> hands its buffer to the job or
  to the client. The block need not be in the store buffer for that, since a pending write need not be indexed.
\<close>

fun settle :: "call \<Rightarrow> world \<Rightarrow> world" where
  "settle (ReadLook idx r buf h) w = post_read (ReadWhole idx r buf h) w"
| "settle (ReadEnd next buf h) w =
     (case next of None \<Rightarrow> invoke (ReadDone h (Some buf) storage_error_init) w | Some j \<Rightarrow> post_read j w)"
| "settle (WriteInsert j e) w = w\<lparr>write_thread_pool := write_thread_pool w @ [j]\<rparr>"
| "settle (WriteSubmit j e) w = w\<lparr>write_thread_pool := write_thread_pool w @ [j]\<rparr>"
| "settle (HashSubmit j) w = w\<lparr>hash_thread_pool := hash_thread_pool w @ [j]\<rparr>"
| "settle _ w = w"

fun call_ok :: "call \<Rightarrow> world \<Rightarrow> bool" where
  "call_ok (ReadLook idx r buf h) w \<longleftrightarrow> read_valid r"
| "call_ok (WriteInsert j e) w \<longleftrightarrow> wj_stage j = Storing"
| "call_ok (WriteDirect idx r data h e) w \<longleftrightarrow>
     idx \<in> live_idx w \<and> 0 \<le> pr_length r \<and> pr_length r \<le> 16384 \<and> nat (pr_length r) \<le> length data"
| "call_ok _ w \<longleftrightarrow> True"

definition part_inv :: "call \<times> world \<Rightarrow> bool" where
  "part_inv cw \<longleftrightarrow> io_inv (settle (fst cw) (snd cw)) \<and> call_ok (fst cw) (snd cw)"

text \<open>A job step does not notice the call on the way.\<close>

lemma remove_at_append: "i < length xs \<Longrightarrow> remove_at i (xs @ ys) = remove_at i xs @ ys"
  by (simp add: remove_at_def)

lemma run_read_settle:
  assumes "i < length (read_thread_pool w)"
  shows "exec api (RunRead i) (settle c w) = map_sum id (settle c) (exec api (RunRead i) w)"
  using assms
  by (cases c)
    (auto simp: run_read_def post_read_def invoke_bufs post_ioc_def remove_at_append nth_append lift_ub_def bind_res_def
      deref_storage_def split: prod.splits sum.splits option.splits)

lemma run_write_settle:
  assumes "i < length (write_thread_pool w)"
  shows "exec api (RunWrite i) (settle c w) = map_sum id (settle c) (exec api (RunWrite i) w)"
  using assms
  by (cases c)
    (auto simp: run_write_def post_read_def invoke_bufs post_ioc_def remove_at_append nth_append lift_ub_def bind_res_def
      deref_storage_def release_write_buffer_def post_watermarks_def Let_def list_update_append
      split: prod.splits sum.splits option.splits write_stage.splits)
lemma hash_round_cong:
  assumes "mem w' = mem w" "store_buf w' = store_buf w" "sys w' = sys w"
  shows "hash_round st j w' = hash_round st j w"
  by (simp only: hash_round_def assms)

lemma settle_frame [simp]:
  "mem (settle c w) = mem w" "store_buf (settle c w) = store_buf w" "sys (settle c w) = sys w"
  "storages (settle c w) = storages w" "read_buffer_pool (settle c w) = read_buffer_pool w"
  "ioc (settle c w) = ioc w"
  by (cases c; simp add: post_read_def invoke_bufs split: option.splits)+

lemma settle_deref [simp]: "deref_storage idx (settle c w) = deref_storage idx w"
  by (simp add: deref_storage_def)

lemma settle_hash_pool:
  "\<exists>js. hash_thread_pool (settle c w) = hash_thread_pool w @ js \<and>
     (\<forall>h ks. settle c (w\<lparr>mem := h, hash_thread_pool := ks\<rparr>) =
        (settle c w)\<lparr>mem := h, hash_thread_pool := ks @ js\<rparr>) \<and>
     (\<forall>ks q h p. settle c (w\<lparr>hash_thread_pool := ks, mem := h, read_buffer_pool := p, ioc := q\<rparr>) =
        (settle c w)\<lparr>hash_thread_pool := ks @ js, mem := h, read_buffer_pool := p, ioc := q\<rparr>)"
  by (cases c) (simp_all add: post_read_def invoke_bufs split: option.splits)

lemma run_hash_settle:
  assumes "i < length (hash_thread_pool w)"
  shows "exec api (RunHash i) (settle c w) = map_sum id (settle c) (exec api (RunHash i) w)"
proof -
  obtain js where js: "hash_thread_pool (settle c w) = hash_thread_pool w @ js"
    and round: "\<And>h ks. settle c (w\<lparr>mem := h, hash_thread_pool := ks\<rparr>) =
      (settle c w)\<lparr>mem := h, hash_thread_pool := ks @ js\<rparr>"
    and fin: "\<And>ks q h p. settle c (w\<lparr>hash_thread_pool := ks, mem := h, read_buffer_pool := p, ioc := q\<rparr>) =
      (settle c w)\<lparr>hash_thread_pool := ks @ js, mem := h, read_buffer_pool := p, ioc := q\<rparr>"
    using settle_hash_pool [of c w] by blast
  have frame: "hash_round st j (settle c w) = hash_round st j w" for st j
    by (rule hash_round_cong) simp_all
  show ?thesis
    using assms
    by (simp add: run_hash_def js nth_append list_update_append remove_at_append lift_ub_def bind_res_def Let_def
        frame round release_read_buffer_def post_watermarks_def post_ioc_def fin
        split: prod.splits sum.splits)
qed

lemma job_settle:
  assumes "pool_label l" "allowed l w"
  shows "exec api l (settle c w) = map_sum id (settle c) (exec api l w)" "allowed l (settle c w)"
proof -
  have len: "length (read_thread_pool w) \<le> length (read_thread_pool (settle c w))"
    "length (write_thread_pool w) \<le> length (write_thread_pool (settle c w))"
    "length (hash_thread_pool w) \<le> length (hash_thread_pool (settle c w))"
    by (cases c; simp add: post_read_def invoke_bufs split: option.splits)+
  show "exec api l (settle c w) = map_sum id (settle c) (exec api l w)"
    using assms by (cases l) (simp_all add: run_read_settle run_write_settle run_hash_settle del: exec.simps)
  show "allowed l (settle c w)"
    using assms len by (cases l) simp_all
qed

lemma job_keeps_storages:
  assumes "pool_label l" "exec api l w = Inr w'"
  shows "storages w' = storages w"
  using assms
  by (cases l) (auto simp: run_read_def run_write_def run_hash_def release_read_buffer_def release_write_buffer_def
      post_ioc_def post_watermarks_def bind_res_def Let_def
      split: sum.splits prod.splits option.splits write_stage.splits if_splits)

lemma job_part_inv:
  assumes "part_inv (c, w)" "pool_label l" "allowed l w"
  shows "\<exists>w'. exec api l w = Inr w' \<and> part_inv (c, w')"
proof -
  obtain v where "exec api l (settle c w) = Inr v" "io_inv v"
    using exec_inv [of "settle c w" l api] job_settle(2) [OF assms(2,3)] assms(1) by (auto simp: part_inv_def)
  then obtain w' where w': "exec api l w = Inr w'" "v = settle c w'"
    using job_settle(1) [OF assms(2,3), of api c] by (cases "exec api l w") auto
  moreover have "call_ok c w'"
    using assms(1) job_keeps_storages [OF assms(2) w'(1)] by (cases c) (auto simp: part_inv_def)
  ultimately show ?thesis
    using \<open>io_inv v\<close> by (auto simp: part_inv_def)
qed

text \<open>The beginnings of the calls.\<close>

lemma read_begin_inv:
  assumes "io_inv w" "allowed (Read mres idx r h) w"
  shows "\<exists>c w'. read_begin mres idx r h w = Inr (c, w') \<and> part_inv (c, w')"
proof (cases "read_valid r")
  case False
  then have "read_begin mres idx r h w =
      Inr (Returned False, invoke (ReadDone h None (io_error invalid_request file_read)) w)"
    using assms(2) by (auto simp: read_begin_def read_valid_def DEFAULT_BLOCK_SIZE_def)
  then show ?thesis
    using assms(1) by (simp add: part_inv_def io_inv_invoke_none)
next
  case True
  have inv: "mem_inv w" "store_inv w" "slots_inv w" "jobs_inv w"
    using assms(1) by (simp_all add: io_inv_def)
  obtain ob m p where a: "allocate_buffer mres (mem w) (read_buffer_pool w) = (ob, m, p)"
    by (metis prod_cases3)
  show ?thesis
  proof (cases ob)
    case None
    then show ?thesis
      using a True io_inv_pool [OF assms(1) a [unfolded None]]
      by (simp add: read_begin_def read_valid_def DEFAULT_BLOCK_SIZE_def io_inv_invoke_none part_inv_def)
  next
    case (Some buf)
    let ?w = "w\<lparr>mem := m, read_buffer_pool := p\<rparr>"
    have "ledger m p (write_buffer_pool w) (buf # read_bufs w) (write_bufs w)"
      using ledger_alloc inv(1) assms(2) a [unfolded Some] unfolding mem_inv_ledger by auto
    then have "mem_inv (post_read (ReadWhole idx r buf h) ?w)"
      by (rule mem_invI) (simp_all add: post_read_def buf_defs)
    moreover have "read_job_ok (ReadWhole idx r buf h)"
      using True by (auto simp: read_job_ok_def read_valid_def)
    ultimately have "io_inv (post_read (ReadWhole idx r buf h) ?w)"
      using inv assms(2)
      by (simp add: io_inv_def store_inv_def slots_inv_def jobs_inv_def busy_def post_read_def)
    then show ?thesis
      using a Some True by (simp add: read_begin_def part_inv_def read_valid_def DEFAULT_BLOCK_SIZE_def)
  qed
qed

lemma write_begin_inv:
  assumes "io_inv w" "allowed (Write mres idx r data ob h) w"
  shows "\<exists>c w'. write_begin mres idx r data ob h w = Inr (c, w') \<and> part_inv (c, w')"
proof -
  have inv: "mem_inv w" "store_inv w" "slots_inv w" "jobs_inv w"
    using assms(1) by (simp_all add: io_inv_def)
  have ok: "malloc_ok (mem w) mres" "idx \<in> live_idx w" "0 \<le> pr_length r" "pr_length r \<le> 16384"
      "nat (pr_length r) \<le> length data" "size_t (pr_length r) = nat (pr_length r)"
    using assms(2) by (simp_all add: wrap_simps)
  obtain res e m q where a: "allocate_buffer_observed mres False ob (mem w) (write_buffer_pool w) = (res, e, m, q)"
    by (metis prod_cases4)
  show ?thesis
  proof (cases res)
    case None
    have "m = mem w" "ledger m (read_buffer_pool w) q (read_bufs w) (write_bufs w)"
      using ledger_none_observed inv(1) a [unfolded None] unfolding mem_inv_ledger by blast+
    then show ?thesis
      using a None ok inv
      by (simp add: write_begin_def DEFAULT_BLOCK_SIZE_def part_inv_def io_inv_def mem_inv_ledger store_inv_def
          slots_inv_def jobs_inv_def busy_def buf_defs)
  next
    case (Some buf)
    let ?job = "\<lparr>wj_storage = idx, wj_req = r, wj_buf = buf, wj_handler = h, wj_stage = Storing\<rparr>"
    let ?w = "\<lambda>m. w\<lparr>mem := m, write_buffer_pool := q\<rparr>"
    have l: "ledger m (read_buffer_pool w) q (read_bufs w) (buf # write_bufs w)"
      "\<exists>b. m = (mem w)(buf \<mapsto> b) \<and> length b = 16384"
      using ledger_alloc_observed inv(1) ok(1) a [unfolded Some] unfolding mem_inv_ledger by blast+
    then obtain b where b: "m buf = Some b" "length b = 16384" by auto
    let ?m = "m(buf \<mapsto> blit 0 (take (nat (pr_length r)) data) b)"
    have "ledger ?m (read_buffer_pool w) q (read_bufs w) (buf # write_bufs w)"
      using ledger_upd [OF l(1) b(1)] b(2) ok by simp
    then have "mem_inv (settle (WriteInsert ?job e) (?w ?m))"
      by (rule mem_invI) (simp_all add: buf_defs)
    moreover have "store_inv (settle (WriteInsert ?job e) (?w ?m))"
      using inv(2) by (auto simp: store_inv_def pending_append intro: backed_mono)
    ultimately have "part_inv (WriteInsert ?job e, ?w ?m)"
      using inv(3,4) ok by (simp add: part_inv_def io_inv_def slots_inv_def jobs_inv_def busy_def write_job_ok_def)
    then show ?thesis
      using a Some ok b by (simp add: write_begin_def DEFAULT_BLOCK_SIZE_def heap_simps)
  qed
qed

lemma hash_begin_inv:
  assumes "io_inv w" "allowed (Hash mres idx piece h) w"
  shows "part_inv (hash_begin mres idx piece h w)"
proof -
  obtain ob m p where a: "allocate_buffer mres (mem w) (read_buffer_pool w) = (ob, m, p)"
    by (metis prod_cases3)
  show ?thesis
  proof (cases ob)
    case None
    then show ?thesis
      using a io_inv_pool [OF assms(1) a [unfolded None]] by (simp add: hash_begin_def part_inv_def)
  next
    case (Some buf)
    then show ?thesis
      using async_hash_inv [OF assms] a by (simp add: hash_begin_def part_inv_def async_hash_def)
  qed
qed

text \<open>The look into the store buffer, on a buffer that a call holds.\<close>

lemma read_look_eq:
  assumes "read_valid r"
  shows "read_look idx r buf handler w =
    (case (if unaligned r
           then get2 (loc_first idx r) (loc_second idx r)
                  (copy_halves buf (pr_start r mod 16384) (head_len r) (pr_length r)) (store_buf w) (Inr (mem w))
           else map_prod (\<lambda>hit. if hit then 3 else 0) id
                  (get (loc_first idx r)
                    (\<lambda>buf1. memcpy_block buf 0 buf1 (nat (pr_start r mod 16384)) (nat (pr_length r)))
                    (store_buf w) (Inr (mem w))))
     of (ret, res) \<Rightarrow> bind_res res (\<lambda>m.
       Inr (ReadEnd (if ret = 3 then None
              else if ret \<noteq> 0
              then Some (ReadPartial idx r (pr_start r - pr_start r mod 16384) (head_len r) ret buf handler)
              else Some (ReadWhole idx r buf handler)) buf handler, w\<lparr>mem := m\<rparr>)))"
proof -
  note v = read_valid_simps [OF assms]
  have r: "0 < pr_length r" "pr_length r \<le> 16384" "0 \<le> pr_start r"
    using assms by (simp_all add: read_valid_def)
  show ?thesis
    using r
    by (auto simp: read_look_def v unaligned_def loc_first_def loc_second_def head_len_def
        DEFAULT_BLOCK_SIZE_def Let_def get_def bind_res_def split: prod.splits option.splits sum.splits)
qed

lemma read_look_done:
  assumes "read_valid r" "mem w buf = Some blk" "length blk = 16384"
    and e: "\<And>loc. entry_ok ((mem w)(buf := None)) buf (lookup_block (store_buf w) loc)"
  shows "\<exists>blk'. length blk' = 16384 \<and>
    read_look idx r buf handler w =
      Inr (ReadEnd (read_next idx r buf handler w) buf handler, w\<lparr>mem := (mem w)(buf \<mapsto> blk')\<rparr>)"
proof -
  define v where "v = w\<lparr>mem := (mem w)(buf := None)\<rparr>"
  have v: "mem v buf = None" "(mem v)(buf \<mapsto> b) = (mem w)(buf \<mapsto> b)" "store_buf v = store_buf w" for b
    by (simp_all add: v_def)
  have e': "entry_ok (mem v) buf (lookup_block (store_buf v) loc)" for loc
    using e by (simp add: v_def)
  have m: "(mem w)(buf \<mapsto> blk) = mem w"
    using assms(2) by (simp add: fun_upd_idem)
  note c = copy_pending [OF assms(1,3) v(1) e', of idx, unfolded v(2,3) m]
  have "read_next idx r buf handler v = read_next idx r buf handler w"
    by (simp add: read_next_def v(3))
  then show ?thesis
    using c unfolding read_look_eq [OF assms(1)]
    by (intro exI [of _ "read_fill idx r v blk"], cases "unaligned r")
      (auto simp: get2_def get_def read_next_def Let_def m read_fill_def v(3) overlay_def split: option.splits)
qed

lemma read_look_held:
  assumes "part_inv (ReadLook idx r buf h, w)"
  shows "ledger (mem w) (read_buffer_pool w) (write_buffer_pool w) (buf # read_bufs w) (write_bufs w)"
    and "\<exists>blk'. length blk' = 16384 \<and> read_look idx r buf h w =
      Inr (ReadEnd (read_next idx r buf h w) buf h, w\<lparr>mem := (mem w)(buf \<mapsto> blk')\<rparr>)"
proof -
  let ?v = "post_read (ReadWhole idx r buf h) w"
  have inv: "mem_inv ?v" "store_inv ?v" and r: "read_valid r"
    using assms by (simp_all add: part_inv_def io_inv_def)
  have v: "mem ?v = mem w" "store_buf ?v = store_buf w"
    by (simp_all add: post_read_def)
  show l: "ledger (mem w) (read_buffer_pool w) (write_buffer_pool w) (buf # read_bufs w) (write_bufs w)"
    using inv(1) ledger_mset [of "read_bufs ?v" "buf # read_bufs w" "write_bufs w" "write_bufs w"]
    by (simp add: mem_inv_ledger post_read_def buf_defs)
  then obtain blk where blk: "mem w buf = Some blk" "length blk = 16384"
    using ledger_live by fastforce
  have "entry_ok ((mem w)(buf := None)) buf (lookup_block (store_buf w) loc)" for loc
    using store_live [OF inv(1,2), of loc] l by (auto simp: v entry_ok_def ledger_def owns_def write_bufs_def post_read_def)
  from read_look_done [OF r blk this] show "\<exists>blk'. length blk' = 16384 \<and> read_look idx r buf h w =
      Inr (ReadEnd (read_next idx r buf h w) buf h, w\<lparr>mem := (mem w)(buf \<mapsto> blk')\<rparr>)"
    by blast
qed

lemma read_look_inv:
  assumes "part_inv (ReadLook idx r buf h, w)"
  shows "\<exists>c w'. read_look idx r buf h w = Inr (c, w') \<and> part_inv (c, w')"
proof -
  let ?v = "post_read (ReadWhole idx r buf h) w"
  have inv: "store_inv ?v" "slots_inv ?v" "jobs_inv ?v" and r: "read_valid r"
    using assms by (simp_all add: part_inv_def io_inv_def)
  note l = read_look_held(1) [OF assms]
  obtain blk where blk: "mem w buf = Some blk" "length blk = 16384"
    using ledger_live [OF l] by fastforce
  obtain blk' where blk': "length blk' = 16384" and eq: "read_look idx r buf h w =
      Inr (ReadEnd (read_next idx r buf h w) buf h, w\<lparr>mem := (mem w)(buf \<mapsto> blk')\<rparr>)"
    using read_look_held(2) [OF assms] by blast
  let ?w = "w\<lparr>mem := (mem w)(buf \<mapsto> blk')\<rparr>"
  have l': "ledger (mem ?w) (read_buffer_pool w) (write_buffer_pool w) (buf # read_bufs w) (write_bufs w)"
    using ledger_upd [OF l blk(1)] blk(2) blk' by simp
  have "io_inv (settle (ReadEnd next buf h) ?w)"
    if "\<And>j. next = Some j \<Longrightarrow> read_job_ok j \<and> read_job_buf j = buf \<and> read_job_idx j = idx" for "next"
    using inv that mem_invI [OF l', of "settle (ReadEnd next buf h) ?w"]
    by (cases "next")
      (simp_all add: io_inv_def store_inv_def slots_inv_def jobs_inv_def busy_def invoke_bufs post_read_def buf_defs)
  then show ?thesis
    using eq read_next_ok [OF r] by (simp add: part_inv_def)
qed

lemma advance_inv:
  assumes "part_inv (c, w)"
  shows "\<exists>c' w'. advance c w = Inr (c', w') \<and> part_inv (c', w')"
proof (cases c)
  case (ReadLook idx r buf h)
  with assms show ?thesis using read_look_inv by simp
next
  case (WriteInsert j e)
  let ?w = "w\<lparr>store_buf := insert_block (wj_loc j) (wj_buf j) (store_buf w)\<rparr>"
  have "store_inv (settle c w)" "wj_stage j = Storing"
    using assms WriteInsert by (simp_all add: part_inv_def io_inv_def)
  then have "store_inv (settle (WriteSubmit j e) ?w)"
    using WriteInsert by (auto simp: store_inv_def sb_simps backed_def pending_def split: if_splits)
  then show ?thesis
    using assms WriteInsert by (simp add: part_inv_def io_inv_def mem_inv_def slots_inv_def jobs_inv_def buf_defs busy_def)
next
  case (WriteDirect idx r data h e)
  then have ok: "idx \<in> live_idx w" "0 \<le> pr_length r" "pr_length r \<le> 16384" "nat (pr_length r) \<le> length data"
    and inv: "io_inv w"
    using assms by (simp_all add: part_inv_def)
  obtain ps where ps: "deref_storage idx w = Inr ps" "fs_ok (ps_fs ps)"
    using deref_live ok(1) inv unfolding io_inv_def by blast
  obtain s err where "write_storage ps (Some data) (pr_piece r) (pr_start r) (pr_length r)
      storage_error_init (sys w) = Inr (s, err)"
    using write_storage_safe [OF ps(2) ok(2) _ ok(4)] ok(3) by force
  then show ?thesis
    using WriteDirect ps inv by (simp add: part_inv_def io_inv_def inv_defs buf_defs busy_def)
qed (use assms in \<open>simp_all add: part_inv_def post_ioc_inv\<close>)

lemma part_step_inv:
  assumes "part_inv cw" "part_allowed l cw"
  shows "\<exists>cw'. exec_part api l cw = Inr cw' \<and> part_inv cw'"
proof -
  obtain c w where cw: "cw = (c, w)" by fastforce
  show ?thesis
  proof (cases l)
    case Advance
    then show ?thesis
      using advance_inv [of c w] assms(1) cw by (auto simp: lift_call_def)
  next
    case (Step k)
    show ?thesis
    proof (cases "pool_label k")
      case True
      then obtain w' where "exec api k w = Inr w'" "part_inv (c, w')"
        using job_part_inv [of c w k api] assms cw Step by auto
      then show ?thesis
        using True cw Step by (cases k) (simp_all del: exec.simps)
    next
      case False
      then have c: "idle c" and w: "allowed k w" "io_inv w"
        using assms cw Step by (auto simp: part_inv_def elim: idle.elims)
      have other: "\<exists>w'. exec api k w = Inr w' \<and> part_inv (c, w')"
        using exec_inv [OF w(2,1), of api] c by (auto simp: part_inv_def elim: idle.elims)
      show ?thesis
      proof (cases k)
        case (Read mres idx r h)
        then show ?thesis
          using read_begin_inv [of w mres idx r h] w cw Step by (auto simp: lift_call_def)
      next
        case (Write mres idx r data ob h)
        then show ?thesis
          using write_begin_inv [of w mres idx r data ob h] w cw Step by (auto simp: lift_call_def)
      next
        case (Hash mres idx p h)
        then show ?thesis
          using hash_begin_inv [of w mres idx p h] w cw Step by simp
      qed (use other False cw Step in \<open>auto simp del: exec.simps\<close>)
    qed
  qed
qed

lemma part_reach_inv: "part_reach api cw \<Longrightarrow> part_inv cw"
proof (induction rule: part_reach.induct)
  case (start m s)
  show ?case by (simp add: part_inv_def io_inv_init)
next
  case (more cw l cw')
  then show ?case using part_step_inv [of cw l api] by auto
qed

section \<open>Properties of the parts\<close>

text \<open>The parts make up the calls: when nothing runs between them, beginning a call and taking its parts to
  the end has the effect and the result of the whole call, on every branch, for \<open>async_read\<close>,
  \<open>async_write\<close> and \<open>async_hash\<close>.\<close>

theorem parts_make_up_the_call:
  "bind_res (read_begin mres idx r h w) complete = map_sum id (Pair (Returned False)) (async_read mres idx r h w) \<and>
   bind_res (write_begin mres idx r data ob h w) complete =
     map_sum id (map_prod Returned id) (async_write mres idx r data ob h w) \<and>
   complete (hash_begin mres idx piece h w) = Inr (Returned False, async_hash mres idx piece h w)"
  by (simp only: read_parts write_parts hash_parts)

text \<open>C15: Memory safety between the parts of a call: also when the pools run their jobs after the allocation of a
  buffer and before it is entered into the store buffer, before a block found there is copied, or before the
  job is posted, every step succeeds, every entry of the store buffer is a live 16 KiB block, and neither pool
  passes 1024 blocks.\<close>

theorem parts_memory_safe:
  assumes "part_reach api (c, w)"
  shows "(part_allowed l (c, w) \<longrightarrow> (\<exists>cw. exec_part api l (c, w) = Inr cw \<and> part_reach api cw)) \<and>
         (lookup_block (store_buf w) loc = Some b \<longrightarrow> (\<exists>blk. mem w b = Some blk \<and> length blk = 16384)) \<and>
         sint (m_size (read_buffer_pool w)) \<le> 1024 \<and> sint (m_size (write_buffer_pool w)) \<le> 1024"
proof (intro conjI impI)
  have inv: "part_inv (c, w)"
    using assms by (rule part_reach_inv)
  then have s: "mem_inv (settle c w)" "store_inv (settle c w)"
    by (simp_all add: part_inv_def io_inv_def)
  show "\<exists>cw. exec_part api l (c, w) = Inr cw \<and> part_reach api cw" if "part_allowed l (c, w)"
    using part_step_inv [OF inv that, of api] assms that by (blast intro: part_reach.more)
  show "\<exists>blk. mem w b = Some blk \<and> length blk = 16384" if "lookup_block (store_buf w) loc = Some b"
    using store_live(2) [OF s, of loc b] that by simp
  have p: "pool_ok (read_buffer_pool w)" "pool_ok (write_buffer_pool w)"
    using s(1) by (cases c; simp add: mem_inv_def post_read_def invoke_bufs split: option.splits)+
  show "sint (m_size (read_buffer_pool w)) \<le> 1024" "sint (m_size (write_buffer_pool w)) \<le> 1024"
    using p by (auto simp: lvl_ok_def lvl_def)
qed

text \<open>A write has allocated its buffer and not entered it yet, and the job of an earlier write runs meanwhile.\<close>

definition example_call :: call where
  "example_call = WriteInsert \<lparr>wj_storage = 0, wj_req = \<lparr>pr_piece = 1, pr_start = 0, pr_length = 1\<rparr>, wj_buf = 12,
                    wj_handler = 6, wj_stage = Storing\<rparr> False"

definition example_begun :: world where
  "example_begun = example_written
     \<lparr>mem := (mem example_written)(12 \<mapsto> blit 0 [77] (replicate 16384 0)),
      write_buffer_pool := \<lparr>m_size = 2, m_exceeded_max_size = False, m_observers = []\<rparr>\<rparr>"

lemma example_part_reach: "part_reach api (example_call, example_begun)"
proof -
  let ?job = "\<lparr>wj_storage = 0, wj_req = example_request, wj_buf = 9, wj_handler = 5, wj_stage = Storing\<rparr>"
  let ?w1 = "example_world\<lparr>mem := mem example_written, write_buffer_pool := write_buffer_pool example_written\<rparr>"
  let ?w2 = "?w1\<lparr>store_buf := store_buf example_written\<rparr>"
  have "part_reach api (Returned False, example_world)"
    by (rule part_reach.more [OF part_reach.start [of api Map.empty example_os],
          of "Step (NewTorrent ''/dev/sda1'' (ranges_storage [(2, 3), (8, 4)] 7) 4)"])
      (use example_open_step(1) example_open_step(2) [of api] in \<open>simp_all del: exec.simps\<close>)
  then have "part_reach api (WriteInsert ?job False, ?w1)"
    by (rule part_reach.more [of _ _ "Step (Write (Some (9, replicate 16384 0)) 0 example_request [1, 2, 3, 4, 5, 6, 7] None 5)"])
      (use example_write_step(1) in \<open>simp_all add: lift_call_def write_begin_def allocate_buffer_observed_def
        allocate_buffer_impl_def example_world_def raw_disk_io_new_def buffer_pool_init_def pool_simps
        DEFAULT_BLOCK_SIZE_def example_request_def example_written_def size_t_id heap_store_def\<close>)
  then have "part_reach api (WriteSubmit ?job False, ?w2)"
    by (rule part_reach.more [of _ _ Advance])
      (simp_all add: lift_call_def example_world_def raw_disk_io_new_def example_written_def insert_block_def
        store_buffer_init_def wj_loc_def example_request_def)
  then have "part_reach api (Returned False, example_written)"
    by (rule part_reach.more [of _ _ Advance])
      (simp_all add: lift_call_def example_world_def raw_disk_io_new_def example_written_def)
  then show ?thesis
    by (rule part_reach.more [of _ _ "Step (Write (Some (12, replicate 16384 0)) 0
        \<lparr>pr_piece = 1, pr_start = 0, pr_length = 1\<rparr> [77] None 6)"])
      (simp_all add: lift_call_def write_begin_def allocate_buffer_observed_def allocate_buffer_impl_def
        example_world_def raw_disk_io_new_def pool_simps int_to_ull_def word_le_def malloc_ok_def example_call_def example_begun_def
        DEFAULT_BLOCK_SIZE_def example_request_def example_written_def size_t_id heap_store_def)
qed

theorem parts_memory_safe_witness:
  "part_allowed (Step (RunWrite 0)) (example_call, example_begun) \<and>
   (\<exists>cw. exec_part example_hasher (Step (RunWrite 0)) (example_call, example_begun) = Inr cw)"
proof -
  have "part_allowed (Step (RunWrite 0)) (example_call, example_begun)"
    by (simp add: example_begun_def example_written_def pool_threads_def)
  then show ?thesis
    using parts_memory_safe [OF example_part_reach [of example_hasher], where l = "Step (RunWrite 0)"] by blast
qed

end
