(* ===== verification/Parts_View.thy ===== *)
theory Parts_View
  imports Disk_Parts Disk_View
begin

text \<open>
  What is seen while a call is on the way: the contract \<open>write_behind\<close> for the calls cut into parts, a second
  instance beside that of \<open>Disk_View\<close>.
\<close>

section \<open>What a call on the way will have done\<close>

text \<open>
  A write that got its buffer counts as done from then on: \<open>completed\<close> puts its block into the store buffer and its
  job into the pool. The other calls leave what is seen alone, or have not written yet (\<open>promised\<close>).
\<close>

fun completed :: "call \<Rightarrow> world \<Rightarrow> world" where
  "completed (WriteInsert j e) w =
     w\<lparr>store_buf := insert_block (wj_loc j) (wj_buf j) (store_buf w), write_thread_pool := write_thread_pool w @ [j]\<rparr>"
| "completed c w = settle c w"

fun promised :: "site \<Rightarrow> call \<Rightarrow> int \<times> nat \<Rightarrow> byte option" where
  "promised si (WriteDirect idx r data h e) c = effect si (Write None idx r data None h) c"
| "promised si _ c = None"

definition part_view :: "site \<Rightarrow> call \<times> world \<Rightarrow> int \<times> nat \<Rightarrow> byte" where
  "part_view si cw c =
     (case promised si (fst cw) c of None \<Rightarrow> view si (completed (fst cw) (snd cw)) c | Some b \<Rightarrow> b)"

fun call_orderly :: "site \<Rightarrow> call \<Rightarrow> world \<Rightarrow> bool" where
  "call_orderly si (WriteInsert j e) w \<longleftrightarrow> lookup_block (store_buf w) (wj_loc j) = None"
| "call_orderly si (WriteDirect idx r data h e) w \<longleftrightarrow> orderly si (Write None idx r data None h) w"
| "call_orderly si _ w \<longleftrightarrow> True"

definition part_view_inv :: "site \<Rightarrow> call \<times> world \<Rightarrow> bool" where
  "part_view_inv si cw \<longleftrightarrow>
     part_inv cw \<and> view_inv si (completed (fst cw) (snd cw)) \<and> call_orderly si (fst cw) (snd cw)"

fun part_orderly :: "site \<Rightarrow> part \<Rightarrow> call \<times> world \<Rightarrow> bool" where
  "part_orderly si (Step l) (c, w) \<longleftrightarrow> orderly si l w"
| "part_orderly si Advance (c, w) \<longleftrightarrow> True"

definition part_step :: "'st hasher_api \<Rightarrow> site \<Rightarrow> part \<Rightarrow> call \<times> world \<Rightarrow> call \<times> world \<Rightarrow> bool" where
  "part_step api si p cw cw' \<longleftrightarrow> part_allowed p cw \<and> part_orderly si p cw \<and> exec_part api p cw = Inr cw'"

fun part_effect :: "site \<Rightarrow> part \<Rightarrow> int \<times> nat \<Rightarrow> byte option" where
  "part_effect si (Step l) c = effect si l c"
| "part_effect si Advance c = None"

text \<open>What a part must do to the view.\<close>

definition part_refines :: "site \<Rightarrow> part \<Rightarrow> call \<times> world \<Rightarrow> call \<times> world \<Rightarrow> bool" where
  "part_refines si p cw cw' \<longleftrightarrow>
     part_view_inv si cw' \<and>
     (\<forall>c. cell_ok si c \<longrightarrow>
        part_view si cw' c = (case part_effect si p c of None \<Rightarrow> part_view si cw c | Some b \<Rightarrow> b))"

section \<open>Jobs between the parts\<close>

lemma erase_insert_other:
  assumes "lookup_block sb loc = None" "loc' \<noteq> loc"
  shows "erase_block loc' (insert_block loc buf sb) = insert_block loc buf (erase_block loc' sb)"
proof -
  have "find_entry loc (remove_entry loc' (m_store_buffer sb)) = None"
    using assms by (induction loc' "m_store_buffer sb" arbitrary: sb rule: remove_entry.induct)
      (auto simp: find_entry_map_of map_of_eq_None_iff dest: set_remove_entry [THEN subsetD])
  then show ?thesis
    using assms by (auto simp: erase_block_def insert_block_def split: option.splits)
qed

lemma completed_settle:
  "completed (WriteInsert j e) w = settle (WriteSubmit j e) (w\<lparr>store_buf := insert_block (wj_loc j) (wj_buf j) (store_buf w)\<rparr>)"
  by simp

lemma completed_io_inv:
  assumes "part_inv (c, w)"
  shows "io_inv (completed c w)"
proof (cases c)
  case (WriteInsert j e)
  then show ?thesis
    using advance_inv [OF assms] by (simp add: part_inv_def)
qed (use assms in \<open>simp_all add: part_inv_def\<close>)

text \<open>A job enters nothing into the store buffer.\<close>

lemma job_lookup_none:
  assumes "pool_label l" "exec api l w = Inr w1" "store_buffer_ok (store_buf w)" "lookup_block (store_buf w) loc = None"
  shows "lookup_block (store_buf w1) loc = None"
proof -
  have "store_buf w1 = store_buf w \<or> (\<exists>loc'. store_buf w1 = erase_block loc' (store_buf w))"
    using assms(1,2)
    by (cases l) (auto simp: run_read_def run_write_def run_hash_def release_read_buffer_def release_write_buffer_def
        post_ioc_def post_watermarks_def bind_res_iffs Let_def
        split: prod.splits option.splits write_stage.splits if_splits)
  then show ?thesis
    using assms(3,4) lookup_erase_block by auto
qed

text \<open>A step of a write job, while another write has its buffer but is not entered yet.\<close>

lemma run_write_completed:
  assumes "part_view_inv si (WriteInsert j e, w)" "i < length (write_thread_pool w)" "run_write i w = Inr w1"
  shows "run_write i (completed (WriteInsert j e) w) = Inr (completed (WriteInsert j e) w1)"
proof -
  let ?k = "write_thread_pool w ! i"
  let ?v = "completed (WriteInsert j e) w"
  have none: "lookup_block (store_buf w) (wj_loc j) = None" and st: "wj_stage j = Storing"
    using assms(1) by (simp_all add: part_view_inv_def part_inv_def)
  have "covering (\<lambda>loc. lookup_block (store_buf ?v) loc) (pending (write_thread_pool ?v))"
    using assms(1) by (simp add: part_view_inv_def view_inv_def writes_inv_def)
  then have dist: "distinct (map fst (pending (write_thread_pool w) @ [(wj_loc j, wj_buf j)]))"
    using st by (simp add: covering_def pending_append) (simp add: pending_def)
  have loc: "wj_loc ?k \<noteq> wj_loc j" if "not_erased (wj_stage ?k)"
  proof -
    have "wj_loc ?k \<in> fst ` set (pending (write_thread_pool w))"
      using that nth_mem [OF assms(2)] by (auto simp: pending_def image_image)
    moreover have "wj_loc j \<notin> fst ` set (pending (write_thread_pool w))"
      using dist by simp
    ultimately show ?thesis by metis
  qed
  show "run_write i ?v = Inr (completed (WriteInsert j e) w1)"
  proof (cases "wj_stage ?k")
    case Storing
    then show ?thesis
      using assms(2,3)
      by (auto simp: run_write_def Let_def nth_append bind_res_iffs deref_storage_def list_update_append split: option.splits)
  next
    case (Erasing err)
    then show ?thesis
      using assms(2,3) erase_insert_other [OF none, of "wj_loc ?k" "wj_buf j"] loc
      by (auto simp: run_write_def Let_def nth_append list_update_append)
  next
    case (Posting err)
    then show ?thesis
      using assms(2,3)
      by (auto simp: run_write_def Let_def nth_append remove_at_append release_write_buffer_def bind_res_iffs
          post_watermarks_def post_ioc_def)
  qed
qed

text \<open>Parts after which the same is seen, and parts with the effect of a whole step.\<close>

lemma part_same:
  assumes "part_inv (c', w')" "call_orderly si c' w'" "view_inv si (completed c' w')" "\<And>x. promised si c' x = promised si c x"
    and "\<And>x. cell_ok si x \<Longrightarrow> view si (completed c' w') x = view si (completed c w) x"
    and "\<And>x. part_effect si p x = None"
  shows "part_refines si p (c, w) (c', w')"
  using assms by (simp add: part_refines_def part_view_inv_def part_view_def split: option.splits)

lemma part_quiet:
  assumes "part_view_inv si (c, w)" "part_inv (c', w')" "call_orderly si c' w'" "\<And>x. promised si c' x = promised si c x"
    and "quiet (completed c w) (completed c' w')" "\<And>x. part_effect si p x = None"
  shows "part_refines si p (c, w) (c', w')"
proof -
  have v: "view_inv si (completed c w)"
    using assms(1) by (simp add: part_view_inv_def)
  then have "io_inv (completed c w)"
    by (simp add: view_inv_def)
  then show ?thesis
    using quiet_inv [OF v assms(5) completed_io_inv [OF assms(2)]] quiet_view [OF _ assms(5), of si] assms
    by (intro part_same) simp_all
qed

lemma job_part_refines:
  assumes "part_view_inv si (c, w)" "pool_label l" "allowed l w" "exec api l w = Inr w1"
  shows "part_refines si (Step l) (c, w) (c, w1)"
proof -
  have pi: "part_inv (c, w1)"
    using job_part_inv [OF _ assms(2,3), of c api] assms(1,4) by (auto simp: part_view_inv_def)
  have eff: "effect si l x = None" and ord: "orderly si l v" for x v
    using assms(2) by (cases l; simp)+
  have v: "view_inv si (completed c w)"
    using assms(1) by (simp add: part_view_inv_def)
  have whole: "part_refines si (Step l) (c, w) (c, w1)"
    if "exec api l (completed c w) = Inr (completed c w1)" "allowed l (completed c w)" "call_orderly si c w1"
    using exec_refines [OF v that(2) ord that(1)] that(3) pi eff
    by (intro part_same) (auto simp: refines_def)
  have ok: "store_buffer_ok (store_buf w)"
    using assms(1) by (simp add: part_view_inv_def part_inv_def io_inv_def store_inv_def)
  have co: "call_orderly si c w1"
    using assms(1) job_lookup_none [OF assms(2,4) ok] by (cases c) (simp_all add: part_view_inv_def)
  show ?thesis
  proof (cases "\<exists>j e. c = WriteInsert j e")
    case False
    then have c: "completed c u = settle c u" for u
      by (cases c) simp_all
    show ?thesis
      using whole co job_settle(1) [OF assms(2,3), of api c] job_settle(2) [OF assms(2,3), of c] assms(4) unfolding c by simp
  next
    case True
    then obtain j e where c: "c = WriteInsert j e" by blast
    show ?thesis
    proof (cases "\<exists>i. l = RunWrite i")
      case True
      then show ?thesis
        using whole co run_write_completed [of si j e w _ w1] assms(1,3,4) c by auto
    next
      case False
      have "quiet (settle c w) (settle c w1)"
        using exec_quiet [of "settle c w" l api "settle c w1"] job_settle(1) [OF assms(2,3), of api c] job_settle(2) [OF assms(2,3), of c] assms False
        by (cases l) (simp_all add: part_view_inv_def part_inv_def del: exec.simps)
      then have "quiet (completed c w) (completed c w1)"
        by (simp add: c quiet_def write_bufs_def)
      then show ?thesis
        using assms(1) pi eff co by (intro part_quiet) simp_all
    qed
  qed
qed

section \<open>The parts of the calls\<close>

lemma part_effect_Advance [simp]: "part_effect si Advance x = None"
  by simp

lemma read_look_refines:
  assumes "part_view_inv si (ReadLook idx r buf h, w)" "read_look idx r buf h w = Inr (c', w')"
  shows "part_refines si Advance (ReadLook idx r buf h, w) (c', w')"
proof -
  let ?v = "post_read (ReadWhole idx r buf h) w"
  have pi: "part_inv (ReadLook idx r buf h, w)"
    using assms(1) by (simp add: part_view_inv_def)
  have pi': "part_inv (c', w')"
    using read_look_inv [OF pi] assms(2) by simp
  have buf: "buf \<notin> set (write_bufs w)"
    using read_look_held(1) [OF pi] by (auto simp: ledger_def owns_def)
  obtain n blk where c': "c' = ReadEnd n buf h" and w': "w' = w\<lparr>mem := (mem w)(buf \<mapsto> blk)\<rparr>"
    using read_look_held(2) [OF pi] assms(2) by auto
  have "quiet ?v (completed c' w')"
    using buf by (cases n) (auto simp: c' w' quiet_def post_read_def invoke_def write_bufs_def)
  then show ?thesis
    using pi' assms(1) by (intro part_quiet) (simp_all add: c')
qed

lemma write_direct_refines:
  assumes "part_view_inv si (WriteDirect idx r data h e, w)" "advance (WriteDirect idx r data h e) w = Inr (c', w')"
  shows "part_refines si Advance (WriteDirect idx r data h e, w) (c', w')"
proof -
  let ?l = "Write None idx r data None h"
  have pi: "part_inv (WriteDirect idx r data h e, w)" and v: "view_inv si w" and ord: "orderly si ?l w"
    using assms(1) by (simp_all add: part_view_inv_def)
  then have al: "allowed ?l w"
    by (simp add: part_inv_def malloc_ok_def)
  obtain ps s err where ws: "deref_storage idx w = Inr ps"
    "write_storage ps (Some data) (pr_piece r) (pr_start r) (pr_length r) storage_error_init (sys w) = Inr (s, err)"
    and c': "c' = WriteReply h err e" and w': "w' = w\<lparr>sys := s\<rparr>"
    using assms(2) by (auto simp: bind_res_iffs)
  obtain b q where a: "allocate_buffer_observed None False None (mem w) (write_buffer_pool w) = (None, b, mem w, q)"
    by (auto simp: allocate_buffer_observed_def allocate_buffer_impl_def split: if_splits)
  define u where "u = post_ioc (WriteDone h err) (w\<lparr>mem := mem w, write_buffer_pool := q, sys := s\<rparr>)"
  have "async_write None idx r data None h w = Inr (b, u)"
    using al a ws by (simp add: async_write_def DEFAULT_BLOCK_SIZE_def u_def)
  from async_write_direct_refines [OF v al ord this a] have ref: "refines si ?l w u" .
  have pi': "part_inv (c', w')"
    using advance_inv [OF pi] assms(2) by simp
  have q: "quiet u w'"
    by (simp add: u_def w' quiet_def post_ioc_def)
  have io: "io_inv w'" "io_inv u"
    using pi' ref by (simp_all add: c' part_inv_def refines_def view_inv_def)
  have "view_inv si w'" "view si w' = view si u"
    using quiet_inv [OF _ q io(1)] quiet_view [OF io(2) q] ref by (simp_all add: refines_def)
  then show ?thesis
    using ref pi' by (auto simp: part_refines_def part_view_inv_def part_view_def c' refines_def)
qed

lemma advance_refines:
  assumes "part_view_inv si (c, w)" "advance c w = Inr (c', w')"
  shows "part_refines si Advance (c, w) (c', w')"
proof -
  have pi': "part_inv (c', w')"
    using advance_inv [of c w] assms by (auto simp: part_view_inv_def)
  have v: "view_inv si (completed c w)"
    using assms(1) by (simp add: part_view_inv_def)
  show ?thesis
  proof (cases c)
    case (ReadLook idx r buf h)
    then show ?thesis using read_look_refines assms by simp
  next
    case (WriteDirect idx r data h e)
    then show ?thesis using write_direct_refines assms by simp
  next
    case (WriteReply h err e)
    then show ?thesis
      using assms pi' by (intro part_quiet) (auto simp: quiet_def post_ioc_def)
  next
    case (HashRefused h p)
    then show ?thesis
      using assms pi' by (intro part_quiet) (auto simp: quiet_def post_ioc_def)
  qed (use assms(2) pi' v in \<open>auto intro!: part_same\<close>)
qed

lemma begin_quiet:
  assumes "part_view_inv si (c, w)" "idle c" "part_inv (c', w')" "quiet w (completed c' w')"
    and "\<And>x. promised si c' x = None" "\<And>w. call_orderly si c' w" "\<And>x. part_effect si p x = None"
  shows "part_refines si p (c, w) (c', w')"
proof -
  from assms(2) obtain e where "c = Returned e"
    by (auto elim: idle.elims)
  then show ?thesis
    using assms by (intro part_quiet) simp_all
qed

lemma read_begin_refines:
  assumes "part_view_inv si (c, w)" "idle c" "allowed (Read mres idx r h) w" "read_begin mres idx r h w = Inr (c', w')"
  shows "part_refines si (Step (Read mres idx r h)) (c, w) (c', w')"
proof -
  have inv: "io_inv w" "mem_inv w"
    using assms(1,2) by (auto simp: part_view_inv_def part_inv_def io_inv_def elim: idle.elims)
  have pi: "part_inv (c', w')"
    using read_begin_inv [OF inv(1) assms(3)] assms(4) by auto
  obtain ob m p where a: "allocate_buffer mres (mem w) (read_buffer_pool w) = (ob, m, p)"
    by (metis prod_cases3)
  have "\<forall>b \<in> set (write_bufs w). m b = mem w b"
    using allocate_buffer_frame [OF inv(2) _ a] assms(3) by auto
  then have "quiet w (completed c' w') \<and> (c' = Returned False \<or> (\<exists>buf. c' = ReadLook idx r buf h))"
    using assms(4) a
    by (auto simp: read_begin_def quiet_def invoke_def post_read_def write_bufs_def split: if_splits option.splits)
  then show ?thesis
    using assms(1,2) pi by (intro begin_quiet) auto
qed

lemma hash_begin_refines:
  assumes "part_view_inv si (c, w)" "idle c" "allowed (Hash mres idx p h) w" "hash_begin mres idx p h w = (c', w')"
  shows "part_refines si (Step (Hash mres idx p h)) (c, w) (c', w')"
proof -
  have inv: "io_inv w" "mem_inv w"
    using assms(1,2) by (auto simp: part_view_inv_def part_inv_def io_inv_def elim: idle.elims)
  have pi: "part_inv (c', w')"
    using hash_begin_inv [OF inv(1) assms(3)] assms(4) by auto
  obtain ob m q where a: "allocate_buffer mres (mem w) (read_buffer_pool w) = (ob, m, q)"
    by (metis prod_cases3)
  have "\<forall>b \<in> set (write_bufs w). m b = mem w b"
    using allocate_buffer_frame [OF inv(2) _ a] assms(3) by auto
  then have "quiet w (completed c' w') \<and> (c' = HashRefused h p \<or> (\<exists>j. c' = HashSubmit j))"
    using assms(4) a by (auto simp: hash_begin_def quiet_def write_bufs_def split: option.splits)
  then show ?thesis
    using assms(1,2) pi by (intro begin_quiet) auto
qed

lemma write_begin_refines:
  assumes "part_view_inv si (c, w)" "idle c" "allowed (Write mres idx r data ob h) w"
    and "orderly si (Write mres idx r data ob h) w" "write_begin mres idx r data ob h w = Inr (c', w')"
  shows "part_refines si (Step (Write mres idx r data ob h)) (c, w) (c', w')"
proof -
  from assms(2) obtain e where c: "c = Returned e"
    by (auto elim: idle.elims)
  have v: "view_inv si w" "io_inv w"
    using assms(1) by (simp_all add: c part_view_inv_def view_inv_def)
  have pi: "part_inv (c', w')"
    using write_begin_inv [OF v(2) assms(3)] assms(5) by auto
  obtain res ex m q where a: "allocate_buffer_observed mres False ob (mem w) (write_buffer_pool w) = (res, ex, m, q)"
    by (metis prod_cases4)
  show ?thesis
  proof (cases res)
    case None
    then have c': "c' = WriteDirect idx r data h ex" and w': "w' = w\<lparr>mem := mem w, write_buffer_pool := q\<rparr>"
      using assms(3,5) a ledger_none_observed [of "mem w" "read_buffer_pool w" "write_buffer_pool w" "read_bufs w" "write_bufs w"] v(2)
      by (auto simp: write_begin_def DEFAULT_BLOCK_SIZE_def io_inv_def mem_inv_ledger)
    have q: "quiet w w'"
      by (simp add: w' quiet_def)
    have "io_inv w'"
      using pi by (simp add: c' part_inv_def)
    then have "view_inv si w'" "view si w' = view si w"
      using quiet_inv [OF v(1) q] quiet_view [OF v(2) q] by simp_all
    then show ?thesis
      using assms(4) pi by (auto simp: part_refines_def part_view_inv_def part_view_def c c' w')
  next
    case (Some buf)
    obtain ex' w2 where w2: "async_write mres idx r data ob h w = Inr (ex', w2)"
      using async_write_inv [OF v(2) assms(3)] by blast
    have "bind_res (write_begin mres idx r data ob h w) complete = Inr (Returned ex', w2)"
      using w2 by (simp add: write_parts)
    then have "completed c' w' = w2" "\<exists>j. c' = WriteInsert j ex \<and> wj_loc j = torrent_location idx (pr_piece r) (pr_start r)"
        "store_buf w' = store_buf w"
      using assms(5) a Some
      by (auto simp: write_begin_def complete_def bind_res_iffs wj_loc_def split: if_splits)
    moreover have "refines si (Write mres idx r data ob h) w w2"
      by (rule async_write_refines [OF v(1) assms(3,4) w2])
    ultimately show ?thesis
      using pi assms(4) by (auto simp: part_refines_def part_view_inv_def part_view_def refines_def c)
  qed
qed

lemma idle_step_refines:
  assumes "part_view_inv si (c, w)" "idle c" "allowed l w" "orderly si l w" "exec_part api (Step l) (c, w) = Inr (c', w')"
  shows "part_refines si (Step l) (c, w) (c', w')"
proof -
  from assms(2) obtain e where c: "c = Returned e"
    by (auto elim: idle.elims)
  have v: "view_inv si w" "io_inv w"
    using assms(1) by (simp_all add: c part_view_inv_def view_inv_def)
  have whole: "part_refines si (Step l) (c, w) (c', w')" if "c' = c" "exec api l w = Inr w'"
    using exec_refines [OF v(1) assms(3,4) that(2)] that(1)
    by (auto simp: part_refines_def part_view_inv_def part_view_def part_inv_def refines_def view_inv_def c
        split: option.splits)
  show ?thesis
  proof (cases l)
    case (Read mres idx r h)
    then show ?thesis
      using read_begin_refines [of si c w mres idx r h] assms by (auto simp: lift_call_def map_sum_Inr_iff)
  next
    case (Write mres idx r data ob h)
    then show ?thesis
      using write_begin_refines [of si c w mres idx r data ob h] assms by (auto simp: lift_call_def map_sum_Inr_iff)
  next
    case (Hash mres idx q h)
    then show ?thesis
      using hash_begin_refines [of si c w mres idx q h] assms by auto
  qed (use whole assms(5) in \<open>auto simp: map_sum_Inr_iff simp del: exec.simps\<close>)
qed

lemma part_step_refines:
  assumes "part_view_inv si cw" "part_step api si p cw cw'"
  shows "part_refines si p cw cw'"
proof -
  obtain c w c' w' where cw: "cw = (c, w)" "cw' = (c', w')" by fastforce
  show ?thesis
  proof (cases p)
    case Advance
    then show ?thesis
      using advance_refines [of si c w c' w'] assms cw
      by (auto simp: part_step_def lift_call_def map_sum_Inr_iff)
  next
    case (Step l)
    then have l: "allowed l w" "orderly si l w" "pool_label l \<or> idle c" "exec_part api (Step l) (c, w) = Inr (c', w')"
      using assms(2) cw by (auto simp: part_step_def)
    show ?thesis
    proof (cases "pool_label l")
      case True
      then have "exec api l w = Inr w'" "c' = c"
        using l(4) by (cases l; auto simp: map_sum_Inr_iff simp del: exec.simps)+
      then show ?thesis
        using job_part_refines [of si c w l api w'] assms(1) True l(1) cw Step by simp
    next
      case False
      then show ?thesis
        using idle_step_refines [of si c w l api c' w'] assms(1) l cw Step by simp
    qed
  qed
qed

interpretation pw: write_behind "part_view_inv si" "part_view si" "cell_ok si" "part_step api si" "part_effect si" for api si
proof unfold_locales
  fix cw p cw' assume "part_view_inv si cw" "part_step api si p cw cw'"
  from part_step_refines [OF this] show "part_view_inv si cw'"
    and "\<And>x. cell_ok si x \<Longrightarrow>
      part_view si cw' x = (case part_effect si p x of None \<Rightarrow> part_view si cw x | Some b \<Rightarrow> b)"
    unfolding part_refines_def by blast+
qed

section \<open>Properties of the parts: contents\<close>

text \<open>C13: Cutting the calls into parts changes nothing that can be seen: along any interleaving of the parts of the
  calls with the jobs, the content seen is the initial one with the writes applied in the order in which their
  calls began, a write counting from the moment it has its buffer; and between calls, once the write jobs
  are through, it is what the partition holds.\<close>

theorem parts_refinement:
  assumes "view_inv si w" "lruns (part_step api si) (Returned e, w) ps (c', w')" "cell_ok si x"
  shows "part_view si (c', w') x = last_write (part_effect si) x ps (view si w x) \<and>
         (idle c' \<and> write_thread_pool w' = [] \<longrightarrow> disk si w' x = last_write (part_effect si) x ps (view si w x))"
proof -
  have inv: "part_view_inv si (Returned e, w)"
    using assms(1) by (simp add: part_view_inv_def part_inv_def view_inv_def)
  have start: "part_view si (Returned e, w) x = view si w x"
    by (simp add: part_view_def)
  have eq: "part_view si (c', w') x = last_write (part_effect si) x ps (view si w x)"
    using pw.run_seen [OF assms(2) inv assms(3)] start by simp
  moreover have "disk si w' x = part_view si (c', w') x" if "idle c'" "write_thread_pool w' = []"
  proof -
    from that(1) obtain e' where c': "c' = Returned e'"
      by (auto elim: idle.elims)
    have "view_inv si w'"
      using pw.run_inv [OF assms(2) inv] by (simp add: part_view_inv_def c')
    then show ?thesis
      using view_is_disk [OF _ that(2)] by (simp add: part_view_def c')
  qed
  ultimately show ?thesis by simp
qed

text \<open>The beginning of a write, and the byte it is about to store.\<close>

theorem parts_refinement_witness:
  "\<exists>c' w'. lruns (part_step example_hasher example_site) (Returned False, example_world)
     [Step (Write (Some (9, replicate 16384 0)) 0 example_request [1, 2, 3, 4, 5, 6, 7] None 5)] (c', w') \<and>
     store_buf w' = store_buf example_world \<and> part_view example_site (c', w') (0, 5) = 6"
proof -
  let ?l = "Write (Some (9, replicate 16384 0)) 0 example_request [1, 2, 3, 4, 5, 6, 7] None 5"
  let ?c = "WriteInsert \<lparr>wj_storage = 0, wj_req = example_request, wj_buf = 9, wj_handler = 5, wj_stage = Storing\<rparr> False"
  let ?w = "example_world\<lparr>mem := mem example_written, write_buffer_pool := write_buffer_pool example_written\<rparr>"
  have "exec_part example_hasher (Step ?l) (Returned False, example_world) = Inr (?c, ?w)"
    by (simp add: lift_call_def write_begin_def allocate_buffer_observed_def allocate_buffer_impl_def example_world_def
        raw_disk_io_new_def buffer_pool_init_def pool_simps DEFAULT_BLOCK_SIZE_def example_request_def
        example_written_def size_t_id heap_store_def)
  then have "part_step example_hasher example_site (Step ?l) (Returned False, example_world) (?c, ?w)"
    using example_client_step by (simp add: part_step_def client_step_def)
  then have run: "lruns (part_step example_hasher example_site) (Returned False, example_world) [Step ?l] (?c, ?w)"
    using lruns.none by (rule lruns.more)
  have "cell_ok example_site (0, 5)"
    by (simp add: cell_ok_def example_site_def piece_size_def example_storage_def ranges_storage_def)
  from parts_refinement [OF example_view_inv(1) run this] have "part_view example_site (?c, ?w) (0, 5) = 6"
    by (simp add: example_site_def covers_def example_request_def)
  moreover have "store_buf ?w = store_buf example_world"
    by simp
  ultimately show ?thesis
    using run by (intro exI conjI)
qed

end
