(* ===== verification/Disk_Errors.thy ===== *)
theory Disk_Errors
  imports Disk_Progress
begin

text \<open>
  The errors handlers are called with: an invariant over all runs that every completion, queued or called, carries
  an error for one of the reasons the source has for it.
\<close>

section \<open>Errors that may be reported\<close>

text \<open>A file name that \<open>std::stoll\<close> rejects, in a torrent of a set.\<close>

definition bad_name :: "file_storage set \<Rightarrow> int \<Rightarrow> bool" where
  "bad_name F f \<longleftrightarrow> (\<exists>fs \<in> F. \<exists>e. stoll16 (fs_file_name fs f) = Inl e)"

definition parse_error :: "int \<Rightarrow> operation_t \<Rightarrow> storage_error" where
  "parse_error f operation = \<lparr>err_ec = parse_failed, err_operation = operation, err_file = f\<rparr>"

definition transfer_error :: "file_storage set \<Rightarrow> operation_t \<Rightarrow> storage_error \<Rightarrow> bool" where
  "transfer_error F operation e \<longleftrightarrow>
     e = storage_error_init \<or> (\<exists>f. bad_name F f \<and> e = parse_error f operation)"

text \<open>What each completion may carry; those of the remaining operations carry constants.\<close>

fun justified :: "file_storage set \<Rightarrow> completion \<Rightarrow> bool" where
  "justified F (ReadDone h None e) \<longleftrightarrow>
     e = io_error invalid_request file_read \<or> e = io_error no_memory alloc_cache_piece"
| "justified F (ReadDone h (Some buf) e) \<longleftrightarrow> transfer_error F file_read e"
| "justified F (WriteDone h e) \<longleftrightarrow> transfer_error F file_write e"
| "justified F (HashDone h p d e) \<longleftrightarrow>
     d = sha1_hash_zero \<and> e = io_error no_memory alloc_cache_piece \<or> transfer_error F file_read e"
| "justified F (MoveDone h s p e) \<longleftrightarrow>
     s = status_fatal_disk_error \<and> e = io_error operation_not_supported op_unknown"
| "justified F (CheckDone h s e) \<longleftrightarrow> s = status_no_error \<and> e = storage_error_init"
| "justified F (StopDone ho) \<longleftrightarrow> True"
| "justified F (RenameDone h name i e) \<longleftrightarrow> e = storage_error_init"
| "justified F (DeleteDone h e) \<longleftrightarrow> e = storage_error_init"
| "justified F (PriorityDone h e prio) \<longleftrightarrow> e = io_error operation_not_supported op_unknown"
| "justified F (ClearDone h p) \<longleftrightarrow> True"

fun stage_error :: "write_stage \<Rightarrow> storage_error" where
  "stage_error Storing = storage_error_init"
| "stage_error (Erasing e) = e"
| "stage_error (Posting e) = e"

definition err_inv :: "file_storage set \<Rightarrow> world \<Rightarrow> bool" where
  "err_inv F w \<longleftrightarrow>
     (\<forall>idx ps. (idx, Some ps) \<in> set (storages w) \<longrightarrow> ps_fs ps \<in> F) \<and>
     (\<forall>j \<in> set (write_thread_pool w). transfer_error F file_write (stage_error (wj_stage j))) \<and>
     (\<forall>j \<in> set (hash_thread_pool w). transfer_error F file_read (hj_error j)) \<and>
     (\<forall>c. Complete c \<in> set (ioc w) \<or> c \<in> set (invoked w) \<longrightarrow> justified F c)"

lemma transfer_error_init [simp]: "transfer_error F operation storage_error_init"
  by (simp add: transfer_error_def)









section \<open>Every step keeps them justified\<close>



lemma err_inv_frame [step_simps]:
  "err_inv F (w\<lparr>mem := m\<rparr>) = err_inv F w" "err_inv F (w\<lparr>read_buffer_pool := p\<rparr>) = err_inv F w"
  "err_inv F (w\<lparr>write_buffer_pool := p\<rparr>) = err_inv F w" "err_inv F (w\<lparr>sys := s\<rparr>) = err_inv F w"
  "err_inv F (w\<lparr>client_bufs := c\<rparr>) = err_inv F w" "err_inv F (w\<lparr>store_buf := sb\<rparr>) = err_inv F w"
  "err_inv F (w\<lparr>read_thread_pool := js\<rparr>) = err_inv F w" "err_inv F (post_read j w) = err_inv F w"
  "err_inv F (post_watermarks qs w) = err_inv F w"
  by (auto simp: err_inv_def post_read_def post_watermarks_def)














section \<open>Properties of the disk back end: errors\<close>






end
