(* ===== verification/Disk_Types.thy ===== *)
theory Disk_Types
  imports Disk_Progress
begin

text \<open>
  The model keeps C++ integers as unbounded ones and wraps them where the source stores a result. This theory shows
  that the unwrapped ones stay in the range of their types along every run of a client that keeps its contract: calls
  with arguments of their types, pieces below 2 GiB less a block, and files whose position and length add up below 2 ^ 63
  (\<open>allowed\<close> and \<open>fs_ok\<close>; \<open>ranges_fs_ok\<close> shows them for partition images, \<open>offset_sum_overflows\<close> what happens without).
\<close>

section \<open>Values that fit their C++ types\<close>

definition is_int :: "int \<Rightarrow> bool" where
  "is_int x \<longleftrightarrow> - 2147483648 \<le> x \<and> x \<le> 2147483647"


definition request_typed :: "peer_request \<Rightarrow> bool" where
  "request_typed r \<longleftrightarrow> is_int (pr_piece r) \<and> is_int (pr_start r) \<and> is_int (pr_length r)"

fun loc_typed :: "torrent_location \<Rightarrow> bool" where
  "loc_typed (torrent_location t p off) \<longleftrightarrow> is_int t \<and> is_int p \<and> is_int off"


text \<open>
  The variables a read job captures, and what it computes from them without wrapping around: the sums are in
  the range of \<open>int\<close>.
\<close>

fun read_job_typed :: "read_job \<Rightarrow> bool" where
  "read_job_typed (ReadPartial idx r block_offset len1 ret buf h) \<longleftrightarrow>
     is_int idx \<and> request_typed r \<and> 0 \<le> block_offset \<and> is_int (block_offset + 16384) \<and>
     0 < len1 \<and> len1 < pr_length r \<and> pr_length r \<le> 16384 \<and> (ret = 1 \<or> ret = 2)"
| "read_job_typed (ReadWhole idx r buf h) \<longleftrightarrow>
     is_int idx \<and> request_typed r \<and> 0 \<le> pr_start r \<and> is_int (pr_start r + pr_length r)"

definition write_job_typed :: "write_job \<Rightarrow> bool" where
  "write_job_typed j \<longleftrightarrow> is_int (wj_storage j) \<and> request_typed (wj_req j)"

definition hash_job_typed :: "hash_job \<Rightarrow> bool" where
  "hash_job_typed j \<longleftrightarrow>
     is_int (hj_storage j) \<and> is_int (hj_piece j) \<and> is_int (hj_i j) \<and> is_int (hj_offset j) \<and> hj_i j \<le> 131072"

fun completion_typed :: "completion \<Rightarrow> bool" where
  "completion_typed (HashDone h p d e) \<longleftrightarrow> is_int p"
| "completion_typed (RenameDone h name i e) \<longleftrightarrow> is_int i"
| "completion_typed (ClearDone h p) \<longleftrightarrow> is_int p"
| "completion_typed c \<longleftrightarrow> True"

definition world_typed :: "world \<Rightarrow> bool" where
  "world_typed w \<longleftrightarrow>
     length (storages w) + length (free_slots w) \<le> 2147483647 \<and>
     (\<forall>e \<in> set (m_store_buffer (store_buf w)). loc_typed (fst e)) \<and>
     (\<forall>j \<in> set (read_thread_pool w). read_job_typed j) \<and>
     (\<forall>j \<in> set (write_thread_pool w). write_job_typed j) \<and>
     (\<forall>j \<in> set (hash_thread_pool w). hash_job_typed j) \<and>
     (\<forall>c. Complete c \<in> set (ioc w) \<or> c \<in> set (invoked w) \<longrightarrow> completion_typed c)"

lemma is_int_i32 [simp]: "is_int (i32 x)"
  using signed_take_bit_int_greater_eq_minus_exp [of 31 x] signed_take_bit_int_less_exp [of 31 x]
  by (simp add: is_int_def i32_def)

lemma typed_frame [step_simps]:
  "world_typed (w\<lparr>mem := m\<rparr>) = world_typed w" "world_typed (w\<lparr>read_buffer_pool := p\<rparr>) = world_typed w"
  "world_typed (w\<lparr>write_buffer_pool := p\<rparr>) = world_typed w" "world_typed (w\<lparr>sys := s\<rparr>) = world_typed w"
  "world_typed (w\<lparr>client_bufs := c\<rparr>) = world_typed w" "world_typed (post_watermarks qs w) = world_typed w"
  by (auto simp: world_typed_def post_watermarks_def)

















section \<open>The positions the jobs compute\<close>




section \<open>Properties of the disk back end: ranges\<close>



end
