(* ===== verification/Disk_Clear.thy ===== *)
theory Disk_Clear
  imports Disk_View
begin

text \<open>
  \<open>async_clear_piece\<close> is called when a piece fails its hash check, before its blocks are requested again. The
  interface expects the handler to be called after the outstanding writes of the piece; \<open>raw_disk_io\<close> posts it at
  once. This theory shows what comes of it.
\<close>

section \<open>Runs of the io context and of write jobs\<close>

text \<open>What the io context leaves alone.\<close>

definition still :: "world \<Rightarrow> world \<Rightarrow> bool" where
  "still w w' \<longleftrightarrow> mem w' = mem w \<and> sys w' = sys w \<and> storages w' = storages w \<and> store_buf w' = store_buf w \<and>
     write_thread_pool w' = write_thread_pool w \<and> write_buffer_pool w' = write_buffer_pool w"

lemma run_ioc_still:
  "run_ioc alive w = Inr w' \<Longrightarrow> still w w' \<and> ioc w' = tl (ioc w) \<and> set (invoked w) \<subseteq> set (invoked w') \<and>
     (\<forall>c q. ioc w = Complete c # q \<longrightarrow> c \<in> set (invoked w'))"
  by (auto simp: run_ioc_def still_def invoke_def split: list.splits ioc_job.splits completion.splits option.splits)

text \<open>The io context, run until its queue is empty, calls every handler that was in it.\<close>

lemma drain_ioc:
  assumes "io_inv w"
  shows "\<exists>ls w'. io_run api w ls w' \<and> (\<forall>l \<in> set ls. \<exists>alive. l = RunIoc alive) \<and> still w w' \<and> io_inv w' \<and>
     set (invoked w) \<subseteq> set (invoked w') \<and> (\<forall>c. Complete c \<in> set (ioc w) \<longrightarrow> c \<in> set (invoked w'))"
  using assms
proof (induction "ioc w" arbitrary: w)
  case Nil
  then show ?case
    by (intro exI [of _ "[]"] exI [of _ w]) (auto simp: still_def intro: io_run.none)
next
  case (Cons a q)
  obtain w1 where w1: "run_ioc (\<lambda>_. True) w = Inr w1" "io_inv w1"
    using run_ioc_inv [OF Cons.prems] by blast
  note s = run_ioc_still [OF w1(1)]
  have "q = ioc w1"
    using s Cons.hyps(2) [symmetric] by simp
  from Cons.hyps(1) [OF this w1(2)] obtain ls w' where r: "io_run api w1 ls w'" "\<forall>l \<in> set ls. \<exists>alive. l = RunIoc alive"
      "still w1 w'" "io_inv w'" "set (invoked w1) \<subseteq> set (invoked w')"
      "\<forall>c. Complete c \<in> set (ioc w1) \<longrightarrow> c \<in> set (invoked w')"
    by blast
  have "io_run api w (RunIoc (\<lambda>_. True) # ls) w'"
    using w1(1) by (intro io_run.step [OF _ _ r(1)]) (simp_all add: lift_ub_def)
  moreover have "c \<in> set (invoked w')" if "Complete c \<in> set (ioc w)" for c
    using that s r(5,6) Cons.hyps(2) [symmetric] by auto
  ultimately show ?case
    using r s by (intro exI [of _ "RunIoc (\<lambda>_. True) # ls"] exI [of _ w']) (auto simp: still_def)
qed

text \<open>A write job stores its block.\<close>

lemma store_step:
  assumes "io_inv w" "site_inv si w" "i < length (write_thread_pool w)" "i < pool_threads"
    and "write_thread_pool w ! i = j" "wj_stage j = Storing" "wj_storage j = si_idx si" "whole_block si (wj_req j)"
    and "covers (wj_req j) c"
  shows "\<exists>w' e. exec api (RunWrite i) w = Inr w' \<and> allowed (RunWrite i) w \<and> io_inv w' \<and> site_inv si w' \<and> mem w' = mem w \<and>
     write_thread_pool w' = (write_thread_pool w)[i := j\<lparr>wj_stage := Erasing e\<rparr>] \<and>
     disk si w' c = the (mem w (wj_buf j)) ! (snd c mod 16384)"
proof -
  obtain w' where w': "run_write i w = Inr w'" "io_inv w'"
    using run_write_inv [OF assms(1,3)] by blast
  obtain blk ps s err where b: "mem w (wj_buf j) = Some blk" "nat (pr_length (wj_req j)) \<le> length blk"
      "deref_storage (wj_storage j) w = Inr ps"
      "write_storage ps (Some blk) (pr_piece (wj_req j)) (pr_start (wj_req j)) (pr_length (wj_req j))
        storage_error_init (sys w) = Inr (s, err)"
    and eq: "w' = w\<lparr>sys := s, write_thread_pool := (write_thread_pool w)[i := j\<lparr>wj_stage := Erasing err\<rparr>]\<rparr>"
    using run_write_storing [OF assms(1,3) _ w'(1) assms(5) [symmetric]] assms(5,6) by blast
  have "sys w' = s"
    by (simp add: eq)
  note d = write_storage_disk [OF assms(1,2) b(3) _ b(2,4) this]
  have "site_inv si w'"
    using assms(2,8) d(1,2) by (simp add: site_inv_def eq)
  moreover have "disk si w' c = blk ! (snd c mod 16384)"
    using d(3) [OF _ covers_cell_ok [OF assms(8,9)]] assms(7-9) by simp
  ultimately show ?thesis
    using w' b(1) assms(3,4) by (intro exI [of _ w'] exI [of _ err]) (simp add: eq lift_ub_def)
qed

text \<open>A write job that has stored its block, at the head of the pool, runs to its end.\<close>

lemma finish_step:
  assumes "io_inv w" "write_thread_pool w = j # js" "wj_stage j = Erasing e"
  shows "\<exists>w'. io_run api w [RunWrite 0, RunWrite 0] w' \<and> io_inv w' \<and> sys w' = sys w \<and> write_thread_pool w' = js"
proof -
  obtain w1 where w1: "run_write 0 w = Inr w1" "io_inv w1"
    using run_write_inv [OF assms(1), of 0] assms(2) by auto
  have p1: "write_thread_pool w1 = j\<lparr>wj_stage := Posting e\<rparr> # js" "sys w1 = sys w"
    using w1(1) assms(2,3) by (auto simp: run_write_def)
  obtain w2 where w2: "run_write 0 w1 = Inr w2" "io_inv w2"
    using run_write_inv [OF w1(2), of 0] p1(1) by auto
  have "write_thread_pool w2 = js" "sys w2 = sys w1"
    using w2(1) p1(1) by (auto simp: run_write_def release_write_buffer_def bind_res_iffs post_ioc_def
        post_watermarks_def remove_at_def)
  moreover have "io_run api w [RunWrite 0, RunWrite 0] w2"
    using w1(1) w2(1) p1(1) assms(2)
    by (auto intro!: io_run.step [OF _ _ io_run.step [OF _ _ io_run.none]] simp: lift_ub_def pool_threads_def)
  ultimately show ?thesis
    using w2(2) p1(2) by auto
qed

lemma finish_two:
  assumes "io_inv w" "write_thread_pool w = [j, k]" "wj_stage j = Erasing e" "wj_stage k = Erasing e'"
  shows "\<exists>ls w'. io_run api w ls w' \<and> (\<forall>l \<in> set ls. job_label l) \<and> write_thread_pool w' = [] \<and> sys w' = sys w"
proof -
  obtain w1 where 1: "io_run api w [RunWrite 0, RunWrite 0] w1" "io_inv w1" "sys w1 = sys w" "write_thread_pool w1 = [k]"
    using finish_step [OF assms(1-3)] by blast
  obtain w2 where 2: "io_run api w1 [RunWrite 0, RunWrite 0] w2" "sys w2 = sys w1" "write_thread_pool w2 = []"
    using finish_step [OF 1(2,4) assms(4)] by blast
  show ?thesis
    using io_run_append [OF 1(1) 2(1)] 1(3) 2(2,3)
    by (intro exI [of _ "[RunWrite 0, RunWrite 0] @ [RunWrite 0, RunWrite 0]"] exI [of _ w2]) simp
qed

text \<open>Two writes of one block in the pool: the block that is stored last stays, and either may be.\<close>

lemma two_writes:
  assumes "io_inv w" "site_inv si w" "write_thread_pool w = [j, k]" "wj_stage j = Storing" "wj_stage k = Storing"
    and "wj_storage j = si_idx si" "wj_storage k = si_idx si" "wj_req j = r" "wj_req k = r" "whole_block si r" "covers r c"
    and "{i, i'} = {0, 1}" "z = write_thread_pool w ! i'"
  shows "\<exists>ls w'. io_run api w ls w' \<and> (\<forall>l \<in> set ls. job_label l) \<and> write_thread_pool w' = [] \<and>
     disk si w' c = the (mem w (wj_buf z)) ! (snd c mod 16384)"
proof -
  have i: "i < 2" "i' < 2" "i \<noteq> i'"
    using assms(12) by (auto simp: doubleton_eq_iff)
  have jobs: "wj_stage x = Storing \<and> wj_storage x = si_idx si \<and> wj_req x = r" if "x \<in> {j, k}" for x
    using that assms(4-9) by auto
  have nth: "[j, k] ! n \<in> {j, k}" if "n < 2" for n
    using that by (auto simp: less_2_cases_iff)
  obtain w1 e where 1: "exec api (RunWrite i) w = Inr w1" "allowed (RunWrite i) w" "io_inv w1" "site_inv si w1" "mem w1 = mem w"
      "write_thread_pool w1 = [j, k][i := ([j, k] ! i)\<lparr>wj_stage := Erasing e\<rparr>]"
    using store_step [OF assms(1,2), of i "[j, k] ! i" c api] jobs [OF nth [OF i(1)]] i(1) assms(3,10,11)
    by (auto simp: pool_threads_def)
  have l: "write_thread_pool w1 ! i' = z"
    using 1(6) i assms(3,13) by (auto simp: less_2_cases_iff)
  have len: "length (write_thread_pool w1) = 2" and z: "wj_stage z = Storing" "wj_storage z = si_idx si" "wj_req z = r"
    using 1(6) jobs [OF nth [OF i(2)]] assms(3,13) by (simp_all del: list_update.simps)
  obtain w2 e' where 2: "exec api (RunWrite i') w1 = Inr w2" "allowed (RunWrite i') w1" "io_inv w2"
      "write_thread_pool w2 = (write_thread_pool w1)[i' := z\<lparr>wj_stage := Erasing e'\<rparr>]"
      "disk si w2 c = the (mem w (wj_buf z)) ! (snd c mod 16384)"
    using store_step [OF 1(3,4) _ _ l, of c api] z len i(2) assms(10,11) 1(5)
    by (auto simp: pool_threads_def)
  obtain x y a b where "write_thread_pool w2 = [x, y]" "wj_stage x = Erasing a" "wj_stage y = Erasing b"
    using i 1(6) 2(4) assms(3,13) by (auto simp: less_2_cases_iff)
  from finish_two [OF 2(3) this] obtain ls w' where f: "io_run api w2 ls w'" "\<forall>l \<in> set ls. job_label l"
      "write_thread_pool w' = []" "sys w' = sys w2"
    by blast
  have "io_run api w (RunWrite i # RunWrite i' # ls) w'"
    by (intro io_run.step [OF 1(2,1)] io_run.step [OF 2(2,1)] f(1))
  then show ?thesis
    using f 2(5) disk_cong [OF f(4), of si]
    by (intro exI [of _ "RunWrite i # RunWrite i' # ls"] exI [of _ w']) simp
qed

text \<open>A second write of the block whose job is the only one in the pool gets a buffer whenever \<open>malloc\<close> gives one.\<close>

lemma second_write:
  assumes "view_inv si w" "write_thread_pool w = [j]" "wj_storage j = si_idx si" "covers (wj_req j) c"
    and "allowed (Write (Some m) (si_idx si) (wj_req j) data ob h) w"
  shows "\<exists>w' k. exec api (Write (Some m) (si_idx si) (wj_req j) data ob h) w = Inr w' \<and> io_inv w' \<and> site_inv si w' \<and>
     write_thread_pool w' = [j, k] \<and> wj_stage k = Storing \<and> wj_storage k = si_idx si \<and> wj_req k = wj_req j \<and>
     mem w' (wj_buf j) = mem w (wj_buf j) \<and>
     the (mem w' (wj_buf k)) ! (snd c mod 16384) = data ! (snd c - nat (pr_start (wj_req j)))"
proof -
  have inv: "io_inv w" "mem_inv w" "site_inv si w" "whole_block si (wj_req j)"
    using assms(1-3) by (auto simp: view_inv_def io_inv_def writes_inv_def)
  have "pool_level (write_buffer_pool w) = 1" "pool_ok (write_buffer_pool w)"
    using inv(2) assms(2) by (simp_all add: mem_inv_def write_bufs_def)
  then have "\<exists>e m' q. allocate_buffer_observed (Some m) False ob (mem w) (write_buffer_pool w) = (Some (fst m), e, m', q)"
    by (cases m) (auto simp: allocate_buffer_observed_def allocate_buffer_impl_def Let_def pool_simps)
  then obtain e m' q where al: "allocate_buffer_observed (Some m) False ob (mem w) (write_buffer_pool w) = (Some (fst m), e, m', q)"
    by blast
  obtain w' where w': "async_write (Some m) (si_idx si) (wj_req j) data ob h w = Inr (e, w')" "io_inv w'"
    using async_write_buffered_inv [OF inv(1) assms(5) al] by blast
  from async_write_buffered [OF inv(1) assms(5) w'(1) al] obtain blk where b: "mem w (fst m) = None" "length blk = 16384"
      "w' = w\<lparr>mem := (mem w)(fst m \<mapsto> blit 0 (take (nat (pr_length (wj_req j))) data) blk), write_buffer_pool := q,
         store_buf := insert_block (torrent_location (si_idx si) (pr_piece (wj_req j)) (pr_start (wj_req j))) (fst m) (store_buf w),
         write_thread_pool := write_thread_pool w @
           [\<lparr>wj_storage = si_idx si, wj_req = wj_req j, wj_buf = fst m, wj_handler = h, wj_stage = Storing\<rparr>]\<rparr>"
    by blast
  have "wj_buf j \<noteq> fst m"
    using b(1) write_job_live(4) [OF inv(1), of 0] assms(2) by auto
  moreover have "blit 0 (take (nat (pr_length (wj_req j))) data) blk ! (snd c mod 16384) = data ! (snd c - nat (pr_start (wj_req j)))"
    using assms(5) b(2) covers_offset [OF inv(4) assms(4)] by (simp add: nth_blit_take nat_le_iff)
  ultimately show ?thesis
    using w' inv(3) assms(2)
    by (intro exI [of _ w'] exI [of _ "\<lparr>wj_storage = si_idx si, wj_req = wj_req j, wj_buf = fst m, wj_handler = h, wj_stage = Storing\<rparr>"])
      (simp add: lift_ub_def b(3) site_inv_def)
qed

section \<open>Property of the disk back end: clearing a piece\<close>

text \<open>C25: \<open>async_clear_piece\<close> does not wait for the writes of the piece. While a block of the piece is still to be
  stored, the handler can be called; and if the client, told that the piece is clear, writes the block again, then
  either the old or the new block may be what the partition holds once the write jobs are through, since the two
  jobs may run in either order.\<close>

theorem clear_piece_does_not_wait:
  assumes "view_inv si w" "write_thread_pool w = [j]" "wj_stage j = Storing" "wj_storage j = si_idx si"
    and "covers (wj_req j) c"
  shows "\<exists>ls w1. io_run api w (ClearPiece (si_idx si) (pr_piece (wj_req j)) h # ls) w1 \<and> (\<forall>l \<in> set ls. \<exists>alive. l = RunIoc alive) \<and>
     ClearDone h (pr_piece (wj_req j)) \<in> set (invoked w1) \<and> still w w1 \<and>
     (\<forall>m data ob h2. allowed (Write (Some m) (si_idx si) (wj_req j) data ob h2) w1 \<longrightarrow>
        (\<exists>w2. exec api (Write (Some m) (si_idx si) (wj_req j) data ob h2) w1 = Inr w2 \<and>
           (\<forall>b \<in> {view si w c, data ! (snd c - nat (pr_start (wj_req j)))}. \<exists>ls' w'.
              io_run api w2 ls' w' \<and> (\<forall>l \<in> set ls'. job_label l) \<and> write_thread_pool w' = [] \<and> disk si w' c = b)))"
proof -
  let ?p = "pr_piece (wj_req j)"
  let ?w0 = "post_ioc (ClearDone h ?p) w"
  have inv: "io_inv w" "writes_inv si w" "whole_block si (wj_req j)"
    using assms(1,2,4) by (auto simp: view_inv_def writes_inv_def)
  then have "io_inv ?w0"
    by (simp add: post_ioc_inv)
  then obtain ls w1 where r: "io_run api ?w0 ls w1" "\<forall>l \<in> set ls. \<exists>alive. l = RunIoc alive" "still ?w0 w1" "io_inv w1"
      "\<forall>c. Complete c \<in> set (ioc ?w0) \<longrightarrow> c \<in> set (invoked w1)"
    using drain_ioc [of ?w0 api] by blast
  have s: "still w w1"
    using r(3) by (simp add: still_def post_ioc_def)
  have v1: "view_inv si w1"
    using s r(4) by (intro quiet_inv [OF assms(1)]) (simp_all add: quiet_def still_def)
  have pool: "write_thread_pool w1 = [j]"
    using s assms(2) by (simp add: still_def)
  have old: "the (mem w1 (wj_buf j)) ! (snd c mod 16384) = view si w c"
  proof -
    have "cell_loc si c = wj_loc j"
      using covers_iff_loc [OF inv(3) covers_cell_ok [OF inv(3) assms(5)]] assms(4,5) by (simp add: site_job_loc)
    then show ?thesis
      using covering_job [OF inv(2), of j] assms(2,3) s by (simp add: view_def still_def)
  qed
  have races: "\<exists>w2. exec api (Write (Some m) (si_idx si) (wj_req j) data ob h2) w1 = Inr w2 \<and>
           (\<forall>b \<in> {view si w c, data ! (snd c - nat (pr_start (wj_req j)))}. \<exists>ls' w'.
              io_run api w2 ls' w' \<and> (\<forall>l \<in> set ls'. job_label l) \<and> write_thread_pool w' = [] \<and> disk si w' c = b)"
    if al: "allowed (Write (Some m) (si_idx si) (wj_req j) data ob h2) w1" for m data ob h2
  proof -
    obtain w2 k where w2: "exec api (Write (Some m) (si_idx si) (wj_req j) data ob h2) w1 = Inr w2" "io_inv w2" "site_inv si w2"
      "write_thread_pool w2 = [j, k]" "wj_stage k = Storing" "wj_storage k = si_idx si" "wj_req k = wj_req j"
      "mem w2 (wj_buf j) = mem w1 (wj_buf j)"
      "the (mem w2 (wj_buf k)) ! (snd c mod 16384) = data ! (snd c - nat (pr_start (wj_req j)))"
      using second_write [OF v1 pool assms(4,5) al, of api] by blast
    note two = two_writes [OF w2(2-4) assms(3) w2(5) assms(4) w2(6) refl w2(7) inv(3) assms(5)]
    show ?thesis
      using w2 old two [of 1 0 j api] two [of 0 1 k api] by (intro exI [of _ w2]) auto
  qed
  have "io_run api w (ClearPiece (si_idx si) ?p h # ls) w1"
    using r(1) by (intro io_run.step [OF _ _ r(1)]) (simp_all add: async_clear_piece_def)
  then show ?thesis
    using r(2,5) races s by (intro exI [of _ ls] exI [of _ w1]) (simp add: post_ioc_def)
qed

theorem clear_piece_does_not_wait_witness:
  "\<exists>w1 w2. ClearDone 8 0 \<in> set (invoked w1) \<and>
     exec example_hasher (Write (Some (10, replicate 16384 0)) 0 example_request [7, 6, 5, 4, 3, 2, 1] None 6) w1 = Inr w2 \<and>
     (\<forall>b \<in> {1, 7}. \<exists>ls w'. io_run example_hasher w2 ls w' \<and> (\<forall>l \<in> set ls. job_label l) \<and> write_thread_pool w' = [] \<and>
        disk example_site w' (0, 0) = b)"
proof -
  let ?j = "\<lparr>wj_storage = 0, wj_req = example_request, wj_buf = 9, wj_handler = 5, wj_stage = Storing\<rparr>"
  let ?d = "[7, 6, 5, 4, 3, 2, 1] :: bytes"
  have j: "write_thread_pool example_written = [?j]" "wj_storage ?j = si_idx example_site" "covers (wj_req ?j) (0, 0)"
    by (simp_all add: example_written_def example_site_def covers_def example_request_def)
  obtain w1 where w1: "ClearDone 8 0 \<in> set (invoked w1)" "still example_written w1"
    "\<forall>m data ob h2. allowed (Write (Some m) (si_idx example_site) example_request data ob h2) w1 \<longrightarrow>
        (\<exists>w2. exec example_hasher (Write (Some m) (si_idx example_site) example_request data ob h2) w1 = Inr w2 \<and>
           (\<forall>b \<in> {view example_site example_written (0, 0), data ! 0}. \<exists>ls' w'.
              io_run example_hasher w2 ls' w' \<and> (\<forall>l \<in> set ls'. job_label l) \<and> write_thread_pool w' = [] \<and>
              disk example_site w' (0, 0) = b))"
    using clear_piece_does_not_wait [OF example_view_inv(2) j(1) _ j(2,3), of example_hasher 8]
    by (auto simp: example_request_def)
  have al: "allowed (Write (Some (10, replicate 16384 0)) (si_idx example_site) example_request ?d None 6) w1"
    using w1(2) by (simp add: still_def example_site_def example_written_def example_world_def malloc_ok_def example_request_def)
  have v: "view example_site example_written (0, 0) = 1" "?d ! 0 = 7" "si_idx example_site = 0"
    by (simp_all add: view_def cell_loc_def example_site_def example_written_def blit_def)
  show ?thesis
    using w1(3) [rule_format, OF al, unfolded v] w1(1) by blast
qed

end
