(* ===== verification/Disk_Schedule.thy ===== *)
theory Disk_Schedule
  imports Disk_View
begin

text \<open>
  For a client that writes every block once the outcome of a run depends on its calls only: neither the order in which
  the pool threads and the io context take their steps nor the allocator matter for what is on the partition in the end.
\<close>

text \<open>A call as the client makes it, without the block the allocator happened to give.\<close>

fun as_issued :: "label \<Rightarrow> label" where
  "as_issued (Read mres idx r h) = Read None idx r h"
| "as_issued (Write mres idx r data ob h) = Write None idx r data ob h"
| "as_issued (Hash mres idx p h) = Hash None idx p h"
| "as_issued l = l"

fun client_call :: "label \<Rightarrow> bool" where
  "client_call (RunRead i) = False"
| "client_call (RunWrite i) = False"
| "client_call (RunHash i) = False"
| "client_call (RunIoc alive) = False"
| "client_call (ClientRelease buf) = False"
| "client_call _ = True"

definition calls_of :: "label list \<Rightarrow> label list" where
  "calls_of ls = map as_issued (filter client_call ls)"

lemma effect_as_issued: "effect si (as_issued l) c = effect si l c"
  by (cases l) simp_all

lemma effect_client_call: "\<not> client_call l \<Longrightarrow> effect si l c = None"
  by (cases l) simp_all

lemma last_write_calls: "last_write (effect si) c (calls_of ls) b = last_write (effect si) c ls b"
  by (induction ls arbitrary: b) (simp_all add: calls_of_def effect_as_issued effect_client_call)

lemma handlers_of_calls:
  "concat (map issued (calls_of ls)) = concat (map issued ls)" "concat (map dropped (calls_of ls)) = concat (map dropped ls)"
proof -
  have "issued (as_issued l) = issued l" "dropped (as_issued l) = dropped l" for l
    by (cases l; simp)+
  moreover have "issued l = []" "dropped l = []" if "\<not> client_call l" for l
    using that by (cases l; simp)+
  ultimately show "concat (map issued (calls_of ls)) = concat (map issued ls)"
    "concat (map dropped (calls_of ls)) = concat (map dropped ls)"
    by (induction ls) (simp_all add: calls_of_def)
qed

section \<open>Clients that write every block once\<close>

text \<open>
  The part of the client's contract that can be read off its calls: the torrent under observation stays open and
  alone on its partition, it is written in whole blocks, and no block is written twice. Writing a block again while
  the first write is pending is a race in the code; the order of the calls alone does not exclude it.
\<close>

fun block_written :: "label \<Rightarrow> torrent_location list" where
  "block_written (Write mres idx r data ob h) = [torrent_location idx (pr_piece r) (pr_start r)]"
| "block_written _ = []"

fun on_site :: "site \<Rightarrow> label \<Rightarrow> bool" where
  "on_site si (NewTorrent path fs opened) \<longleftrightarrow> path \<noteq> si_path si"
| "on_site si (RemoveTorrent idx) \<longleftrightarrow> idx \<noteq> si_idx si"
| "on_site si (Write mres idx r data ob h) \<longleftrightarrow> (idx = si_idx si \<longrightarrow> whole_block si r)"
| "on_site si _ \<longleftrightarrow> True"

definition writes_once :: "site \<Rightarrow> label list \<Rightarrow> bool" where
  "writes_once si cs \<longleftrightarrow> (\<forall>l \<in> set cs. on_site si l) \<and> distinct (concat (map block_written cs))"

lemma writes_once_calls: "writes_once si (calls_of ls) = writes_once si ls"
proof -
  have "block_written (as_issued l) = block_written l" "on_site si (as_issued l) = on_site si l" for l
    by (cases l; simp)+
  moreover have "block_written l = []" "on_site si l" if "\<not> client_call l" for l
    using that by (cases l; simp)+
  ultimately have "concat (map block_written (calls_of ls)) = concat (map block_written ls)"
    "(\<forall>l \<in> set (calls_of ls). on_site si l) = (\<forall>l \<in> set ls. on_site si l)"
    by (induction ls) (auto simp: calls_of_def)
  then show ?thesis
    by (simp add: writes_once_def)
qed

text \<open>A step leaves no block pending that was not pending before and that it does not write.\<close>

lemma pending_grows:
  assumes "io_inv w" "allowed l w" "exec api l w = Inr w'" "lookup_block (store_buf w) loc = None" "loc \<notin> set (block_written l)"
  shows "lookup_block (store_buf w') loc = None"
proof (cases "storing_label l")
  case False
  then show ?thesis
    using exec_quiet [OF assms(1-3)] assms(4) by (simp add: quiet_def)
next
  case True
  have ok: "store_buffer_ok (store_buf w)"
    using assms(1) by (simp add: io_inv_def store_inv_def)
  from True show ?thesis
  proof (cases l)
    case (NewTorrent path fs opened)
    with assms(3,4) show ?thesis
      by (auto simp: new_torrent_def Let_def split: prod.splits sum.splits list.splits)
  next
    case (RemoveTorrent idx)
    with assms(3,4) show ?thesis by (auto simp: remove_torrent_def)
  next
    case (Write mres idx r data ob h)
    with assms(3-5) show ?thesis
      by (auto simp: async_write_def bind_res_iffs post_ioc_def lookup_insert_block split: prod.splits option.splits if_splits)
  next
    case (RunWrite i)
    with assms(3,4) ok show ?thesis
      by (auto simp: run_write_def Let_def bind_res_iffs release_write_buffer_def post_watermarks_def post_ioc_def
          lookup_erase_block split: write_stage.splits option.splits)
  qed simp_all
qed

text \<open>Such a client is orderly under every schedule.\<close>

lemma writes_once_orderly:
  assumes "io_run api w ls w'" "io_inv w" "writes_once si ls"
    and "\<forall>loc \<in> set (concat (map block_written ls)). lookup_block (store_buf w) loc = None"
  shows "lruns (client_step api si) w ls w'"
  using assms
proof (induction rule: io_run.induct)
  case (step l w w1 ls w')
  have inv: "io_inv w1"
    using exec_inv [OF step.prems(1) step.hyps(1), of api] step.hyps(2) by auto
  have "orderly si l w"
    using step.prems(2,3) by (cases l) (auto simp: writes_once_def)
  then have "client_step api si l w w1"
    using step.hyps by (simp add: client_step_def)
  moreover have "lookup_block (store_buf w1) loc = None" if "loc \<in> set (concat (map block_written ls))" for loc
    by (rule pending_grows [OF step.prems(1) step.hyps(1,2)]) (use step.prems(2,3) that in \<open>auto simp: writes_once_def\<close>)
  then have "lruns (client_step api si) w1 ls w'"
    using step.IH [OF inv] step.prems(2) by (simp add: writes_once_def)
  ultimately show ?case by (rule lruns.more)
qed (simp add: lruns.none)

text \<open>C16: For a client that writes every block at most once the outcome does not depend on the schedule: two runs in
  which it makes the same calls in the same order, whatever the order in which the threads of the pools and the io
  context take their steps and whatever the allocator returns, leave the same bytes on the partition and have called
  the same handlers equally often, once nothing is left to do. The torrent stays open, alone on a healthy partition,
  and is written in whole blocks, none of them pending at the start. (A block written a second time may be lost or not,
  depending on the schedule.)\<close>

theorem outcome_independent_of_schedule:
  assumes "view_inv si w" "io_run api w ls w1" "io_run api w ls' w2" "calls_of ls = calls_of ls'"
    and "writes_once si (calls_of ls)"
    and "\<forall>loc \<in> set (concat (map block_written ls)). lookup_block (store_buf w) loc = None"
    and "quiescent w1" "quiescent w2"
  shows "(cell_ok si c \<longrightarrow> disk si w1 c = disk si w2 c) \<and> called w1 = called w2"
proof
  have io: "io_inv w"
    using assms(1) by (simp add: view_inv_def)
  have same: "set (concat (map block_written ls)) = set (concat (map block_written (calls_of ls)))" for ls
    by (induction ls) (auto simp: calls_of_def elim: block_written.elims client_call.elims as_issued.elims)
  have once: "writes_once si ls" "writes_once si ls'"
    using assms(4,5) writes_once_calls by metis+
  have runs: "lruns (client_step api si) w ls w1" "lruns (client_step api si) w ls' w2"
    using writes_once_orderly [OF assms(2) io once(1)] writes_once_orderly [OF assms(3) io once(2)] assms(4,6) same by metis+
  have end_disk: "disk si w' c = last_write (effect si) c ls (view si w c)"
    if "lruns (client_step api si) w ls w'" "quiescent w'" "cell_ok si c" for ls w'
    using wb.run_seen [OF that(1) assms(1) that(3)] view_is_disk [OF wb.run_inv [OF that(1) assms(1)]] that(2)
    by (simp add: quiescent_def)
  show "cell_ok si c \<longrightarrow> disk si w1 c = disk si w2 c"
    using end_disk [OF runs(1) assms(7)] end_disk [OF runs(2) assms(8)] last_write_calls assms(4) by metis
  have called: "called w' + mset (concat (map dropped (calls_of ls))) =
      called w + outstanding w + mset (concat (map issued (calls_of ls)))"
    if "io_run api w ls w'" "quiescent w'" for ls w'
    using io_run_conserves [OF that(1)] that(2) by (simp add: quiescent_def outstanding_def handlers_of_calls)
  show "called w1 = called w2"
    using called [OF assms(2,7)] called [OF assms(3,8)] assms(4) by (metis add_right_cancel)
qed

text \<open>A write that got a buffer and the same write while \<open>malloc\<close> fails, each with the jobs run to the end.\<close>

lemma example_end:
  assumes "allowed (Write mres 0 example_request [1, 2, 3, 4, 5, 6, 7] None 5) example_world"
  shows "\<exists>ls w'. io_run example_hasher example_world (Write mres 0 example_request [1, 2, 3, 4, 5, 6, 7] None 5 # ls) w' \<and>
           quiescent w' \<and> filter client_call ls = []"
proof -
  have "io_inv example_world"
    using example_view_inv(1) by (simp add: view_inv_def)
  then obtain w where w: "exec example_hasher (Write mres 0 example_request [1, 2, 3, 4, 5, 6, 7] None 5) example_world = Inr w" "io_inv w"
    using exec_inv [OF _ assms] by blast
  then obtain ls w' where r: "io_run example_hasher w ls w'" "\<forall>l \<in> set ls. job_label l" "quiescent w'"
    using drains [where api = example_hasher] by blast
  have "\<not> client_call l" if "job_label l" for l
    using that by (cases l) simp_all
  then show ?thesis
    using io_run.step [OF assms w(1) r(1)] r(2,3) by (intro exI [of _ ls] exI [of _ w']) simp
qed

theorem outcome_independent_of_schedule_witness:
  "\<exists>w1 w2 ls ls'. ls \<noteq> ls' \<and> io_run example_hasher example_world ls w1 \<and> io_run example_hasher example_world ls' w2 \<and>
     disk example_site w1 (0, 5) = disk example_site w2 (0, 5) \<and> called w1 = called w2"
proof -
  let ?wl = "\<lambda>mres. Write mres 0 example_request [1, 2, 3, 4, 5, 6, 7] None 5"
  let ?m = "Some (9, replicate 16384 0) :: (addr \<times> bytes) option"
  have al: "allowed (?wl None) example_world" "allowed (?wl ?m) example_world"
    using example_client_step by (simp_all add: client_step_def malloc_ok_def)
  obtain ls w1 where a: "io_run example_hasher example_world (?wl None # ls) w1" "quiescent w1" "filter client_call ls = []"
    using example_end [OF al(1)] by blast
  obtain ls' w2 where b: "io_run example_hasher example_world (?wl ?m # ls') w2" "quiescent w2" "filter client_call ls' = []"
    using example_end [OF al(2)] by blast
  have c: "cell_ok example_site (0, 5)"
    by (simp add: cell_ok_def example_site_def piece_size_def example_storage_def ranges_storage_def)
  have calls: "calls_of (?wl None # ls) = [?wl None]" "calls_of (?wl ?m # ls') = [?wl None]"
    using a(3) b(3) by (simp_all add: calls_of_def)
  have "whole_block example_site example_request"
    using example_client_step by (simp add: client_step_def example_site_def)
  then have once: "writes_once example_site (calls_of (?wl None # ls))"
    unfolding calls by (simp add: writes_once_def)
  have "block_written l = []" if "l \<in> set ls" for l
    using a(3) that by (cases l) (auto simp: filter_empty_conv)
  then have none: "\<forall>loc \<in> set (concat (map block_written (?wl None # ls))). lookup_block (store_buf example_world) loc = None"
    using example_client_step by (auto simp: client_step_def)
  have eq: "disk example_site w1 (0, 5) = disk example_site w2 (0, 5)" "called w1 = called w2"
    using outcome_independent_of_schedule [OF example_view_inv(1) a(1) b(1) _ once none a(2) b(2), of "(0, 5)"] calls c
    by simp_all
  have ne: "?wl None # ls \<noteq> ?wl ?m # ls'"
    by simp
  show ?thesis
    by (intro exI [of _ w1] exI [of _ w2] exI [of _ "?wl None # ls"] conjI exI [of _ "?wl ?m # ls'"])
      (rule ne a(1) b(1) eq)+
qed

end
