(* ===== verification/Transfers_View.thy ===== *)
theory Transfers_View
  imports Disk_Transfers
begin

text \<open>
  What a client sees while jobs transfer their slices one by one: a third instance of the contract \<open>write_behind\<close>.
  The partition may hold a block half old and half new, but then the block is pending and seen in the store buffer.
\<close>

section \<open>A slice on the partition\<close>

lemma slice_addrs_append:
  "slice_addrs fs (xs @ ys) = Some as \<Longrightarrow>
   \<exists>bs cs. slice_addrs fs xs = Some bs \<and> slice_addrs fs ys = Some cs \<and> as = bs @ cs"
proof (induction xs arbitrary: as)
  case (Cons x xs)
  then show ?case by (auto split: sum.splits if_splits)
qed simp

text \<open>Where the next slice of a transfer lies, on a healthy storage.\<close>

lemma next_slice_on:
  assumes "storage_on s ps A path d" "in_piece ps p off len" "fs_map_block (ps_fs ps) p off len = xs @ sl # sls"
  obtains q where "partition_offset (ps_fs ps) sl = Inr (Inr q)" "0 \<le> q" "slices_len xs + nat (fsl_size sl) \<le> nat len"
    "\<And>k. k < nat (fsl_size sl) \<Longrightarrow> nat q + k = A p (nat off + slices_len xs + k) \<and> nat q + k < length (dev_data d)"
proof -
  note a = storage_on_addrs [OF assms(1,2), unfolded assms(3)]
  obtain bs cs where b: "slice_addrs (ps_fs ps) xs = Some bs" "slice_addrs (ps_fs ps) (sl # sls) = Some cs"
      "block_addrs A p off len = bs @ cs"
    using slice_addrs_append [OF a(1)] by blast
  obtain q ys where q: "partition_offset (ps_fs ps) sl = Inr (Inr q)" "0 \<le> q" "cs = [nat q..<nat q + nat (fsl_size sl)] @ ys"
    using slice_addrs_ConsE [OF b(2)] by metis
  have l: "slices_len xs = length bs"
    using slice_addrs_ok [OF b(1)] by simp
  have n: "slices_len xs + nat (fsl_size sl) \<le> nat len"
    using arg_cong [OF b(3), of length] a(3) l q(3) by simp
  have "nat q + k = A p (nat off + slices_len xs + k) \<and> nat q + k < length (dev_data d)" if k: "k < nat (fsl_size sl)" for k
  proof
    have "(bs @ cs) ! (slices_len xs + k) = nat q + k"
      using k l q(3) by (simp add: nth_append)
    then show "nat q + k = A p (nat off + slices_len xs + k)"
      using k n arg_cong [OF b(3), of "\<lambda>as. as ! (slices_len xs + k)"] assms(2)
      by (simp add: in_piece_def nat_add_distrib add.assoc)
    have "nat q + k \<in> set (block_addrs A p off len)"
      unfolding b(3) q(3) using k by simp
    then show "nat q + k < length (dev_data d)"
      using a(2) by blast
  qed
  with q n show thesis by (intro that)
qed

text \<open>The next slice of a write job of the torrent under observation.\<close>

lemma job_slice_on:
  assumes "io_inv w" "site_inv si w" "wj_storage j = si_idx si" "whole_block si (wj_req j)"
    and "slices_left w (write_job_range j) (sl # sls, pos)" "partition_offset (ps_fs (si_ps si)) sl = Inr (Inr off)"
  obtains d where "storage_on (sys w) (si_ps si) (si_addr si) (si_path si) d" "0 \<le> off"
    "pos + nat (fsl_size sl) \<le> nat (pr_length (wj_req j))"
    "\<And>k. k < nat (fsl_size sl) \<Longrightarrow>
       nat off + k = si_addr si (pr_piece (wj_req j)) (nat (pr_start (wj_req j)) + pos + k) \<and> nat off + k < length (dev_data d)"
proof -
  obtain d where d: "storage_on (sys w) (si_ps si) (si_addr si) (si_path si) d"
    using assms(2) by (auto simp: site_inv_def)
  note ip = whole_block_in_piece [OF assms(4) site_fs_ok [OF assms(1,2)]]
  obtain xs where xs: "fs_map_block (ps_fs (si_ps si)) (pr_piece (wj_req j)) (pr_start (wj_req j)) (pr_length (wj_req j)) =
      xs @ sl # sls" "pos = slices_len xs"
    using assms(3,5) site_deref [OF assms(1,2)] by (auto simp: slices_left_def write_job_range_def)
  show thesis
    by (rule next_slice_on [OF d ip xs(1)]) (use assms(6) xs(2) in \<open>auto intro!: that [OF d]\<close>)
qed

lemma slice_cell:
  assumes "inj_on (\<lambda>c. si_addr si (fst c) (snd c)) {c. cell_ok si c}" "whole_block si r" "cell_ok si c"
    and "pos + n \<le> nat (pr_length r)" "\<And>k. k < n \<Longrightarrow> a + k = si_addr si (pr_piece r) (nat (pr_start r) + pos + k)"
  shows "a \<le> si_addr si (fst c) (snd c) \<and> si_addr si (fst c) (snd c) < a + n \<longleftrightarrow>
           covers r c \<and> pos \<le> snd c mod 16384 \<and> snd c mod 16384 < pos + n" (is "?in \<longleftrightarrow> ?cov")
    and "covers r c \<and> pos \<le> snd c mod 16384 \<and> snd c mod 16384 < pos + n \<Longrightarrow>
           si_addr si (fst c) (snd c) = a + (snd c mod 16384 - pos)"
proof -
  have st: "0 \<le> pr_start r" "0 < pr_length r"
    using assms(2) by (auto simp: whole_block_def)
  show at: "si_addr si (fst c) (snd c) = a + (snd c mod 16384 - pos)" if "?cov"
  proof -
    have "fst c = pr_piece r" "nat (pr_start r) + pos + (snd c mod 16384 - pos) = snd c"
      using that covers_offset [OF assms(2)] by (auto simp: covers_def)
    then show ?thesis
      using assms(5) [of "snd c mod 16384 - pos"] that by auto
  qed
  have "?cov" if i: "?in"
  proof -
    define k where "k = si_addr si (fst c) (snd c) - a"
    let ?c = "(pr_piece r, nat (pr_start r) + pos + k)"
    have k: "k < n" "si_addr si (fst c) (snd c) = a + k"
      using i by (auto simp: k_def)
    have cov: "covers r ?c"
      using k(1) assms(4) st by (auto simp: covers_def nat_add_distrib)
    have "c = ?c"
      using inj_onD [OF assms(1), of c ?c] assms(3,5) k covers_cell_ok [OF assms(2) cov] by simp
    then show ?thesis
      using cov covers_offset(1) [OF assms(2) cov] k(1) by simp
  qed
  moreover have "?in" if "?cov"
    using at [OF that] that by linarith
  ultimately show "?in \<longleftrightarrow> ?cov" by blast
qed

text \<open>What one \<open>pwrite\<close> of a slice does to the partition.\<close>

lemma slice_pwrite:
  assumes "storage_on (sys w) (si_ps si) (si_addr si) (si_path si) d" "0 \<le> off" "\<forall>k < length bs. nat off + k < length (dev_data d)"
    and w': "w' = w\<lparr>sys := pwrite (sys w) (ps_fd (si_ps si)) bs off\<rparr>"
  shows "site_inv si w \<Longrightarrow> site_inv si w'"
    and "disk si w' c = (let a = si_addr si (fst c) (snd c) in
       if nat off \<le> a \<and> a < nat off + length bs then bs ! (a - nat off) else disk si w c)"
    and "os_devs (sys w') (si_path si) = Some (d\<lparr>dev_data := poke [nat off..<nat off + length bs] bs (dev_data d)\<rparr>)"
proof -
  let ?xs = "[nat off..<nat off + length bs]"
  let ?d = "d\<lparr>dev_data := poke ?xs bs (dev_data d)\<rparr>"
  have b: "x < length (dev_data d)" if "x \<in> set ?xs" for x
    using spec [OF assms(3), of "x - nat off"] that by auto
  have s: "os_fds (sys w) (ps_fd (si_ps si)) = Some (si_path si)" "os_devs (sys w) (si_path si) = Some d" "dev_full d"
    using assms(1) by (simp_all add: storage_on_def)
  have "dev_write d (nat off) bs = ?d"
    using dev_write_full [OF s(3), of "nat off" bs] b by simp
  then have sys': "sys w' = (sys w)\<lparr>os_devs := (os_devs (sys w))(si_path si \<mapsto> ?d)\<rparr>"
    using s assms(2) by (simp add: w' pwrite_def)
  then show "os_devs (sys w') (si_path si) = Some ?d" by simp
  have "storage_on (sys w') (si_ps si) (si_addr si) (si_path si) ?d"
    unfolding sys' by (rule storage_on_update [OF assms(1)]) simp
  moreover have "os_fds (sys w') = os_fds (sys w)" "storages w' = storages w"
    by (simp_all add: sys', simp add: w')
  ultimately show "site_inv si w'" if "site_inv si w"
    using that unfolding site_inv_def by metis
  have "poke ?xs bs (dev_data d) ! (nat off + k) = bs ! k" if "k < length bs" for k
    using nth_poke [of ?xs bs k "dev_data d"] that b by auto
  then show "disk si w' c = (let a = si_addr si (fst c) (snd c) in
       if nat off \<le> a \<and> a < nat off + length bs then bs ! (a - nat off) else disk si w c)"
    using s(2) by (auto simp: disk_def sys' Let_def nth_poke_other le_iff_add)
qed

lemma slice_disk:
  assumes "io_inv w" "site_inv si w" "wj_storage j = si_idx si" "whole_block si (wj_req j)"
    and "slices_left w (write_job_range j) (sl # sls, pos)" "length blk = 16384"
    and "partition_offset (ps_fs (si_ps si)) sl = Inr (Inr off)"
    and w': "w' = w\<lparr>sys := pwrite (sys w) (ps_fd (si_ps si)) (take (nat (fsl_size sl)) (drop pos blk)) off\<rparr>"
  shows "site_inv si w'"
    and "cell_ok si c \<Longrightarrow> disk si w' c =
      (if covers (wj_req j) c \<and> pos \<le> snd c mod 16384 \<and> snd c mod 16384 < pos + nat (fsl_size sl)
       then blk ! (snd c mod 16384) else disk si w c)"
proof -
  let ?n = "nat (fsl_size sl)"
  let ?bs = "take ?n (drop pos blk)"
  obtain d where d: "storage_on (sys w) (si_ps si) (si_addr si) (si_path si) d" "0 \<le> off" "pos + ?n \<le> nat (pr_length (wj_req j))"
    "\<And>k. k < ?n \<Longrightarrow> nat off + k = si_addr si (pr_piece (wj_req j)) (nat (pr_start (wj_req j)) + pos + k) \<and>
       nat off + k < length (dev_data d)"
    using job_slice_on [OF assms(1-5,7)] by metis
  have len: "length ?bs = ?n"
    using d(3) assms(4,6) by (auto simp: whole_block_def)
  have b: "\<forall>k < length ?bs. nat off + k < length (dev_data d)"
    using d(4) unfolding len by blast
  note pw = slice_pwrite [OF d(1,2) b w']
  show "site_inv si w'"
    by (rule pw(1) [OF assms(2)])
  assume c: "cell_ok si c"
  let ?a = "si_addr si (fst c) (snd c)"
  have "inj_on (\<lambda>c. si_addr si (fst c) (snd c)) {c. cell_ok si c}"
    using assms(2) by (simp add: site_inv_def)
  then have cell: "nat off \<le> ?a \<and> ?a < nat off + ?n \<longleftrightarrow>
      covers (wj_req j) c \<and> pos \<le> snd c mod 16384 \<and> snd c mod 16384 < pos + ?n"
    "covers (wj_req j) c \<and> pos \<le> snd c mod 16384 \<and> snd c mod 16384 < pos + ?n \<Longrightarrow> ?a = nat off + (snd c mod 16384 - pos)"
    using slice_cell [OF _ assms(4) c d(3), of "nat off"] d(4) by blast+
  show "disk si w' c = (if covers (wj_req j) c \<and> pos \<le> snd c mod 16384 \<and> snd c mod 16384 < pos + ?n
       then blk ! (snd c mod 16384) else disk si w c)"
    using pw(2) [of c, unfolded len Let_def cell(1)] cell(2) assms(6) by auto
qed

section \<open>How the partition moves towards what is seen\<close>

text \<open>A pending block is what is seen of its cells.\<close>

lemma pending_seen:
  assumes "view_inv si w" "j \<in> set (write_thread_pool w)" "not_erased (wj_stage j)" "wj_storage j = si_idx si"
    and "covers (wj_req j) c"
  shows "lookup_block (store_buf w) (cell_loc si c) = Some (wj_buf j)" "view si w c = the (mem w (wj_buf j)) ! (snd c mod 16384)"
proof -
  have inv: "writes_inv si w" "whole_block si (wj_req j)"
    using assms(1,2,4) by (auto simp: view_inv_def writes_inv_def)
  have "cell_loc si c = wj_loc j"
    using covers_iff_loc [OF inv(2) covers_cell_ok [OF inv(2) assms(5)]] assms(4,5) by (simp add: site_job_loc)
  then show l: "lookup_block (store_buf w) (cell_loc si c) = Some (wj_buf j)"
    using covering_job [OF inv(1) assms(2,3)] by simp
  then show "view si w c = the (mem w (wj_buf j)) ! (snd c mod 16384)"
    by (simp add: view_def)
qed

lemma write_not_pending:
  assumes "orderly si l w" "cell_ok si c" "effect si l c = Some b"
  shows "lookup_block (store_buf w) (cell_loc si c) = None"
proof (cases l)
  case (Write mres idx r data ob h)
  then have "idx = si_idx si" "covers r c" "whole_block si r"
    using assms(1,3) by (auto split: if_splits)
  then show ?thesis
    using Write assms(1,2) covers_iff_loc [of si r c] by simp
qed (use assms(3) in auto)

text \<open>A step changes a byte of the partition only to what is seen of it, or to what the step writes.\<close>

lemma async_write_disk:
  assumes "view_inv si w" "allowed (Write mres idx r data ob h) w" "orderly si (Write mres idx r data ob h) w"
    and "async_write mres idx r data ob h w = Inr (e, w')" "cell_ok si c"
  shows "disk si w' c = disk si w c \<or> effect si (Write mres idx r data ob h) c = Some (disk si w' c)"
proof -
  have inv: "io_inv w" "site_inv si w"
    using assms(1) by (simp_all add: view_inv_def)
  obtain res e' m q where al: "allocate_buffer_observed mres False ob (mem w) (write_buffer_pool w) = (res, e', m, q)"
    by (metis prod_cases4)
  show ?thesis
  proof (cases res)
    case None
    obtain ps s err where d: "deref_storage idx w = Inr ps"
        "write_storage ps (Some data) (pr_piece r) (pr_start r) (pr_length r) storage_error_init (sys w) = Inr (s, err)"
        "sys w' = s"
      using async_write_direct [OF inv(1) assms(2,4) al [unfolded None]] by (auto simp: post_ioc_def)
    have wb: "idx = si_idx si \<longrightarrow> whole_block si r" "nat (pr_length r) \<le> length data"
      using assms(2,3) by simp_all
    show ?thesis
      using write_storage_disk(3) [OF inv d(1) wb d(2,3) assms(5)] wb(1) covers_offset [of si r c]
      by (auto split: if_splits)
  next
    case (Some buf)
    then show ?thesis
      using async_write_buffered [OF inv(1) assms(2,4) al [unfolded Some]] by (auto simp: disk_def)
  qed
qed

lemma run_write_disk:
  assumes "view_inv si w" "i < length (write_thread_pool w)" "run_write i w = Inr w'" "cell_ok si c"
  shows "disk si w' c = disk si w c \<or> disk si w' c = view si w c"
proof (cases "wj_stage (write_thread_pool w ! i)")
  case Storing
  have inv: "io_inv w" "site_inv si w" "writes_inv si w"
    using assms(1) by (simp_all add: view_inv_def)
  define j where "j = write_thread_pool w ! i"
  have j: "j \<in> set (write_thread_pool w)" "wj_stage j = Storing"
    using assms(2) Storing by (simp_all add: j_def)
  obtain blk ps s err where b: "mem w (wj_buf j) = Some blk" "nat (pr_length (wj_req j)) \<le> length blk"
      "deref_storage (wj_storage j) w = Inr ps"
      "write_storage ps (Some blk) (pr_piece (wj_req j)) (pr_start (wj_req j)) (pr_length (wj_req j))
         storage_error_init (sys w) = Inr (s, err)"
      "w' = w\<lparr>sys := s, write_thread_pool := (write_thread_pool w)[i := j\<lparr>wj_stage := Erasing err\<rparr>]\<rparr>"
    using run_write_storing [OF inv(1) assms(2) Storing assms(3) j_def] by blast
  have wb: "wj_storage j = si_idx si \<longrightarrow> whole_block si (wj_req j)" "sys w' = s"
    using inv(3) j(1) b(5) by (simp_all add: writes_inv_def)
  show ?thesis
    using write_storage_disk(3) [OF inv(1,2) b(3) wb(1) b(2,4) wb(2) assms(4)] pending_seen(2) [OF assms(1) j(1)] j(2) b(1)
    by (auto split: if_splits)
qed (use assms(3) in \<open>auto simp: run_write_def Let_def disk_def release_write_buffer_def bind_res_iffs post_ioc_def
      post_watermarks_def\<close>)

lemma disk_moves:
  assumes "view_inv si w" "client_step api si l w w'" "cell_ok si c"
  shows "disk si w' c = disk si w c \<or> disk si w' c = view si w c \<or> effect si l c = Some (disk si w' c)"
proof -
  have inv: "io_inv w" and l: "allowed l w" "orderly si l w" "exec api l w = Inr w'"
    using assms(1,2) by (simp_all add: view_inv_def client_step_def)
  show ?thesis
  proof (cases l)
    case (NewTorrent path fs opened)
    then have "os_devs (sys w') = os_devs (sys w)"
      using l inv new_torrent_eq [of w opened path fs] by (auto simp: io_inv_def)
    then show ?thesis by (simp add: disk_def)
  next
    case (RemoveTorrent idx)
    then have "os_devs (sys w') = os_devs (sys w)"
      using l(3) by (auto simp: remove_torrent_def partition_storage_delete_def split: option.splits)
    then show ?thesis by (simp add: disk_def)
  next
    case (Write mres idx r data ob h)
    then obtain e where "async_write mres idx r data ob h w = Inr (e, w')"
      using l(3) by (auto simp: lift_ub_Inr map_sum_snd_Inr)
    then show ?thesis
      using async_write_disk [OF assms(1) l(1,2) [unfolded Write] _ assms(3)] Write by blast
  next
    case (RunWrite i)
    then have "i < length (write_thread_pool w)" "run_write i w = Inr w'"
      using l by (simp_all add: lift_ub_Inr)
    then show ?thesis
      using run_write_disk [OF assms(1) _ _ assms(3)] by blast
  qed (use exec_quiet [OF inv l(1,3)] in \<open>auto simp: quiet_def disk_def\<close>)
qed

section \<open>The invariant of the rounds\<close>

text \<open>What a write job has stored so far is on the partition.\<close>

definition prefix_ok :: "site \<Rightarrow> world \<Rightarrow> transfers \<Rightarrow> bool" where
  "prefix_ok si w t \<longleftrightarrow>
     (\<forall>j \<in> set (write_thread_pool w). \<forall>sls pos.
        wj_stage j = Storing \<and> wj_storage j = si_idx si \<and> t (wj_buf j) = Some (sls, pos) \<longrightarrow>
        (\<forall>c. covers (wj_req j) c \<and> snd c mod 16384 < pos \<longrightarrow> disk si w c = view si w c))"

fun t_inv :: "site \<Rightarrow> tworld \<Rightarrow> bool" where
  "t_inv si (w, t) \<longleftrightarrow> view_inv si w \<and> xfers_ok w t \<and> prefix_ok si w t"

fun t_view :: "site \<Rightarrow> tworld \<Rightarrow> int \<times> nat \<Rightarrow> byte" where
  "t_view si (w, t) = view si w"

fun t_effect :: "site \<Rightarrow> tlabel \<Rightarrow> int \<times> nat \<Rightarrow> byte option" where
  "t_effect si (Plain l) c = effect si l c"
| "t_effect si _ c = None"

fun orderly_t :: "site \<Rightarrow> tlabel \<Rightarrow> tworld \<Rightarrow> bool" where
  "orderly_t si (Plain l) (w, t) \<longleftrightarrow> orderly si l w"
| "orderly_t si _ st \<longleftrightarrow> True"

definition t_step :: "'st hasher_api \<Rightarrow> site \<Rightarrow> tlabel \<Rightarrow> tworld \<Rightarrow> tworld \<Rightarrow> bool" where
  "t_step api si l st st' \<longleftrightarrow> allowed_t l st \<and> orderly_t si l st \<and> exec_t api l st = Inr st'"

text \<open>A round: no effect that can be seen, and the partition moves towards what is seen.\<close>

definition settles :: "site \<Rightarrow> world \<Rightarrow> world \<Rightarrow> bool" where
  "settles si w w' \<longleftrightarrow>
     (\<forall>c. cell_ok si c \<longrightarrow> view si w' c = view si w c \<and> (disk si w' c = disk si w c \<or> disk si w' c = view si w c))"

lemma settlesD:
  "settles si w w' \<Longrightarrow> cell_ok si c \<Longrightarrow> view si w' c = view si w c"
  "settles si w w' \<Longrightarrow> cell_ok si c \<Longrightarrow> disk si w' c = disk si w c \<or> disk si w' c = view si w c"
  unfolding settles_def by blast+

lemma job_whole: "view_inv si w \<Longrightarrow> j \<in> set (write_thread_pool w) \<Longrightarrow> wj_storage j = si_idx si \<Longrightarrow> whole_block si (wj_req j)"
  by (auto simp: view_inv_def writes_inv_def)

lemma prefix_ok_settles:
  assumes "view_inv si w" "prefix_ok si w t" "settles si w w'"
    and "\<And>j sls pos. j \<in> set (write_thread_pool w') \<Longrightarrow> wj_stage j = Storing \<Longrightarrow> wj_storage j = si_idx si \<Longrightarrow>
      t' (wj_buf j) = Some (sls, pos) \<Longrightarrow>
      j \<in> set (write_thread_pool w) \<and> (t (wj_buf j) = Some (sls, pos) \<or>
        (\<forall>c. covers (wj_req j) c \<and> snd c mod 16384 < pos \<longrightarrow> disk si w' c = view si w' c))"
  shows "prefix_ok si w' t'"
  unfolding prefix_ok_def
proof (intro ballI allI impI)
  fix j sls pos c
  assume j: "j \<in> set (write_thread_pool w')"
    and x: "wj_stage j = Storing \<and> wj_storage j = si_idx si \<and> t' (wj_buf j) = Some (sls, pos)"
    and c: "covers (wj_req j) c \<and> snd c mod 16384 < pos"
  have old: "j \<in> set (write_thread_pool w)" "t (wj_buf j) = Some (sls, pos) \<or> disk si w' c = view si w' c"
    using assms(4) [OF j] x c by blast+
  have "cell_ok si c"
    using covers_cell_ok [OF job_whole [OF assms(1) old(1)]] x c by blast
  then show "disk si w' c = view si w' c"
    using assms(2) settlesD [OF assms(3)] old x c unfolding prefix_ok_def by metis
qed

lemma view_inv_settles:
  assumes "view_inv si w" "settles si w w'" "io_inv w'" "site_inv si w'"
    and "mem w' = mem w" "store_buf w' = store_buf w" "write_thread_pool w' = write_thread_pool w"
  shows "view_inv si w'"
proof -
  have w: "writes_inv si w" using assms(1) by (simp add: view_inv_def)
  have "on_disk si w' j" if j: "j \<in> set (write_thread_pool w)" "wj_storage j = si_idx si" "wj_stage j = Erasing e" for j e
    unfolding on_disk_def
  proof (intro allI impI)
    fix c assume c: "covers (wj_req j) c"
    have "on_disk si w j"
      using w j by (auto simp: writes_inv_def)
    from on_diskD [OF this c] show "disk si w' c = the (mem w' (wj_buf j)) ! (snd c mod 16384)"
      using pending_seen(2) [OF assms(1) j(1) _ j(2) c] j(3) assms(5)
        settlesD(2) [OF assms(2) covers_cell_ok [OF job_whole [OF assms(1) j(1,2)] c]] by auto
  qed
  then have "writes_inv si w'"
    using w assms(6,7) by (auto simp: writes_inv_def)
  then show ?thesis
    using assms(3,4) by (simp add: view_inv_def)
qed

text \<open>The job has stored its block.\<close>

lemma stored_view_inv:
  assumes "view_inv si w" "i < length (write_thread_pool w)" "wj_stage (write_thread_pool w ! i) = Storing"
    and "\<And>c. wj_storage (write_thread_pool w ! i) = si_idx si \<Longrightarrow> covers (wj_req (write_thread_pool w ! i)) c \<Longrightarrow>
           disk si w c = view si w c"
  shows "view_inv si (stored i err w)" "view si (stored i err w) = view si w" "disk si (stored i err w) = disk si w"
proof -
  define j where "j = write_thread_pool w ! i"
  have j: "j \<in> set (write_thread_pool w)" "wj_stage j = Storing"
    using assms(2,3) by (simp_all add: j_def)
  have inv: "io_inv w" "site_inv si w" "writes_inv si w"
    using assms(1) by (simp_all add: view_inv_def)
  obtain blk where blk: "mem w (wj_buf j) = Some blk"
    using write_job_live(4) [OF inv(1) assms(2) j_def] by blast
  show v: "view si (stored i err w) = view si w" and d: "disk si (stored i err w) = disk si w"
    by (rule view_cong; simp add: stored_def)+
  have eq: "stored i err w = w\<lparr>sys := sys w, write_thread_pool := (write_thread_pool w)[i := j\<lparr>wj_stage := Erasing err\<rparr>]\<rparr>"
    by (simp add: stored_def j_def)
  have "writes_inv si (stored i err w)"
  proof (rule writes_inv_store [OF inv(3) assms(2) j_def j(2) blk eq])
    show "disk si (stored i err w) c =
        (if wj_storage j = si_idx si \<and> covers (wj_req j) c then blk ! (snd c mod 16384) else disk si w c)" for c
      using d assms(4) [of c] pending_seen(2) [OF assms(1) j(1)] j(2) blk by (auto simp: j_def)
  qed
  moreover have "site_inv si (stored i err w)"
    using inv(2) by (simp add: site_inv_def stored_def)
  ultimately show "view_inv si (stored i err w)"
    using io_inv_stored [OF inv(1) assms(2,3), of err] by (simp add: view_inv_def stored_def)
qed

text \<open>A job with a transfer was there before the step.\<close>

lemma transfer_job_stays:
  assumes "io_inv w" "io_inv w'" "xfers_ok w t" "allowed l w" "untransferred l (w, t)" "exec api l w = Inr w'"
    and "j \<in> set (write_thread_pool w')" "t (wj_buf j) = Some x"
  shows "j \<in> set (write_thread_pool w)"
proof -
  consider k where "k \<in> set (write_thread_pool w)" "wj_buf k = wj_buf j"
    | k where "k \<in> set (read_thread_pool w)" "read_job_buf k = wj_buf j"
    using assms(3,8) unfolding xfers_ok_def xfer_of_def by blast
  then show ?thesis
  proof cases
    case 1
    then have "k \<in> set (write_thread_pool w')"
      using assms(5,8) by (intro write_job_stays [OF assms(1,4,6) 1(1)]) auto
    then show ?thesis
      using jobs_by_buf(1) [OF assms(2) _ assms(7)] 1 by metis
  next
    case 2
    then have "k \<in> set (read_thread_pool w')"
      using assms(5,8) by (intro read_job_stays [OF assms(1,4,6) 2(1)]) auto
    then show ?thesis
      using jobs_by_buf(3) [OF assms(2,7)] 2(2) by metis
  qed
qed

section \<open>Every round refines the byte store\<close>

lemma plain_refines:
  assumes "t_inv si (w, t)" "t_step api si (Plain l) (w, t) (w', t')"
  shows "t_inv si (w', t')" "cell_ok si c \<Longrightarrow> view si w' c = (case effect si l c of None \<Rightarrow> view si w c | Some b \<Rightarrow> b)"
proof -
  have v: "view_inv si w" "xfers_ok w t" "prefix_ok si w t" and io: "io_inv w"
    using assms(1) by (simp_all add: view_inv_def)
  have s: "client_step api si l w w'" "untransferred l (w, t)" and t': "t' = t"
    using assms(2) by (cases "exec api l w"; auto simp: t_step_def client_step_def)+
  then have l: "allowed l w" "orderly si l w" "exec api l w = Inr w'"
    by (simp_all add: client_step_def)
  note v' = wb.step_inv [OF v(1) s(1)]
  show seen: "view si w' c = (case effect si l c of None \<Rightarrow> view si w c | Some b \<Rightarrow> b)" if "cell_ok si c" for c
    by (rule wb.step_seen [OF v(1) s(1) that])
  have io': "io_inv w'" and x': "xfers_ok w' t"
    using v' plain_xfers_ok [OF io v(2) l(1) s(2) l(3)] by (simp_all add: view_inv_def)
  have "prefix_ok si w' t"
    unfolding prefix_ok_def
  proof (intro ballI allI impI)
    fix j sls pos c
    assume j: "j \<in> set (write_thread_pool w')"
      and x: "wj_stage j = Storing \<and> wj_storage j = si_idx si \<and> t (wj_buf j) = Some (sls, pos)"
      and c: "covers (wj_req j) c \<and> snd c mod 16384 < pos"
    have old: "j \<in> set (write_thread_pool w)"
      by (rule transfer_job_stays [OF io io' v(2) l(1) s(2) l(3) j]) (use x in blast)
    note p = pending_seen(1) [OF v(1) old, of c] and ok = covers_cell_ok [OF job_whole [OF v(1) old]]
    have "effect si l c = None"
      using write_not_pending [OF l(2) ok, of c] p x c by (cases "effect si l c") auto
    then show "disk si w' c = view si w' c"
      using disk_moves [OF v(1) s(1) ok, of c] seen [OF ok, of c] v(3) old x c unfolding prefix_ok_def by fastforce
  qed
  with v' x' t' show "t_inv si (w', t')" by simp
qed

lemma settlesI:
  assumes "store_buf w' = store_buf w" "mem w' = mem w"
    and "\<And>c. cell_ok si c \<Longrightarrow> disk si w' c = disk si w c \<or> disk si w' c = view si w c"
  shows "settles si w w'"
  unfolding settles_def
proof (intro allI impI)
  fix c assume "cell_ok si c"
  note d = assms(3) [OF this]
  then have "view si w' c = view si w c"
    by (cases "lookup_block (store_buf w) (cell_loc si c)") (auto simp: view_def assms(1,2))
  with d show "view si w' c = view si w c \<and> (disk si w' c = disk si w c \<or> disk si w' c = view si w c)" by blast
qed

text \<open>A slice of another torrent.\<close>

lemma foreign_slice:
  assumes "site_inv si w" "deref_storage idx w = Inr ps" "idx \<noteq> si_idx si" "w' = w\<lparr>sys := pwrite (sys w) (ps_fd ps) bs off\<rparr>"
  shows "site_inv si w'" "disk si w' = disk si w" "os_devs (sys w') (si_path si) = os_devs (sys w) (si_path si)"
proof -
  have "(idx, Some ps) \<in> set (storages w)"
    using assms(2) by (auto simp: deref_storage_def split: option.splits dest: map_of_SomeD)
  then have "os_fds (sys w) (ps_fd ps) \<noteq> Some (si_path si)"
    using assms(1,3) by (auto simp: site_inv_def)
  note o = pwrite_other [OF this, of bs off]
  show "os_devs (sys w') (si_path si) = os_devs (sys w) (si_path si)"
    using o by (simp add: assms(4))
  show "disk si w' = disk si w"
    using o by (simp add: disk_def assms(4) fun_eq_iff)
  show "site_inv si w'"
    using assms(1) o by (simp add: site_inv_def storage_on_def assms(4))
qed

lemma store_slice_settles:
  assumes "view_inv si w" "xfers_ok w t" "i < length (write_thread_pool w)" "j = write_thread_pool w ! i" "wj_stage j = Storing"
    and "t (wj_buf j) = Some (sl # sls, pos)" "deref_storage (wj_storage j) w = Inr ps" "mem w (wj_buf j) = Some blk"
    and "length blk = 16384" "partition_offset (ps_fs ps) sl = Inr (Inr off)"
    and w': "w' = w\<lparr>sys := pwrite (sys w) (ps_fd ps) (take (nat (fsl_size sl)) (drop pos blk)) off\<rparr>"
  shows "site_inv si w'" "settles si w w'"
    and "wj_storage j = si_idx si \<Longrightarrow> covers (wj_req j) c \<Longrightarrow> pos \<le> snd c mod 16384 \<Longrightarrow>
      snd c mod 16384 < pos + nat (fsl_size sl) \<Longrightarrow> disk si w' c = view si w c"
proof -
  have inv: "io_inv w" "site_inv si w"
    using assms(1) by (simp_all add: view_inv_def)
  have j: "j \<in> set (write_thread_pool w)" "not_erased (wj_stage j)"
    using assms(3-5) by simp_all
  have r: "site_inv si w' \<and> (\<forall>c. cell_ok si c \<longrightarrow> disk si w' c = disk si w c \<or> disk si w' c = view si w c) \<and>
    (\<forall>c. wj_storage j = si_idx si \<and> covers (wj_req j) c \<and> pos \<le> snd c mod 16384 \<and>
       snd c mod 16384 < pos + nat (fsl_size sl) \<longrightarrow> disk si w' c = view si w c)"
  proof (cases "wj_storage j = si_idx si")
    case True
    have wb: "whole_block si (wj_req j)"
      by (rule job_whole [OF assms(1) j(1) True])
    have "ps = si_ps si"
      using assms(7) site_deref [OF inv] True by simp
    then have sd: "site_inv si w'" "\<And>c. cell_ok si c \<Longrightarrow> disk si w' c =
      (if covers (wj_req j) c \<and> pos \<le> snd c mod 16384 \<and> snd c mod 16384 < pos + nat (fsl_size sl)
       then blk ! (snd c mod 16384) else disk si w c)"
      using slice_disk [OF inv True wb store_xfer_cut [OF inv(1) assms(2) j(1) assms(6)] assms(9)] assms(10) w' by simp_all
    show ?thesis
      using sd pending_seen(2) [OF assms(1) j True] covers_cell_ok [OF wb] assms(8) by (auto split: if_splits)
  qed (use foreign_slice [OF inv(2) assms(7) _ w'] in simp)
  then show "site_inv si w'" by blast
  show "wj_storage j = si_idx si \<Longrightarrow> covers (wj_req j) c \<Longrightarrow> pos \<le> snd c mod 16384 \<Longrightarrow>
      snd c mod 16384 < pos + nat (fsl_size sl) \<Longrightarrow> disk si w' c = view si w c"
    using r by blast
  show "settles si w w'"
    by (rule settlesI) (simp_all add: w', use r [unfolded w'] in blast)
qed

text \<open>Whatever a round of a write job does, the partition settles and the invariant is kept.\<close>

lemma finished_on_disk:
  assumes "t_inv si (w, t)" "j \<in> set (write_thread_pool w)" "wj_stage j = Storing" "t (wj_buf j) = Some ([], pos)"
    and "wj_storage j = si_idx si" "covers (wj_req j) c"
  shows "disk si w c = view si w c"
proof -
  have v: "view_inv si w" "xfers_ok w t" "prefix_ok si w t" and inv: "io_inv w" "site_inv si w"
    using assms(1) by (simp_all add: view_inv_def)
  note wb = job_whole [OF v(1) assms(2,5)]
  obtain d where d: "storage_on (sys w) (si_ps si) (si_addr si) (si_path si) d"
    using inv(2) by (auto simp: site_inv_def)
  note xs = storage_on_addrs [OF d whole_block_in_piece [OF wb site_fs_ok [OF inv]]]
  have "pos = nat (pr_length (wj_req j))"
    using store_xfer_cut [OF inv(1) v(2) assms(2,4)] slice_addrs_ok [OF xs(1)] xs(3) assms(5) site_deref [OF inv]
    by (auto simp: slices_left_def write_job_range_def)
  then have "snd c mod 16384 < pos"
    using covers_offset [OF wb assms(6)] by simp
  then show ?thesis
    using v(3) assms(2-6) unfolding prefix_ok_def by blast
qed

lemma site_slice_parses:
  assumes "t_inv si (w, t)" "j \<in> set (write_thread_pool w)" "t (wj_buf j) = Some (sl # sls, pos)"
    and "wj_storage j = si_idx si" "deref_storage (wj_storage j) w = Inr ps"
  shows "partition_offset (ps_fs ps) sl \<noteq> Inr (Inl e)"
proof -
  have v: "view_inv si w" "xfers_ok w t" and inv: "io_inv w" "site_inv si w"
    using assms(1) by (simp_all add: view_inv_def)
  obtain d where d: "storage_on (sys w) (si_ps si) (si_addr si) (si_path si) d"
    using inv(2) by (auto simp: site_inv_def)
  have ps: "ps = si_ps si"
    using assms(4,5) site_deref [OF inv] by simp
  obtain xs where "fs_map_block (ps_fs ps) (pr_piece (wj_req j)) (pr_start (wj_req j)) (pr_length (wj_req j)) = xs @ sl # sls"
    using store_xfer_cut [OF inv(1) v(2) assms(2,3)] assms(5) by (auto simp: slices_left_def write_job_range_def)
  from next_slice_on [OF d whole_block_in_piece [OF job_whole [OF v(1) assms(2,4)] site_fs_ok [OF inv]] this [unfolded ps]]
  obtain q where "partition_offset (ps_fs (si_ps si)) sl = Inr (Inr q)" by blast
  then show ?thesis
    by (simp add: ps)
qed

lemma stored_refines:
  assumes "t_inv si (w, t)" "i < length (write_thread_pool w)" "j = write_thread_pool w ! i" "wj_stage j = Storing"
    and "xfers_ok (stored i err w) (t(wj_buf j := None))"
    and "\<And>c. wj_storage j = si_idx si \<Longrightarrow> covers (wj_req j) c \<Longrightarrow> disk si w c = view si w c"
  shows "t_inv si (stored i err w, t(wj_buf j := None))" "settles si w (stored i err w)"
proof -
  have v: "view_inv si w" "prefix_ok si w t"
    using assms(1) by simp_all
  note s = stored_view_inv [OF v(1) assms(2) assms(4) [unfolded assms(3)] assms(6) [unfolded assms(3)], of err]
  show st: "settles si w (stored i err w)"
    by (simp add: settles_def s)
  have "prefix_ok si (stored i err w) (t(wj_buf j := None))"
  proof (rule prefix_ok_settles [OF v st])
    fix k sls pos assume k: "k \<in> set (write_thread_pool (stored i err w))" "(t(wj_buf j := None)) (wj_buf k) = Some (sls, pos)"
    then have "k \<noteq> j\<lparr>wj_stage := Erasing err\<rparr>" "t (wj_buf k) = Some (sls, pos)"
      by (auto split: if_splits)
    then show "k \<in> set (write_thread_pool w) \<and> (t (wj_buf k) = Some (sls, pos) \<or>
        (\<forall>c. covers (wj_req k) c \<and> snd c mod 16384 < pos \<longrightarrow> disk si (stored i err w) c = view si (stored i err w) c))"
      using k(1) set_update_subset_insert [of "write_thread_pool w" i] by (auto simp: stored_def assms(3))
  qed
  with s(1) assms(5) show "t_inv si (stored i err w, t(wj_buf j := None))" by simp
qed

lemma slice_prefix:
  assumes "view_inv si w" "prefix_ok si w t" "j \<in> set (write_thread_pool w)" "wj_stage j = Storing"
    and "t (wj_buf j) = Some (sl # sls, pos)" "settles si w w'" "write_thread_pool w' = write_thread_pool w"
    and "\<And>c. wj_storage j = si_idx si \<Longrightarrow> covers (wj_req j) c \<Longrightarrow> pos \<le> snd c mod 16384 \<Longrightarrow> snd c mod 16384 < pos + n \<Longrightarrow>
           disk si w' c = view si w c"
  shows "prefix_ok si w' (t(wj_buf j \<mapsto> (sls, pos + n)))"
proof (rule prefix_ok_settles [OF assms(1,2,6)])
  fix k xs q
  assume k: "k \<in> set (write_thread_pool w')" "wj_storage k = si_idx si" "(t(wj_buf j \<mapsto> (sls, pos + n))) (wj_buf k) = Some (xs, q)"
  have "disk si w' c = view si w' c" if "wj_buf k = wj_buf j" "covers (wj_req k) c" "snd c mod 16384 < q" for c
  proof -
    have "io_inv w" using assms(1) by (simp add: view_inv_def)
    then have kj: "k = j"
      using k(1) assms(3,7) that(1) by (intro jobs_by_buf(1) [of w]) simp_all
    have q: "q = pos + n"
      using k(3) that(1) by simp
    note ok = covers_cell_ok [OF job_whole [OF assms(1,3)], of c]
    show ?thesis
    proof (cases "snd c mod 16384 < pos")
      case True
      then have "disk si w c = view si w c"
        using assms(2-5) k(2) kj that(2) unfolding prefix_ok_def by blast
      then show ?thesis
        using settlesD [OF assms(6) ok] k(2) kj that(2) by auto
    next
      case False
      then show ?thesis
        using assms(8) [of c] settlesD(1) [OF assms(6) ok] k(2) kj that q by simp
    qed
  qed
  then show "k \<in> set (write_thread_pool w) \<and> (t (wj_buf k) = Some (xs, q) \<or>
      (\<forall>c. covers (wj_req k) c \<and> snd c mod 16384 < q \<longrightarrow> disk si w' c = view si w' c))"
    using k assms(7) by (cases "wj_buf k = wj_buf j") auto
qed

lemma store_refines:
  assumes "t_inv si (w, t)" "t_step api si (Store i) (w, t) (w', t')"
  shows "t_inv si (w', t') \<and> settles si w w'"
proof -
  have v: "view_inv si w" "xfers_ok w t" "prefix_ok si w t" and io: "io_inv w"
    using assms(1) by (simp_all add: view_inv_def)
  have st: "i < length (write_thread_pool w)" "wj_stage (write_thread_pool w ! i) = Storing" "store_part i (w, t) = Inr (w', t')"
    using assms(2) by (cases "store_part i (w, t)"; auto simp: t_step_def simp del: store_part.simps)+
  have safe: "io_inv w'" "xfers_ok w' t'"
    using store_part_safe [OF io v(2) st(1,2)] st(3) by auto
  define j where "j = write_thread_pool w ! i"
  have j: "j \<in> set (write_thread_pool w)" "wj_stage j = Storing"
    using st by (simp_all add: j_def)
  from io v(2) st(1) j_def show ?thesis
  proof (cases rule: store_part_cases)
    case (start ps)
    then have "prefix_ok si w t'" "w' = w"
      using st(3) v(3) by (auto simp: prefix_ok_def split: if_splits)
    then show ?thesis
      using v safe(2) by (simp add: settles_def)
  next
    case (finish pos)
    then show ?thesis
      using stored_refines [OF assms(1) st(1) j_def j(2), of storage_error_init] finished_on_disk [OF assms(1) j finish(1)] st(3) safe(2)
      by simp
  next
    case (failed sl sls pos ps e err)
    then show ?thesis
      using stored_refines [OF assms(1) st(1) j_def j(2), of err] site_slice_parses [OF assms(1) j(1) failed(1) _ failed(2)] st(3) safe(2)
      by auto
  next
    case (slice sl sls pos ps off blk)
    have w': "w' = w\<lparr>sys := pwrite (sys w) (ps_fd ps) (take (nat (fsl_size sl)) (drop pos blk)) off\<rparr>"
      and t': "t' = t(wj_buf j \<mapsto> (sls, pos + nat (fsl_size sl)))"
      using slice(9) st(3) by simp_all
    note ss = store_slice_settles [OF v(1,2) st(1) j_def j(2) slice(1-4,7) w']
    have "view_inv si w'"
      by (rule view_inv_settles [OF v(1) ss(2) safe(1) ss(1)]) (simp_all add: w')
    moreover have "prefix_ok si w' t'"
      unfolding t' by (rule slice_prefix [OF v(1,3) j slice(1) ss(2) _ ss(3)]) (simp_all add: w')
    ultimately show ?thesis
      using safe(2) ss(2) by simp
  qed
qed

lemma load_refines:
  assumes "t_inv si (w, t)" "t_step api si (Load i) (w, t) (w', t')"
  shows "t_inv si (w', t') \<and> settles si w w'"
proof -
  have v: "view_inv si w" "xfers_ok w t" "prefix_ok si w t" and io: "io_inv w"
    using assms(1) by (simp_all add: view_inv_def)
  have st: "i < length (read_thread_pool w)" "load_part i (w, t) = Inr (w', t')"
    using assms(2) by (cases "load_part i (w, t)"; auto simp: t_step_def simp del: load_part.simps)+
  have safe: "io_inv w'" "xfers_ok w' t'"
    using load_part_safe [OF io v(2) st(1)] st(2) by auto
  define j where "j = read_thread_pool w ! i"
  have buf: "wj_buf k \<noteq> read_job_buf j" if "k \<in> set (write_thread_pool w)" for k
    using jobs_by_buf(3) [OF io that] st(1) by (simp add: j_def)
  obtain idx piece off len pos0 where rg: "read_job_range j = (idx, piece, off, len, pos0)"
    by (metis prod_cases5)
  have q: "quiet w w' \<and> (\<forall>b. b \<noteq> read_job_buf j \<longrightarrow> t' b = t b)"
    using io v(2) st(1) j_def rg
    by (cases rule: load_part_cases)
      (use st(2) buf in \<open>auto simp: quiet_def write_bufs_def answered_def Let_def post_ioc_def simp del: load_part.simps\<close>)
  have s: "settles si w w'"
    using quiet_view [OF io, of w' si] q disk_cong [of w' w si] by (simp add: settles_def quiet_def)
  have "prefix_ok si w' t'"
    by (rule prefix_ok_settles [OF v(1,3) s]) (use q buf in \<open>auto simp: quiet_def\<close>)
  then show ?thesis
    using quiet_inv [OF v(1) _ safe(1)] q s safe(2) by simp
qed

interpretation tv: write_behind "t_inv si" "t_view si" "cell_ok si" "t_step api si" "t_effect si" for api si
proof unfold_locales
  fix st l st' assume a: "t_inv si st" "t_step api si l st st'"
  obtain w t w' t' where st: "st = (w, t)" "st' = (w', t')"
    by (metis prod.exhaust)
  show "t_inv si st'"
    using a plain_refines(1) [of si w t api _ w' t'] store_refines [of si w t api _ w' t'] load_refines [of si w t api _ w' t']
    unfolding st by (cases l) blast+
  show "t_view si st' c = (case t_effect si l c of None \<Rightarrow> t_view si st c | Some b \<Rightarrow> b)" if "cell_ok si c" for c
    using a plain_refines(2) [OF _ _ that, of w t api _ w' t'] store_refines [of si w t api _ w' t']
      load_refines [of si w t api _ w' t'] settlesD(1) [OF _ that, of w w'] unfolding st by (cases l) (auto split: option.split)
qed

text \<open>No step of a run moves a byte of the partition but to what is seen of it or to what is written.\<close>

lemma t_disk_moves:
  assumes "t_inv si (w, t)" "t_step api si l (w, t) (w', t')" "cell_ok si c"
  shows "disk si w' c = disk si w c \<or> disk si w' c = view si w c \<or> t_effect si l c = Some (disk si w' c)"
proof (cases l)
  case (Plain k)
  have "client_step api si k w w'"
    using assms(2) Plain by (cases "exec api k w"; auto simp: t_step_def client_step_def)
  then show ?thesis
    using disk_moves [of si w api k w' c] assms(1,3) Plain by simp
qed (use assms settlesD(2) [OF _ assms(3)] store_refines [of si w t api _ w' t'] load_refines [of si w t api _ w' t'] in blast)+

section \<open>Property of the disk back end: content under transfers\<close>

text \<open>C14: The refinement to a byte store holds slice by slice. The threads may be interrupted between any two
  \<open>pread\<close> or \<open>pwrite\<close> calls of a job, so that the partition holds blocks that are half old and half new; along every
  such run the content seen is the initial one with the writes applied in the order of their calls, no allowed
  step is undefined behaviour, and when the write jobs are through the partition holds what is seen.\<close>

theorem slices_refinement:
  assumes "t_inv si (w, t)" "lruns (t_step api si) (w, t) ls (w', t')" "cell_ok si c"
  shows "view si w' c = last_write (t_effect si) c ls (view si w c) \<and>
    (write_thread_pool w' = [] \<longrightarrow> disk si w' c = view si w' c) \<and>
    (\<forall>l. allowed_t l (w', t') \<longrightarrow> (\<exists>st. exec_t api l (w', t') = Inr st))"
proof -
  have inv: "view_inv si w'" "xfers_ok w' t'"
    using tv.run_inv [OF assms(2,1)] by simp_all
  then have "\<exists>st. exec_t api l (w', t') = Inr st" if "allowed_t l (w', t')" for l
    using exec_t_safe [OF _ inv(2) that, of api] by (auto simp: view_inv_def)
  moreover have "view si w' c = last_write (t_effect si) c ls (view si w c)"
    using tv.run_seen [OF assms(2,1,3)] by simp
  moreover have "write_thread_pool w' = [] \<longrightarrow> disk si w' c = view si w' c"
    using view_is_disk [OF inv(1)] by auto
  ultimately show ?thesis by blast
qed

text \<open>The example after the first of the two slices of its block is stored.\<close>

definition example_torn :: tworld where
  "example_torn =
     (example_written\<lparr>sys := pwrite (sys example_written) 4 [1, 2, 3] 2\<rparr>,
      [9 \<mapsto> ([\<lparr>fsl_file_index = 1, fsl_offset = 0, fsl_size = 4\<rparr>], 3)])"

lemma example_torn_run:
  "lruns (t_step example_hasher example_site) (example_written, Map.empty) [Store 0, Store 0] example_torn"
proof -
  let ?sls = "[\<lparr>fsl_file_index = 0, fsl_offset = 0, fsl_size = 3\<rparr>, \<lparr>fsl_file_index = 1, fsl_offset = 0, fsl_size = 4\<rparr>]"
  have j: "write_thread_pool example_written =
      [\<lparr>wj_storage = 0, wj_req = example_request, wj_buf = 9, wj_handler = 5, wj_stage = Storing\<rparr>]"
    by (simp add: example_written_def)
  have d: "deref_storage 0 example_written = Inr (example_storage\<lparr>ps_fd := 4\<rparr>)"
    by (simp add: deref_storage_def example_written_def example_world_def)
  have m: "fs_map_block (ps_fs (example_storage\<lparr>ps_fd := 4\<rparr>)) 0 0 7 = ?sls"
    by (simp add: example_storage_def ranges_storage_def)
  have p: "partition_offset (ps_fs (example_storage\<lparr>ps_fd := 4\<rparr>)) (hd ?sls) = Inr (Inr 2)"
    by (simp add: partition_offset_def example_storage_def ranges_storage_def stoll16_to_hex wrap_simps)
  have a: "allowed_t (Store 0) (example_written, t)" for t
    using j by (simp add: pool_threads_def)
  have b: "mem example_written 9 = Some (blit 0 [1, 2, 3, 4, 5, 6, 7] (replicate 16384 0))"
    by (simp add: example_written_def)
  let ?w = "example_written\<lparr>sys := pwrite (sys example_written) 4 [1, 2, 3] 2\<rparr>"
  have s1: "store_part 0 (example_written, Map.empty) = Inr (example_written, [9 \<mapsto> (?sls, 0)])"
    using j d m b by (simp add: bind_res_def example_request_def)
  have "store_slice (example_storage\<lparr>ps_fd := 4\<rparr>) (hd ?sls) (drop 0 (blit 0 [1, 2, 3, 4, 5, 6, 7] (replicate 16384 0)))
      (sys example_written) = Inr (Inr (pwrite (sys example_written) 4 [1, 2, 3] 2))"
    using p by (simp add: store_slice_def wrap_simps) (simp add: blit_def)
  then have s2: "store_part 0 (example_written, [9 \<mapsto> (?sls, 0)]) = Inr example_torn"
    using j d b by (simp add: bind_res_def example_torn_def)
  show ?thesis
    by (rule lruns.more [OF _ lruns.more [OF _ lruns.none]])
      (use a s1 s2 in \<open>auto simp: t_step_def simp del: store_part.simps allowed_t.simps\<close>)
qed

theorem slices_refinement_witness:
  "view example_site (fst example_torn) (0, 0) = 1 \<and> disk example_site (fst example_torn) (0, 0) = 1 \<and>
   view example_site (fst example_torn) (0, 5) = 6 \<and> disk example_site (fst example_torn) (0, 5) = 0"
proof -
  obtain w t where wt: "example_torn = (w, t)" by fastforce
  have inv: "t_inv example_site (example_written, Map.empty)"
    using example_view_inv(2) by (simp add: xfers_ok_def prefix_ok_def)
  have c: "cell_ok example_site (0, 0)" "cell_ok example_site (0, 5)"
    by (simp_all add: cell_ok_def example_site_def piece_size_def example_storage_def ranges_storage_def)
  have v: "view example_site example_written (0, 0) = 1" "view example_site example_written (0, 5) = 6"
    by (simp_all add: view_def cell_loc_def example_site_def example_written_def blit_def)
  have d: "disk example_site (fst example_torn) (0, 0) = 1" "disk example_site (fst example_torn) (0, 5) = 0"
    by (simp_all add: disk_def example_torn_def example_site_def example_written_def example_world_def example_os_def
        example_addr_def pwrite_def dev_write_def blit_def nth_append nth_Cons')
  show ?thesis
    using slices_refinement [OF inv example_torn_run [unfolded wt] c(1)] slices_refinement [OF inv example_torn_run [unfolded wt] c(2)] v d
    by (simp add: wt)
qed

end
