(* ===== verification/Transfers_Progress.thy ===== *)
theory Transfers_Progress
  imports Transfers_View
begin

text \<open>
  Progress of transfers. The rounds of the loops of \<open>read\<close> and \<open>write\<close> end under every schedule, and from every state
  in which threads were interrupted between two slices the jobs alone can finish, with the partition whole.
\<close>

section \<open>Rounds end\<close>

fun internal_t :: "tlabel \<Rightarrow> tworld \<Rightarrow> bool" where
  "internal_t (Plain l) (w, t) \<longleftrightarrow> internal l w"
| "internal_t _ st \<longleftrightarrow> True"

fun job_label_t :: "tlabel \<Rightarrow> bool" where
  "job_label_t (Plain l) \<longleftrightarrow> job_label l"
| "job_label_t _ \<longleftrightarrow> True"

lemma internal_t_job_label: "internal_t l st \<Longrightarrow> job_label_t l"
  by (cases "(l, st)" rule: internal_t.cases) (auto dest: internal_job_label)

text \<open>
  The measure: the work of \<open>Disk_Progress\<close>, then the jobs whose transfer has not begun, then the slices left of those
  that have. How many slices a transfer has is known when it begins, so the order is lexicographic.
\<close>

definition job_bufs :: "world \<Rightarrow> addr list" where
  "job_bufs w = map read_job_buf (read_thread_pool w) @ map wj_buf (write_thread_pool w)"

definition unbegun :: "transfers \<Rightarrow> addr \<Rightarrow> nat" where
  "unbegun t b = (case t b of None \<Rightarrow> 1 | Some _ \<Rightarrow> 0)"

definition rounds_left :: "transfers \<Rightarrow> addr \<Rightarrow> nat" where
  "rounds_left t b = (case t b of None \<Rightarrow> 0 | Some (sls, pos) \<Rightarrow> length sls)"

definition transfer_order :: "(tworld \<times> tworld) set" where
  "transfer_order = measures [\<lambda>(w, t). work w, \<lambda>(w, t). sum_list (map (unbegun t) (job_bufs w)),
     \<lambda>(w, t). sum_list (map (rounds_left t) (job_bufs w))]"

lemma wf_transfer_order [simp]: "wf transfer_order"
  by (simp add: transfer_order_def)

lemma sum_list_less:
  fixes f g :: "'a \<Rightarrow> nat"
  assumes "\<And>x. f x \<le> g x" "a \<in> set xs" "f a < g a"
  shows "sum_list (map f xs) < sum_list (map g xs)"
  using assms(2)
proof (induction xs)
  case (Cons x xs)
  have "sum_list (map f xs) \<le> sum_list (map g xs)"
    by (rule sum_list_mono) (rule assms(1))
  with Cons assms(1) [of x] assms(3) show ?case
    by (cases "a = x") (fastforce intro: add_less_le_mono add_le_less_mono)+
qed simp

lemma transfer_order_begin:
  assumes "b \<in> set (job_bufs w)" "t b = None"
  shows "((w, t(b \<mapsto> x)), (w, t)) \<in> transfer_order"
proof -
  have "sum_list (map (unbegun (t(b \<mapsto> x))) (job_bufs w)) < sum_list (map (unbegun t) (job_bufs w))"
    by (rule sum_list_less [OF _ assms(1)]) (simp_all add: unbegun_def assms(2))
  then show ?thesis
    by (simp add: transfer_order_def)
qed

lemma transfer_order_round:
  assumes "b \<in> set (job_bufs w)" "t b = Some (sl # sls, pos)" "work w' = work w" "job_bufs w' = job_bufs w"
  shows "((w', t(b \<mapsto> (sls, pos'))), (w, t)) \<in> transfer_order"
proof -
  have "unbegun (t(b \<mapsto> (sls, pos'))) = unbegun t"
    by (simp add: unbegun_def fun_eq_iff assms(2))
  moreover have "sum_list (map (rounds_left (t(b \<mapsto> (sls, pos')))) (job_bufs w)) < sum_list (map (rounds_left t) (job_bufs w))"
    by (rule sum_list_less [OF _ assms(1)]) (simp_all add: rounds_left_def assms(2))
  ultimately show ?thesis
    by (simp add: transfer_order_def assms(3,4))
qed

lemma transfer_order_work: "work w' < work w \<Longrightarrow> ((w', t'), (w, t)) \<in> transfer_order"
  by (simp add: transfer_order_def)

lemma stored_work:
  assumes "i < length (write_thread_pool w)" "wj_stage (write_thread_pool w ! i) = Storing"
  shows "work (stored i err w) < work w"
proof -
  have "sum_list (map (stage_work \<circ> wj_stage) ((write_thread_pool w)[i := (write_thread_pool w ! i)\<lparr>wj_stage := Erasing err\<rparr>])) <
      sum_list (map (stage_work \<circ> wj_stage) (write_thread_pool w))"
    by (rule sum_list_update_less [OF assms(1)]) (simp add: assms(2))
  then show ?thesis
    by (simp add: work_def stored_def)
qed

lemma answered_work: "i < length (read_thread_pool w) \<Longrightarrow> work (answered i err w) < work w"
  using sum_list_remove_at [of i "read_thread_pool w" "\<lambda>_. 1"]
  by (simp add: work_def answered_def Let_def post_ioc_def sum_list_triv)

lemma store_part_decreases:
  assumes "io_inv w" "xfers_ok w t" "i < length (write_thread_pool w)" "wj_stage (write_thread_pool w ! i) = Storing"
    and "store_part i (w, t) = Inr (w', t')"
  shows "((w', t'), (w, t)) \<in> transfer_order"
proof -
  define j where "j = write_thread_pool w ! i"
  have j: "wj_buf j \<in> set (job_bufs w)"
    using assms(3) by (simp add: job_bufs_def j_def)
  from assms(1-3) j_def show ?thesis
  proof (cases rule: store_part_cases)
    case (start ps)
    then show ?thesis using transfer_order_begin [of "wj_buf j" w t, OF j start(2)] assms(5) by (simp del: store_part.simps)
  next
    case (finish pos)
    then show ?thesis using stored_work [OF assms(3,4)] assms(5) by (auto intro: transfer_order_work simp del: store_part.simps)
  next
    case (failed sl sls pos ps e err)
    then show ?thesis using stored_work [OF assms(3,4)] assms(5) by (auto intro: transfer_order_work simp del: store_part.simps)
  next
    case (slice sl sls pos ps off blk)
    then show ?thesis
      using transfer_order_round [of "wj_buf j" w t, OF j slice(1)] assms(5) by (auto simp: work_def job_bufs_def simp del: store_part.simps)
  qed
qed

lemma load_part_decreases:
  assumes "io_inv w" "xfers_ok w t" "i < length (read_thread_pool w)" "load_part i (w, t) = Inr (w', t')"
  shows "((w', t'), (w, t)) \<in> transfer_order"
proof -
  define j where "j = read_thread_pool w ! i"
  have j: "read_job_buf j \<in> set (job_bufs w)"
    using assms(3) by (simp add: job_bufs_def j_def)
  obtain idx piece off len pos0 where rg: "read_job_range j = (idx, piece, off, len, pos0)"
    by (metis prod_cases5)
  from assms(1-3) j_def rg show ?thesis
  proof (cases rule: load_part_cases)
    case (start ps)
    then show ?thesis using transfer_order_begin [of "read_job_buf j" w t, OF j] assms(4) by (simp del: load_part.simps)
  next
    case (finish pos)
    then show ?thesis using answered_work [OF assms(3)] assms(4) by (auto intro: transfer_order_work simp del: load_part.simps)
  next
    case (failed sl sls pos ps e err)
    then show ?thesis using answered_work [OF assms(3)] assms(4) by (auto intro: transfer_order_work simp del: load_part.simps)
  next
    case (slice sl sls pos ps p bs blk)
    then show ?thesis
      using transfer_order_round [of "read_job_buf j" w t, OF j slice(1)] assms(4) by (auto simp: work_def job_bufs_def simp del: load_part.simps)
  qed
qed

lemma exec_t_decreases:
  assumes "io_inv w" "xfers_ok w t" "allowed_t l (w, t)" "internal_t l (w, t)" "exec_t api l (w, t) = Inr (w', t')"
  shows "((w', t'), (w, t)) \<in> transfer_order"
proof (cases l)
  case (Plain k)
  then have "exec api k w = Inr w'"
    using assms(5) by (auto simp: map_sum_Inr_iff)
  then show ?thesis
    using internal_work [of k w api w'] Plain assms(3,4) by (intro transfer_order_work) simp
next
  case (Store i)
  then show ?thesis
    using store_part_decreases [OF assms(1,2), of i] assms(3,5) by (auto simp: map_sum_Inr_iff simp del: store_part.simps)
next
  case (Load i)
  then show ?thesis
    using load_part_decreases [OF assms(1,2), of i] assms(3,5) by (auto simp: map_sum_Inr_iff simp del: load_part.simps)
qed

text \<open>While something is left to do, some job or the io context can take a step, whatever is under way.\<close>

lemma internal_t_exists:
  assumes "io_inv w" "xfers_ok w t" "\<not> quiescent w"
  shows "\<exists>l. internal_t l (w, t) \<and> allowed_t l (w, t)"
proof -
  obtain l where l: "internal l w" "allowed l w"
    using internal_exists [OF assms(3)] by blast
  consider i where "l = RunRead i" | i where "l = RunWrite i" "wj_stage (write_thread_pool w ! i) = Storing"
    | i where "l = RunWrite i" "wj_stage (write_thread_pool w ! i) \<noteq> Storing" | "untransferred l (w, t)"
    by (cases l) auto
  then show ?thesis
  proof cases
    case (1 i)
    then show ?thesis using l by (intro exI [of _ "Load i"]) simp
  next
    case (2 i)
    then show ?thesis using l by (intro exI [of _ "Store i"]) simp
  next
    case (3 i)
    then have j: "write_thread_pool w ! i \<in> set (write_thread_pool w)"
      using l(2) by simp
    then have "t (wj_buf (write_thread_pool w ! i)) = None"
      using assms(2) 3(2) jobs_by_buf(1,3) [OF assms(1)] unfolding xfers_ok_def xfer_of_def by (metis not_Some_eq)
    then show ?thesis using 3 l by (intro exI [of _ "Plain l"]) simp
  next
    case 4
    then show ?thesis using l by (intro exI [of _ "Plain l"]) simp
  qed
qed

lemma orderly_t_job: "job_label_t l \<Longrightarrow> orderly_t si l st"
  by (cases "(si, l, st)" rule: orderly_t.cases) (auto elim: job_label.elims)

lemma job_no_effect: "job_label_t l \<Longrightarrow> t_effect si l c = None"
  by (cases l) (auto elim: job_label.elims)

lemma transfers_drain:
  assumes "t_inv si st"
  shows "\<exists>ls w'. lruns (t_step api si) st ls (w', Map.empty) \<and> (\<forall>l \<in> set ls. job_label_t l) \<and> quiescent w'"
  using assms
proof (induction st rule: wf_induct_rule [OF wf_transfer_order])
  case (1 st)
  obtain w t where st: "st = (w, t)" by fastforce
  have inv: "io_inv w" "xfers_ok w t"
    using 1(2) by (simp_all add: st view_inv_def)
  show ?case
  proof (cases "quiescent w")
    case True
    then have "t b = None" for b
      using inv(2) by (cases "t b") (auto simp: xfers_ok_def xfer_of_def quiescent_def)
    then have "t = Map.empty" by (rule ext)
    then show ?thesis
      using True by (intro exI [of _ "[]"] exI [of _ w]) (simp add: st lruns.none)
  next
    case False
    then obtain l where l: "internal_t l (w, t)" "allowed_t l (w, t)"
      using internal_t_exists [OF inv] by blast
    obtain w1 t1 where x: "exec_t api l (w, t) = Inr (w1, t1)"
      using exec_t_safe [OF inv l(2), of api] by blast
    note jl = internal_t_job_label [OF l(1)]
    have s: "t_step api si l st (w1, t1)"
      using l(2) x orderly_t_job [OF jl] by (simp add: t_step_def st)
    then obtain ls w' where "lruns (t_step api si) (w1, t1) ls (w', Map.empty)" "\<forall>l \<in> set ls. job_label_t l" "quiescent w'"
      using 1(1) [of "(w1, t1)"] exec_t_decreases [OF inv l(2,1) x] tv.step_inv [OF 1(2) s] by (auto simp: st)
    then show ?thesis
      using s jl by (intro exI [of _ "l # ls"] exI [of _ w']) (auto intro: lruns.more)
  qed
qed

section \<open>Property of the disk back end: transfers end\<close>

text \<open>C20: Transfers end and leave the partition whole. When the threads are stopped anywhere, between two
  \<open>pread\<close> or \<open>pwrite\<close> calls of a job included, every further step of a job or of the io context goes down in a
  well-founded order, whatever the schedule; and such steps alone lead to a state with nothing left to do and no
  transfer under way, in which every byte seen before is on the partition.\<close>

theorem transfers_end:
  assumes "t_inv si (w, t)"
  shows "wf transfer_order \<and>
    (\<forall>l st. internal_t l (w, t) \<and> t_step api si l (w, t) st \<longrightarrow> (st, (w, t)) \<in> transfer_order) \<and>
    (\<exists>ls w'. lruns (t_step api si) (w, t) ls (w', Map.empty) \<and> (\<forall>l \<in> set ls. job_label_t l) \<and> quiescent w' \<and>
       (\<forall>c. cell_ok si c \<longrightarrow> disk si w' c = view si w c))"
proof (intro conjI allI impI)
  have inv: "io_inv w" "xfers_ok w t"
    using assms by (simp_all add: view_inv_def)
  show "(st, (w, t)) \<in> transfer_order" if "internal_t l (w, t) \<and> t_step api si l (w, t) st" for l st
    using that exec_t_decreases [OF inv, of l api] by (cases st) (auto simp: t_step_def)
  obtain ls w' where r: "lruns (t_step api si) (w, t) ls (w', Map.empty)" "\<forall>l \<in> set ls. job_label_t l" "quiescent w'"
    using transfers_drain [OF assms] by blast
  have "view_inv si w'"
    using tv.run_inv [OF r(1) assms] by simp
  then have "disk si w' c = view si w c" if "cell_ok si c" for c
    using view_is_disk tv.run_untouched [OF r(1) assms that] r(2,3) job_no_effect by (simp add: quiescent_def)
  with r show "\<exists>ls w'. lruns (t_step api si) (w, t) ls (w', Map.empty) \<and> (\<forall>l \<in> set ls. job_label_t l) \<and> quiescent w' \<and>
       (\<forall>c. cell_ok si c \<longrightarrow> disk si w' c = view si w c)"
    by blast
qed simp

theorem transfers_end_witness:
  "\<exists>ls w'. lruns (t_step example_hasher example_site) example_torn ls (w', Map.empty) \<and> quiescent w' \<and>
     disk example_site (fst example_torn) (0, 5) = 0 \<and> disk example_site w' (0, 5) = 6"
proof -
  obtain w t where wt: "example_torn = (w, t)" by fastforce
  have "t_inv example_site (example_written, Map.empty)"
    using example_view_inv(2) by (simp add: xfers_ok_def prefix_ok_def)
  then have inv: "t_inv example_site (w, t)"
    using tv.run_inv [OF example_torn_run] wt by metis
  have c: "cell_ok example_site (0, 5)"
    by (simp add: cell_ok_def example_site_def piece_size_def example_storage_def ranges_storage_def)
  have "view example_site (fst example_torn) (0, 5) = 6" "disk example_site (fst example_torn) (0, 5) = 0"
    by (simp_all add: view_def disk_def cell_loc_def example_torn_def example_site_def example_written_def example_world_def
        example_os_def example_addr_def pwrite_def dev_write_def blit_def nth_append nth_Cons')
  then show ?thesis
    using transfers_end [OF inv, of example_hasher] c wt by (metis fst_conv)
qed

end
