(* ===== verification/Deployment.thy ===== *)
theory Deployment
  imports Transfers_Progress
begin

text \<open>
  What ezio is for: a torrent whose files are ranges of a partition is written to it, and the partition then holds
  the image, with everything outside its ranges untouched.
\<close>

section \<open>The rest of the partition\<close>

definition part_data :: "site \<Rightarrow> world \<Rightarrow> bytes" where
  "part_data si w = (case os_devs (sys w) (si_path si) of None \<Rightarrow> [] | Some d \<Rightarrow> dev_data d)"

text \<open>A position of the partition that belongs to no byte of the torrent, and what a step must keep of it.\<close>

definition off_site :: "site \<Rightarrow> nat \<Rightarrow> bool" where
  "off_site si a \<longleftrightarrow> (\<forall>c. cell_ok si c \<longrightarrow> si_addr si (fst c) (snd c) \<noteq> a)"

definition keeps_rest :: "site \<Rightarrow> world \<Rightarrow> world \<Rightarrow> bool" where
  "keeps_rest si w w' \<longleftrightarrow>
     length (part_data si w') = length (part_data si w) \<and>
     (\<forall>a. off_site si a \<longrightarrow> part_data si w' ! a = part_data si w ! a)"

lemma keeps_rest_same: "os_devs (sys w') (si_path si) = os_devs (sys w) (si_path si) \<Longrightarrow> keeps_rest si w w'"
  by (simp add: keeps_rest_def part_data_def)

lemma write_storage_rest:
  assumes "io_inv w" "site_inv si w" "deref_storage idx w = Inr ps"
    and "idx = si_idx si \<longrightarrow> whole_block si r" "nat (pr_length r) \<le> length bs"
    and "write_storage ps (Some bs) (pr_piece r) (pr_start r) (pr_length r) err (sys w) = Inr (sys w', err')"
  shows "keeps_rest si w w'"
proof (cases "idx = si_idx si")
  case True
  obtain d where d: "storage_on (sys w) (si_ps si) (si_addr si) (si_path si) d"
    using assms(2) by (auto simp: site_inv_def)
  note wb = mp [OF assms(4) True] and fs = site_fs_ok [OF assms(1,2)]
  let ?xs = "block_addrs (si_addr si) (pr_piece r) (pr_start r) (pr_length r)"
  have "os_devs (sys w') (si_path si) = Some (d\<lparr>dev_data := poke ?xs (take (nat (pr_length r)) bs) (dev_data d)\<rparr>)"
    using write_storage_on [OF d whole_block_in_piece [OF wb fs] assms(5), of err] assms(3,6) True
      site_deref [OF assms(1,2)] by auto
  moreover have "a \<notin> set ?xs" if "off_site si a" for a
  proof
    assume "a \<in> set ?xs"
    then obtain i where "i \<in> {nat (pr_start r)..<nat (pr_start r + pr_length r)}" "a = si_addr si (pr_piece r) i"
      by auto
    then show False
      using that covers_cell_ok [OF wb, of "(pr_piece r, i)"] by (auto simp: off_site_def covers_def)
  qed
  moreover have "os_devs (sys w) (si_path si) = Some d"
    using d by (simp add: storage_on_def)
  ultimately show ?thesis
    by (simp add: keeps_rest_def part_data_def nth_poke_other)
next
  case False
  have "(idx, Some ps) \<in> set (storages w)"
    using assms(3) by (auto simp: deref_storage_def split: option.splits dest!: map_of_SomeD)
  then have "os_fds (sys w) (ps_fd ps) \<noteq> Some (si_path si)"
    using assms(2) False by (simp add: site_inv_def)
  then show ?thesis
    using write_storage_other [OF assms(6)] by (intro keeps_rest_same) simp
qed

lemma async_write_rest:
  assumes "io_inv w" "site_inv si w" "allowed (Write mres idx r data ob h) w" "orderly si (Write mres idx r data ob h) w"
    and "async_write mres idx r data ob h w = Inr (e, w')"
  shows "keeps_rest si w w'"
proof -
  obtain res e' m q where a: "allocate_buffer_observed mres False ob (mem w) (write_buffer_pool w) = (res, e', m, q)"
    by (metis prod_cases4)
  show ?thesis
  proof (cases res)
    case None
    obtain ps s err where "deref_storage idx w = Inr ps"
      "write_storage ps (Some data) (pr_piece r) (pr_start r) (pr_length r) storage_error_init (sys w) = Inr (s, err)"
      "sys w' = s"
      using async_write_direct [OF assms(1,3,5) a [unfolded None]] by (auto simp: post_ioc_def)
    then show ?thesis
      using assms(3,4) write_storage_rest [OF assms(1,2), of idx ps r data storage_error_init w' err] by auto
  next
    case (Some buf)
    then show ?thesis
      using async_write_buffered [OF assms(1,3,5) a [unfolded Some]] by (intro keeps_rest_same) auto
  qed
qed

lemma run_write_rest:
  assumes "view_inv si w" "i < length (write_thread_pool w)" "run_write i w = Inr w'"
  shows "keeps_rest si w w'"
proof -
  have inv: "io_inv w" "site_inv si w" "writes_inv si w"
    using assms(1) by (simp_all add: view_inv_def)
  define j where "j = write_thread_pool w ! i"
  show ?thesis
  proof (cases "wj_stage j")
    case Storing
    obtain blk ps s err where "mem w (wj_buf j) = Some blk" "nat (pr_length (wj_req j)) \<le> length blk"
      "deref_storage (wj_storage j) w = Inr ps"
      "write_storage ps (Some blk) (pr_piece (wj_req j)) (pr_start (wj_req j)) (pr_length (wj_req j))
        storage_error_init (sys w) = Inr (s, err)"
      "w' = w\<lparr>sys := s, write_thread_pool := (write_thread_pool w)[i := j\<lparr>wj_stage := Erasing err\<rparr>]\<rparr>"
      by (rule run_write_storing [OF inv(1) assms(2) Storing [unfolded j_def] assms(3) j_def])
    moreover have "wj_storage j = si_idx si \<longrightarrow> whole_block si (wj_req j)"
      using inv(3) assms(2) by (simp add: writes_inv_def j_def)
    ultimately show ?thesis
      by (intro write_storage_rest [OF inv(1,2)]) simp_all
  next
    case (Erasing e)
    then show ?thesis
      using assms(3) by (intro keeps_rest_same) (auto simp: run_write_def Let_def j_def)
  next
    case (Posting e)
    then show ?thesis
      using assms(3) by (intro keeps_rest_same)
        (auto simp: run_write_def Let_def j_def release_write_buffer_def bind_res_iffs post_watermarks_def post_ioc_def)
  qed
qed

lemma client_step_rest:
  assumes "view_inv si w" "client_step api si l w w'"
  shows "keeps_rest si w w'"
proof -
  have inv: "io_inv w" "site_inv si w"
    using assms(1) by (simp_all add: view_inv_def)
  have l: "allowed l w" "orderly si l w" "exec api l w = Inr w'"
    using assms(2) by (simp_all add: client_step_def)
  show ?thesis
  proof (cases "storing_label l")
    case True
    then show ?thesis
    proof (cases l)
      case (NewTorrent path fs fd)
      then obtain idx where "new_torrent path fs fd w = Inr (idx, w')"
        using l(3) by auto
      then show ?thesis
        by (intro keeps_rest_same) (auto simp: new_torrent_def partition_storage_new_def
            partition_storage_delete_def Let_def split: list.splits if_splits)
    next
      case (RemoveTorrent idx)
      then show ?thesis
        using l(3) by (intro keeps_rest_same)
          (auto simp: remove_torrent_def partition_storage_delete_def split: option.splits)
    next
      case (Write mres idx r data ob h)
      then show ?thesis
        using async_write_rest [OF inv, of mres idx r data ob h] l by auto
    next
      case (RunWrite i)
      then show ?thesis
        using run_write_rest [OF assms(1), of i] l by auto
    qed simp_all
  next
    case False
    then show ?thesis
      using exec_quiet [OF inv(1) l(1,3)] by (intro keeps_rest_same) (simp add: quiet_def)
  qed
qed

text \<open>A slice that a write job stores lies within the bytes of the torrent.\<close>

lemma slice_rest:
  assumes "io_inv w" "site_inv si w" "wj_storage j = si_idx si" "whole_block si (wj_req j)"
    and "slices_left w (write_job_range j) (sl # sls, pos)" "partition_offset (ps_fs (si_ps si)) sl = Inr (Inr off)"
    and "length bs = nat (fsl_size sl)" "w' = w\<lparr>sys := pwrite (sys w) (ps_fd (si_ps si)) bs off\<rparr>"
  shows "keeps_rest si w w'"
proof -
  let ?r = "wj_req j"
  obtain d where d: "storage_on (sys w) (si_ps si) (si_addr si) (si_path si) d" "0 \<le> off"
    "pos + nat (fsl_size sl) \<le> nat (pr_length ?r)"
    "\<And>k. k < nat (fsl_size sl) \<Longrightarrow> nat off + k = si_addr si (pr_piece ?r) (nat (pr_start ?r) + pos + k) \<and>
       nat off + k < length (dev_data d)"
    using job_slice_on [OF assms(1-6)] by metis
  have b: "\<forall>k < length bs. nat off + k < length (dev_data d)"
    using d(4) unfolding assms(7) by blast
  have "a \<notin> set [nat off..<nat off + length bs]" if "off_site si a" for a
  proof
    assume "a \<in> set [nat off..<nat off + length bs]"
    then obtain k where k: "a = nat off + k" "k < nat (fsl_size sl)"
      using assms(7) by (auto simp: le_iff_add)
    let ?c = "(pr_piece ?r, nat (pr_start ?r) + pos + k)"
    have "covers ?r ?c"
      using k(2) d(3) assms(4) by (auto simp: covers_def whole_block_def nat_add_distrib)
    then show False
      using that d(4) [OF k(2)] covers_cell_ok [OF assms(4), of ?c] k(1) by (auto simp: off_site_def)
  qed
  moreover have "os_devs (sys w) (si_path si) = Some d"
    using d(1) by (simp add: storage_on_def)
  ultimately show ?thesis
    using slice_pwrite(3) [OF d(1,2) b assms(8)] by (simp add: keeps_rest_def part_data_def nth_poke_other)
qed

lemma store_rest:
  assumes "t_inv si (w, t)" "t_step api si (Store i) (w, t) (w', t')"
  shows "keeps_rest si w w'"
proof -
  have v: "view_inv si w" "xfers_ok w t" and inv: "io_inv w" "site_inv si w"
    using assms(1) by (simp_all add: view_inv_def)
  have st: "i < length (write_thread_pool w)" "store_part i (w, t) = Inr (w', t')"
    using assms(2) by (auto simp: t_step_def map_sum_Inr_iff simp del: store_part.simps)
  define j where "j = write_thread_pool w ! i"
  have j: "j \<in> set (write_thread_pool w)"
    using st(1) by (simp add: j_def)
  from inv(1) v(2) st(1) j_def show ?thesis
  proof (cases rule: store_part_cases)
    case (slice sl sls pos ps off blk)
    let ?bs = "take (nat (fsl_size sl)) (drop pos blk)"
    have w': "w' = w\<lparr>sys := pwrite (sys w) (ps_fd ps) ?bs off\<rparr>"
      using slice(9) st(2) by (simp del: store_part.simps)
    show ?thesis
    proof (cases "wj_storage j = si_idx si")
      case True
      note wb = job_whole [OF v(1) j True]
      have "ps = si_ps si"
        using slice(2) site_deref [OF inv] True by simp
      moreover have "length ?bs = nat (fsl_size sl)"
        using slice(4,6) wb by (auto simp: whole_block_def)
      ultimately show ?thesis
        using slice_rest [OF inv True wb store_xfer_cut [OF inv(1) v(2) j slice(1)], of off ?bs w'] slice(7) w' by simp
    next
      case False
      show ?thesis
        by (rule keeps_rest_same [OF foreign_slice(3) [OF inv(2) slice(2) False w']])
    qed
  qed (use st(2) in \<open>auto intro!: keeps_rest_same simp: stored_def simp del: store_part.simps\<close>)
qed

lemma load_rest:
  assumes "t_inv si (w, t)" "t_step api si (Load i) (w, t) (w', t')"
  shows "keeps_rest si w w'"
proof -
  have inv: "io_inv w" "xfers_ok w t"
    using assms(1) by (simp_all add: view_inv_def)
  have st: "i < length (read_thread_pool w)" "load_part i (w, t) = Inr (w', t')"
    using assms(2) by (auto simp: t_step_def map_sum_Inr_iff simp del: load_part.simps)
  obtain idx piece off len pos0 where rg: "read_job_range (read_thread_pool w ! i) = (idx, piece, off, len, pos0)"
    by (metis prod_cases5)
  from inv st(1) refl rg show ?thesis
    by (cases rule: load_part_cases)
      (use st(2) in \<open>auto intro!: keeps_rest_same simp: answered_def Let_def post_ioc_def simp del: load_part.simps\<close>)
qed

lemma t_run_rest:
  "lruns (t_step api si) st ls st' \<Longrightarrow> t_inv si st \<Longrightarrow> keeps_rest si (fst st) (fst st')"
proof (induction rule: lruns.induct)
  case (more l st st1 ls st')
  obtain w t w1 t1 where st: "st = (w, t)" "st1 = (w1, t1)"
    by (metis prod.exhaust)
  have "keeps_rest si w w1"
  proof (cases l)
    case (Plain k)
    then have "client_step api si k w w1"
      using more.hyps(1) by (auto simp: st t_step_def client_step_def map_sum_Inr_iff)
    then show ?thesis
      using client_step_rest more.prems st by auto
  qed (use more.hyps(1) more.prems st store_rest load_rest in blast)+
  then show ?case
    using more.IH tv.step_inv [OF more.prems more.hyps(1)] by (simp add: keeps_rest_def st)
qed (simp add: keeps_rest_def)

section \<open>Deploying an image\<close>

text \<open>
  The site of an image given by its ranges on the partition, offset and length, in the order of the torrent's
  files, with pieces of \<open>plen\<close> bytes. Position \<open>k\<close> of the image is byte \<open>k mod plen\<close> of piece \<open>k div plen\<close>.
\<close>

definition image_site :: "site \<Rightarrow> (nat \<times> nat) list \<Rightarrow> nat \<Rightarrow> bool" where
  "image_site si files plen \<longleftrightarrow>
     0 < plen \<and> (\<forall>p i. si_addr si p i = cells files ! (nat p * plen + i)) \<and>
     (\<forall>p. piece_size (si_ps si) p = int (min plen (length (cells files) - nat p * plen)))"

definition image_cell :: "nat \<Rightarrow> nat \<Rightarrow> int \<times> nat" where
  "image_cell plen k = (int (k div plen), k mod plen)"

lemma image_cell_ok:
  assumes "image_site si files plen" "k < length (cells files)"
  shows "cell_ok si (image_cell plen k)" "si_addr si (fst (image_cell plen k)) (snd (image_cell plen k)) = cells files ! k"
proof -
  have "k div plen * plen + k mod plen = k" "k mod plen < plen"
    using assms(1) by (simp_all add: image_site_def)
  moreover from this have "k mod plen < length (cells files) - k div plen * plen"
    using assms(2) by linarith
  ultimately show "cell_ok si (image_cell plen k)"
    "si_addr si (fst (image_cell plen k)) (snd (image_cell plen k)) = cells files ! k"
    using assms by (auto simp: image_site_def image_cell_def cell_ok_def)
qed

lemma image_off_site:
  assumes "image_site si files plen" "a \<notin> set (cells files)"
  shows "off_site si a"
  unfolding off_site_def
proof (intro allI impI)
  fix c assume "cell_ok si c"
  then have "nat (fst c) * plen + snd c < length (cells files)"
    using assms(1) by (auto simp: cell_ok_def image_site_def split: if_splits)
  then show "si_addr si (fst c) (snd c) \<noteq> a"
    using assms nth_mem by (fastforce simp: image_site_def)
qed

text \<open>C1: An image is deployed: after a run in which the last write to every byte of the torrent carried the byte
  of the image, whatever was written before, in whatever order the blocks came and wherever the threads were
  interrupted, between two \<open>pwrite\<close> calls of a block included, and once the write jobs are through, the ranges of
  the partition hold the image, and every other byte of the partition is as it was.\<close>

theorem image_is_deployed:
  assumes "t_inv si (w, t)" "image_site si files plen" "lruns (t_step api si) (w, t) ls (w', t')" "write_thread_pool w' = []"
    and "length img = length (cells files)"
    and "\<forall>k < length img. \<forall>b. last_write (t_effect si) (image_cell plen k) ls b = img ! k"
  shows "peek (cells files) (part_data si w') = img \<and>
         length (part_data si w') = length (part_data si w) \<and>
         (\<forall>a. a \<notin> set (cells files) \<longrightarrow> part_data si w' ! a = part_data si w ! a)"
proof (intro conjI allI impI)
  have v: "view_inv si w'"
    using tv.run_inv [OF assms(3,1)] by simp
  have "part_data si w' ! (cells files ! k) = img ! k" if k: "k < length img" for k
  proof -
    note c = image_cell_ok [OF assms(2) k [unfolded assms(5)]]
    obtain d where "os_devs (sys w') (si_path si) = Some d"
      using v by (auto simp: view_inv_def site_inv_def storage_on_def)
    then have "part_data si w' ! (cells files ! k) = disk si w' (image_cell plen k)"
      using c(2) by (simp add: part_data_def disk_def)
    also have "\<dots> = last_write (t_effect si) (image_cell plen k) ls (view si w (image_cell plen k))"
      using tv.run_seen [OF assms(3,1) c(1)] view_is_disk [OF v assms(4)] by simp
    finally show ?thesis
      using assms(6) k by simp
  qed
  then show "peek (cells files) (part_data si w') = img"
    using assms(5) by (intro nth_equalityI) (simp_all add: peek_def)
  note rest = t_run_rest [OF assms(3,1), unfolded fst_conv keeps_rest_def]
  show "part_data si w' ! a = part_data si w ! a" if "a \<notin> set (cells files)" for a
    using rest image_off_site [OF assms(2) that] by blast
  show "length (part_data si w') = length (part_data si w)"
    using rest by blast
qed

theorem image_is_deployed_witness:
  "\<exists>ls w'. lruns (t_step example_hasher example_site) (example_world, Map.empty) ls (w', Map.empty) \<and>
     peek [2, 3, 4, 8, 9, 10, 11] (part_data example_site w') = [1, 2, 3, 4, 5, 6, 7] \<and>
     part_data example_site w' ! 5 = 0"
proof -
  let ?wl = "Plain (Write (Some (9, replicate 16384 0)) 0 example_request [1, 2, 3, 4, 5, 6, 7] None 5)"
  have inv: "t_inv example_site (example_world, Map.empty)"
    using example_view_inv(1) by (simp add: xfers_ok_def prefix_ok_def)
  have s: "t_step example_hasher example_site ?wl (example_world, Map.empty) (example_written, Map.empty)"
    using example_client_step by (simp add: t_step_def client_step_def del: exec.simps allowed.simps orderly.simps)
  obtain ls w' where r: "lruns (t_step example_hasher example_site) (example_written, Map.empty) ls (w', Map.empty)"
    "\<forall>l \<in> set ls. job_label_t l" "quiescent w'"
    using transfers_drain [OF tv.step_inv [OF inv s]] by blast
  note run = lruns.more [OF s r(1)]
  have site: "image_site example_site [(2, 3), (8, 4)] 7"
    by (simp add: image_site_def example_site_def example_addr_def piece_size_def example_storage_def ranges_storage_def)
  have last: "last_write (t_effect example_site) (image_cell 7 k) (?wl # ls) b = [1, 2, 3, 4, 5, 6, 7] ! k"
    if "k < 7" for k b
    using that r(2) job_no_effect
    by (simp add: last_write_none example_site_def covers_def example_request_def image_cell_def)
  have cells: "cells [(2, 3), (8, 4)] = [2, 3, 4, 8, 9, 10, 11]"
    by (simp add: upt_rec numeral_eq_Suc)
  have "peek (cells [(2, 3), (8, 4)]) (part_data example_site w') = [1, 2, 3, 4, 5, 6, 7] \<and>
      part_data example_site w' ! 5 = part_data example_site example_world ! 5"
    using image_is_deployed [OF inv site run, of "[1, 2, 3, 4, 5, 6, 7]"] r(3) last
    by (simp add: cells quiescent_def del: last_write_simps)
  moreover have "part_data example_site example_world ! 5 = 0"
    by (simp add: part_data_def example_site_def example_world_def example_os_def)
  ultimately show ?thesis
    using run cells by (intro exI [of _ "?wl # ls"] exI [of _ w']) simp
qed

end
