(* ===== verification/Regular_Reads.thy ===== *)
theory Regular_Reads
  imports Transfers_View
begin

text \<open>
  Reads that overlap writes. A read job goes to the partition after the call returned, slice by slice, while writes
  to the same bytes may be issued and stored. Each byte of its answer is the one seen when the read was issued or
  one that a write issued since then has written: the reads are regular.
\<close>

section \<open>Bytes a read may return\<close>

definition could_see :: "site \<Rightarrow> (int \<times> nat \<Rightarrow> byte set) \<Rightarrow> tlabel list \<Rightarrow> int \<times> nat \<Rightarrow> byte set" where
  "could_see si V ls c = V c \<union> {b. \<exists>l \<in> set ls. t_effect si l c = Some b}"

lemma could_see_Cons: "could_see si V (l # ls) = could_see si (could_see si V [l]) ls"
  by (auto simp: could_see_def fun_eq_iff)

lemma could_see_step: "b \<in> V c \<Longrightarrow> b \<in> could_see si V ls c" "t_effect si l c = Some b \<Longrightarrow> b \<in> could_see si V [l] c"
  by (auto simp: could_see_def)

text \<open>
  A read job under way: what is still to be read from the partition and what is in its buffer may be seen. The job
  has still to read position \<open>k\<close> of its buffer if it is in its range and the transfer has not come so far.
\<close>

definition still_reads :: "read_job \<Rightarrow> transfers \<Rightarrow> nat \<Rightarrow> bool" where
  "still_reads j t k \<longleftrightarrow>
     (case read_job_range j of (idx, piece, off, len, pos0) \<Rightarrow>
        pos0 \<le> k \<and> k < pos0 + nat len \<and> (case t (read_job_buf j) of None \<Rightarrow> True | Some (sls, pos) \<Rightarrow> pos \<le> k))"

definition will_read :: "site \<Rightarrow> peer_request \<Rightarrow> read_job \<Rightarrow> world \<Rightarrow> transfers \<Rightarrow> bytes \<Rightarrow> nat \<Rightarrow> byte" where
  "will_read si r j w t blk k = (if still_reads j t k then disk si w (nth_cell r k) else blk ! k)"

definition rd_regular :: "site \<Rightarrow> (int \<times> nat \<Rightarrow> byte set) \<Rightarrow> peer_request \<Rightarrow> read_job \<Rightarrow> tworld \<Rightarrow> bool" where
  "rd_regular si V r j st \<longleftrightarrow>
     (\<exists>off len pos blk. read_job_range j = (si_idx si, pr_piece r, off, len, pos) \<and> off = pr_start r + int pos \<and>
        0 \<le> len \<and> int pos + len \<le> pr_length r \<and> mem (fst st) (read_job_buf j) = Some blk \<and> length blk = 16384 \<and>
        (\<forall>k < nat (pr_length r). will_read si r j (fst st) (snd st) blk k \<in> V (nth_cell r k)))"

definition all_seen :: "site \<Rightarrow> (int \<times> nat \<Rightarrow> byte set) \<Rightarrow> peer_request \<Rightarrow> world \<Rightarrow> bool" where
  "all_seen si V r w \<longleftrightarrow> (\<forall>k < nat (pr_length r). view si w (nth_cell r k) \<in> V (nth_cell r k))"

lemma all_seen_step:
  assumes "t_inv si (w, t)" "t_step api si l (w, t) (w', t')" "request_ok si r" "all_seen si V r w"
  shows "all_seen si (could_see si V [l]) r w'"
  unfolding all_seen_def
proof (intro allI impI)
  fix k assume k: "k < nat (pr_length r)"
  note c = nth_cell_ok [OF assms(3) k]
  show "view si w' (nth_cell r k) \<in> could_see si V [l] (nth_cell r k)"
    using tv.step_seen [OF assms(1,2) c] assms(4) k
    by (cases "t_effect si l (nth_cell r k)") (auto simp: all_seen_def could_see_def)
qed

text \<open>A step that leaves the job and its buffer alone.\<close>

lemma rd_regular_frame:
  assumes "t_inv si (w, t)" "t_step api si l (w, t) (w', t')" "request_ok si r" "all_seen si V r w"
    and "rd_regular si V r j (w, t)" "mem w' (read_job_buf j) = mem w (read_job_buf j)" "t' (read_job_buf j) = t (read_job_buf j)"
  shows "rd_regular si (could_see si V [l]) r j (w', t')"
proof -
  have same: "still_reads j t' k = still_reads j t k" for k
    using assms(7) by (simp add: still_reads_def)
  have "disk si w' (nth_cell r k) \<in> could_see si V [l] (nth_cell r k)"
    if k: "k < nat (pr_length r)" "disk si w (nth_cell r k) \<in> V (nth_cell r k)" for k
    using t_disk_moves [OF assms(1,2) nth_cell_ok [OF assms(3) k(1)]] k assms(4)
    by (auto simp: all_seen_def could_see_def)
  then have "will_read si r j w' t' blk k \<in> could_see si V [l] (nth_cell r k)"
    if "k < nat (pr_length r)" "will_read si r j w t blk k \<in> V (nth_cell r k)" for k blk
    using that same could_see_step(1) by (cases "still_reads j t k") (auto simp: will_read_def)
  then show ?thesis
    using assms(5,6) unfolding rd_regular_def fst_conv snd_conv by metis
qed

text \<open>A job that was just posted.\<close>

lemma rd_good_regular:
  assumes "rd_good si w r j" "all_seen si V r w" "t (read_job_buf j) = None"
  shows "rd_regular si V r j (w, t)"
proof -
  obtain off len pos blk where g: "read_job_range j = (si_idx si, pr_piece r, off, len, pos)" "off = pr_start r + int pos"
      "0 \<le> len" "int pos + len \<le> pr_length r" "mem w (read_job_buf j) = Some blk" "length blk = 16384"
    and b: "\<forall>k < nat (pr_length r).
        if pos \<le> k \<and> k < pos + nat len then lookup_block (store_buf w) (cell_loc si (nth_cell r k)) = None
        else blk ! k = view si w (nth_cell r k)"
    using assms(1) unfolding rd_good_def by blast
  have "will_read si r j w t blk k \<in> V (nth_cell r k)" if "k < nat (pr_length r)" for k
    using b [rule_format, OF that] assms(2,3) that g(1) by (auto simp: will_read_def still_reads_def all_seen_def view_def split: if_splits)
  then show ?thesis
    unfolding rd_regular_def fst_conv snd_conv using g by blast
qed

section \<open>The rounds of the read job itself\<close>

lemma range_in_piece:
  assumes "io_inv w" "site_inv si w" "request_ok si r" "off = pr_start r + int pos" "0 \<le> len" "int pos + len \<le> pr_length r"
  shows "in_piece (si_ps si) (pr_piece r) off len"
proof -
  have "fs_piece_size (ps_fs (si_ps si)) (pr_piece r) < 2147467264"
    using site_fs_ok [OF assms(1,2)] by (simp add: fs_ok_def)
  then show ?thesis
    using assms(3-6) by (auto simp: in_piece_def request_ok_def read_valid_def piece_size_def)
qed

text \<open>A slice read from the partition: the bytes that are there, each in its place.\<close>

lemma load_slice_bytes:
  assumes "t_inv si (w, t)" "request_ok si r" "j \<in> set (read_thread_pool w)"
    and "read_job_range j = (si_idx si, pr_piece r, off, len, pos0)" "off = pr_start r + int pos0" "0 \<le> len"
    and "int pos0 + len \<le> pr_length r" "t (read_job_buf j) = Some (sl # sls, pos)" "deref_storage (si_idx si) w = Inr ps"
  shows "\<exists>p. partition_offset (ps_fs ps) sl = Inr (Inr p) \<and>
    (let bs = pread (sys w) (ps_fd ps) (nat (fsl_size sl)) p
     in length bs = nat (fsl_size sl) \<and> (\<forall>m < nat (fsl_size sl). bs ! m = disk si w (nth_cell r (pos + m))))"
proof -
  have v: "xfers_ok w t" and inv: "io_inv w" "site_inv si w"
    using assms(1) by (simp_all add: view_inv_def)
  obtain d where d: "storage_on (sys w) (si_ps si) (si_addr si) (si_path si) d"
    using inv(2) by (auto simp: site_inv_def)
  have ps: "ps = si_ps si"
    using assms(9) site_deref [OF inv] by simp
  obtain xs where xs: "fs_map_block (ps_fs (si_ps si)) (pr_piece r) off len = xs @ sl # sls" "pos = pos0 + slices_len xs"
    using load_xfer_cut [OF inv(1) v assms(3,8)] assms(4,9) ps by (auto simp: slices_left_def)
  let ?n = "nat (fsl_size sl)"
  obtain p where p: "partition_offset (ps_fs (si_ps si)) sl = Inr (Inr p)" "0 \<le> p"
    "\<And>k. k < ?n \<Longrightarrow> nat p + k = si_addr si (pr_piece r) (nat off + slices_len xs + k) \<and> nat p + k < length (dev_data d)"
    using next_slice_on [OF d range_in_piece [OF inv assms(2,5-7)] xs(1)] by metis
  have dev: "device_of (sys w) (ps_fd ps) = Some d" "dev_full d" "os_devs (sys w) (si_path si) = Some d"
    using d by (simp_all add: storage_on_def device_of_def ps)
  have "x < length (dev_data d)" if "x \<in> set [nat p..<nat p + ?n]" for x
    using p(3) [of "x - nat p"] that by auto
  then have rd: "pread (sys w) (ps_fd ps) ?n p = peek [nat p..<nat p + ?n] (dev_data d)"
    by (intro pread_full [OF dev(1,2) p(2)]) blast
  have "nat off = nat (pr_start r) + pos0"
    using assms(2,5) by (simp add: request_ok_def read_valid_def nat_add_distrib)
  then have "dev_data d ! (nat p + m) = disk si w (nth_cell r (pos + m))" if "m < ?n" for m
    using p(3) [OF that] dev(3) xs(2) by (simp add: disk_def nth_cell_def add.assoc)
  then show ?thesis
    using p(1) rd ps by (intro exI [of _ p]) (simp add: Let_def peek_def)
qed

text \<open>The last round of a read job.\<close>

lemma finished_reading:
  assumes "t_inv si (w, t)" "request_ok si r" "j \<in> set (read_thread_pool w)"
    and "read_job_range j = (si_idx si, pr_piece r, off, len, pos0)" "off = pr_start r + int pos0" "0 \<le> len"
    and "int pos0 + len \<le> pr_length r" "t (read_job_buf j) = Some ([], pos)"
  shows "\<not> still_reads j t k"
proof -
  have v: "xfers_ok w t" and inv: "io_inv w" "site_inv si w"
    using assms(1) by (simp_all add: view_inv_def)
  obtain d where d: "storage_on (sys w) (si_ps si) (si_addr si) (si_path si) d"
    using inv(2) by (auto simp: site_inv_def)
  note xs = storage_on_addrs [OF d range_in_piece [OF inv assms(2,5-7)]]
  have "pos = pos0 + nat len"
    using load_xfer_cut [OF inv(1) v assms(3,8)] slice_addrs_ok [OF xs(1)] xs(3) site_deref [OF inv] assms(4)
    by (auto simp: slices_left_def)
  then show ?thesis
    using assms(4,8) by (simp add: still_reads_def)
qed

lemma slice_regular:
  assumes "rd_regular si V r j (w, t)" "read_job_range j = (si_idx si, pr_piece r, off, len, pos0)"
    and "t (read_job_buf j) = Some (sl # sls, pos)" "mem w (read_job_buf j) = Some blk" "pos0 \<le> pos" "pos + n \<le> pos0 + nat len"
    and "pos + n \<le> 16384" "request_ok si r" "length bs = n" "\<And>m. m < n \<Longrightarrow> bs ! m = disk si w (nth_cell r (pos + m))"
  shows "rd_regular si V r j (w\<lparr>mem := (mem w)(read_job_buf j \<mapsto> blit pos bs blk)\<rparr>, t(read_job_buf j \<mapsto> (sls, pos + n)))"
proof -
  let ?t = "t(read_job_buf j \<mapsto> (sls, pos + n))"
  have g: "off = pr_start r + int pos0" "0 \<le> len" "int pos0 + len \<le> pr_length r" "length blk = 16384"
    and b: "\<And>k. k < nat (pr_length r) \<Longrightarrow> will_read si r j w t blk k \<in> V (nth_cell r k)"
    using assms(1,2,4) unfolding rd_regular_def by auto
  let ?w = "w\<lparr>mem := (mem w)(read_job_buf j \<mapsto> blit pos bs blk)\<rparr>"
  have "disk si ?w = disk si w"
    by (rule disk_cong) simp
  then have "will_read si r j ?w ?t (blit pos bs blk) k \<in> V (nth_cell r k)"
    if k: "k < nat (pr_length r)" for k
  proof -
    have "k < 16384"
      using k assms(8) by (auto simp: request_ok_def read_valid_def)
    note blit = nth_blit [of pos bs blk k, unfolded assms(9) g(4), OF assms(7) this]
    consider "pos + n \<le> k" "still_reads j ?t k = still_reads j t k" | "pos \<le> k" "k < pos + n" "still_reads j t k" "\<not> still_reads j ?t k"
      | "k < pos" "\<not> still_reads j t k" "\<not> still_reads j ?t k"
      using assms(2,3,5,6) by (cases "k < pos"; cases "k < pos + n") (auto simp: still_reads_def)
    then show ?thesis
    proof cases
      case 2
      then have "blit pos bs blk ! k = disk si w (nth_cell r k)"
        using assms(10) [of "k - pos"] blit by simp
      then show ?thesis using 2 b [OF k] by (simp add: will_read_def)
    qed (use b [OF k] blit \<open>disk si ?w = disk si w\<close> in \<open>simp_all add: will_read_def split: if_splits\<close>)
  qed
  moreover have "length (blit pos bs blk) = 16384"
    using assms(7,9) g(4) by simp
  ultimately show ?thesis
    unfolding rd_regular_def fst_conv snd_conv using assms(2) g by auto
qed

lemma load_regular:
  assumes "t_inv si (w, t)" "request_ok si r" "rd_regular si V r j (w, t)" "i < length (read_thread_pool w)"
    and "j = read_thread_pool w ! i" "load_part i (w, t) = Inr (w', t')"
  shows "rd_regular si V r j (w', t') \<and> j \<in> set (read_thread_pool w') \<or>
    (\<forall>k. \<not> still_reads j t k) \<and> j \<notin> set (read_thread_pool w') \<and> mem w' = mem w \<and>
    ioc w' = ioc w @ [Complete (ReadDone (read_job_handler j) (Some (read_job_buf j)) storage_error_init)]"
proof -
  have v: "xfers_ok w t" and io: "io_inv w"
    using assms(1) by (simp_all add: view_inv_def)
  have j: "j \<in> set (read_thread_pool w)"
    using assms(4,5) by simp
  obtain off len pos0 where g: "read_job_range j = (si_idx si, pr_piece r, off, len, pos0)" "off = pr_start r + int pos0"
      "0 \<le> len" "int pos0 + len \<le> pr_length r"
    using assms(3) unfolding rd_regular_def by blast
  from io v assms(4,5) g(1) show ?thesis
  proof (cases rule: load_part_cases)
    case (start ps)
    then have "w' = w" "still_reads j t' = still_reads j t"
      using assms(6) g(1) by (auto simp: still_reads_def fun_eq_iff simp del: load_part.simps)
    then show ?thesis
      using assms(3) j unfolding rd_regular_def fst_conv snd_conv by (simp add: will_read_def [abs_def])
  next
    case (finish pos)
    then have w': "w' = answered i storage_error_init w"
      using assms(6) by simp
    have "j \<notin> set (remove_at i (read_thread_pool w))"
      using remove_at_distinct [OF assms(4), of read_job_buf j] bufs_distinct(1) [OF io] assms(5) by auto
    then show ?thesis
      using finished_reading [OF assms(1,2) j g finish(1)]
      by (simp add: w' answered_def Let_def post_ioc_def assms(5) [symmetric])
  next
    case (failed sl sls pos ps e err)
    then show ?thesis
      using load_slice_bytes [OF assms(1,2) j g failed(1,2)] by simp
  next
    case (slice sl sls pos ps p bs blk)
    have "length bs = nat (fsl_size sl)" "\<And>m. m < nat (fsl_size sl) \<Longrightarrow> bs ! m = disk si w (nth_cell r (pos + m))"
      using load_slice_bytes [OF assms(1,2) j g slice(1,2)] slice(9,10) by (auto simp: Let_def)
    from slice_regular [OF assms(3) g(1) slice(1,3,6,7) _ assms(2) this] show ?thesis
      using slice(7,8,13) assms(6) j by (simp del: load_part.simps)
  qed
qed

section \<open>Tracking a read along a run\<close>

lemma rd_regular_mono: "rd_regular si V r j st \<Longrightarrow> (\<And>c. V c \<subseteq> V' c) \<Longrightarrow> rd_regular si V' r j st"
  unfolding rd_regular_def by blast

lemma store_part_keeps:
  assumes "io_inv w" "xfers_ok w t" "i < length (write_thread_pool w)" "store_part i (w, t) = Inr (w', t')"
  shows "mem w' = mem w \<and> read_thread_pool w' = read_thread_pool w \<and> (\<forall>b. b \<noteq> wj_buf (write_thread_pool w ! i) \<longrightarrow> t' b = t b)"
  using assms(1-3) refl
  by (cases rule: store_part_cases) (use assms(4) in \<open>auto simp: stored_def simp del: store_part.simps\<close>)

lemma load_part_keeps:
  assumes "io_inv w" "xfers_ok w t" "i < length (read_thread_pool w)" "load_part i (w, t) = Inr (w', t')"
  shows "set (read_thread_pool w') \<subseteq> set (read_thread_pool w) \<and>
    (\<forall>b. b \<noteq> read_job_buf (read_thread_pool w ! i) \<longrightarrow> mem w' b = mem w b \<and> t' b = t b)"
proof -
  obtain idx piece off len pos0 where rg: "read_job_range (read_thread_pool w ! i) = (idx, piece, off, len, pos0)"
    by (metis prod_cases5)
  from assms(1-3) refl rg show ?thesis
    by (cases rule: load_part_cases)
      (use assms(4) set_remove_at [of i "read_thread_pool w"] in \<open>auto simp: answered_def Let_def post_ioc_def simp del: load_part.simps\<close>)
qed

text \<open>The buffer of a job that was just posted has no transfer yet.\<close>

lemma new_job_no_transfer:
  assumes "io_inv w" "xfers_ok w t" "allowed (Read mres idx r h) w" "allocate_buffer mres (mem w) (read_buffer_pool w) = (Some buf, m, p)"
  shows "t buf = None"
proof (rule ccontr)
  assume "t buf \<noteq> None"
  then obtain x where "xfer_of w buf x"
    using assms(2) unfolding xfers_ok_def by blast
  then have "buf \<in> set (read_bufs w) \<union> set (write_bufs w)"
    by (auto simp: xfer_of_def read_bufs_def write_bufs_def)
  then have "mem w buf \<noteq> None"
    using ledger_live assms(1) unfolding io_inv_def mem_inv_ledger by blast
  then show False
    using assms(3,4) by (auto simp: malloc_ok_def allocate_buffer_def allocate_buffer_impl_def Let_def split: if_splits option.splits)
qed

lemma regular_plain:
  assumes "t_inv si (w, t)" "t_step api si (Plain k) (w, t) (w', t')" "request_ok si r" "all_seen si V r w"
    and "read_job_req j = (si_idx si, r)" "j \<in> set (read_thread_pool w) \<Longrightarrow> rd_regular si V r j (w, t)"
    and "j \<in> set (read_thread_pool w')"
  shows "rd_regular si (could_see si V [Plain k]) r j (w', t')"
proof -
  have v: "view_inv si w" "xfers_ok w t" and io: "io_inv w"
    using assms(1) by (simp_all add: view_inv_def)
  have k: "allowed k w" "exec api k w = Inr w'" and t': "t' = t"
    using assms(2) by (auto simp: t_step_def map_sum_Inr_iff)
  from io k assms(7) show ?thesis
  proof (cases rule: read_job_origin)
    case old
    then show ?thesis
      using rd_regular_frame [OF assms(1-4) assms(6)] exec_touch [OF io k old(2)] t' by blast
  next
    case (new mres idx r' h buf m p)
    then have r: "idx = si_idx si" "r' = r" "read_job_buf j = buf"
      using read_next_req [OF new(3)] assms(5) by simp_all
    then have "rd_good si w' r j"
      using async_read_seen [OF v(1) _ assms(3) new(4), of h w'] k(1) new by simp
    moreover have "t buf = None"
      using new_job_no_transfer [OF io v(2) _ new(4), of idx r' h] k(1) new(1) by simp
    ultimately show ?thesis
      using rd_good_regular [OF _ all_seen_step [OF assms(1-4)]] t' r(3) by simp
  qed
qed

lemma regular_own_round:
  assumes "t_inv si (w, t)" "request_ok si r" "j \<in> set (read_thread_pool w) \<Longrightarrow> rd_regular si V r j (w, t)"
    and "i < length (read_thread_pool w)" "load_part i (w, t) = Inr (w', t')" "j \<in> set (read_thread_pool w')"
    and "read_job_buf j = read_job_buf (read_thread_pool w ! i)"
  shows "rd_regular si V r j (w', t')"
proof -
  have io: "io_inv w" and x: "xfers_ok w t"
    using assms(1) by (simp_all add: view_inv_def)
  have "j = read_thread_pool w ! i"
    using load_part_keeps [OF io x assms(4,5)] jobs_by_buf(2) [OF io _ _ assms(7)] assms(4,6) by auto
  then show ?thesis
    using load_regular [OF assms(1,2) assms(3) assms(4) _ assms(5)] assms(4,6) by simp
qed

lemma regular_step:
  assumes "t_inv si (w, t)" "t_step api si l (w, t) (w', t')" "request_ok si r" "all_seen si V r w"
    and "read_job_req j = (si_idx si, r)" "j \<in> set (read_thread_pool w) \<Longrightarrow> rd_regular si V r j (w, t)"
    and "j \<in> set (read_thread_pool w')"
  shows "rd_regular si (could_see si V [l]) r j (w', t')"
proof -
  have v: "xfers_ok w t" and io: "io_inv w"
    using assms(1) by (simp_all add: view_inv_def)
  note frame = rd_regular_frame [OF assms(1-4) assms(6)]
  show ?thesis
  proof (cases l)
    case (Plain k)
    then show ?thesis
      using regular_plain assms by blast
  next
    case (Store i)
    then have st: "i < length (write_thread_pool w)" "store_part i (w, t) = Inr (w', t')"
      using assms(2) by (auto simp: t_step_def map_sum_Inr_iff simp del: store_part.simps)
    note keep = store_part_keeps [OF io v st]
    have j: "j \<in> set (read_thread_pool w)"
      using assms(7) keep by simp
    then have "read_job_buf j \<noteq> wj_buf (write_thread_pool w ! i)"
      using jobs_by_buf(3) [OF io _ j, of "write_thread_pool w ! i"] st(1) by simp
    then show ?thesis
      using frame [OF j] keep by simp
  next
    case (Load i)
    then have ld: "i < length (read_thread_pool w)" "load_part i (w, t) = Inr (w', t')"
      using assms(2) by (auto simp: t_step_def map_sum_Inr_iff simp del: load_part.simps)
    show ?thesis
    proof (cases "read_job_buf j = read_job_buf (read_thread_pool w ! i)")
      case True
      show ?thesis
        by (rule rd_regular_mono [OF regular_own_round [OF assms(1,3,6) ld assms(7) True]]) (auto simp: could_see_def)
    next
      case False
      then show ?thesis
        using frame load_part_keeps [OF io v ld] assms(7) by blast
    qed
  qed
qed

lemma regular_run:
  assumes "lruns (t_step api si) st ls st'" "t_inv si st" "request_ok si r" "all_seen si V r (fst st)"
    and "read_job_req j = (si_idx si, r)" "j \<in> set (read_thread_pool (fst st)) \<Longrightarrow> rd_regular si V r j st"
    and "j \<in> set (read_thread_pool (fst st'))"
  shows "rd_regular si (could_see si V ls) r j st'"
  using assms
proof (induction arbitrary: V rule: lruns.induct)
  case (none st)
  then show ?case by (simp add: could_see_def)
next
  case (more l st st1 ls st')
  obtain w t w1 t1 where st: "st = (w, t)" "st1 = (w1, t1)"
    by (metis prod.exhaust)
  have "t_inv si st1"
    by (rule tv.step_inv [OF more.prems(1) more.hyps(1)])
  moreover have "all_seen si (could_see si V [l]) r (fst st1)"
    using all_seen_step more.prems(1-3) more.hyps(1) unfolding st by simp
  moreover have "rd_regular si (could_see si V [l]) r j st1" if "j \<in> set (read_thread_pool (fst st1))"
    using regular_step [of si w t api l w1 t1 r V j] more.prems more.hyps(1) that unfolding st by simp
  ultimately show ?case
    using more.IH [of "could_see si V [l]"] more.prems(2,4,6) could_see_Cons by metis
qed

section \<open>Property of the disk back end: overlapping reads\<close>

text \<open>C4: Reads are regular. A read that cannot be answered from the store buffer goes to the partition slice by slice
  while other calls and jobs run, writes to the same bytes among them. When its job is done it answers without error,
  and each byte of the answer is the one seen when the read was issued or one that a write issued since then wrote.\<close>

theorem reads_are_regular:
  assumes "t_inv si (w, t)" "allowed (Read mres (si_idx si) r h) w" "request_ok si r"
    and "allocate_buffer mres (mem w) (read_buffer_pool w) = (Some buf, m, p)"
    and "async_read mres (si_idx si) r h w = Inr w1" "read_next (si_idx si) r buf h w = Some j"
    and "lruns (t_step api si) (w1, t) ls (w2, t2)" "i < length (read_thread_pool w2)" "read_thread_pool w2 ! i = j"
    and "exec_t api (Load i) (w2, t2) = Inr (w3, t3)" "j \<notin> set (read_thread_pool w3)"
  shows "ioc w3 = ioc w2 @ [Complete (ReadDone h (Some buf) storage_error_init)] \<and>
    (\<exists>blk. mem w3 buf = Some blk \<and>
       (\<forall>k < nat (pr_length r). blk ! k = view si w (nth_cell r k) \<or>
          (\<exists>l \<in> set ls. t_effect si l (nth_cell r k) = Some (blk ! k))))"
proof -
  have v: "view_inv si w" "xfers_ok w t" and io: "io_inv w"
    using assms(1) by (simp_all add: view_inv_def)
  have req: "read_job_req j = (si_idx si, r)" "read_job_handler j = h" "read_job_buf j = buf"
    using read_next_req [OF assms(6)] by simp_all
  let ?l = "Plain (Read mres (si_idx si) r h)" and ?V = "\<lambda>c. {view si w c}"
  have s1: "t_step api si ?l (w, t) (w1, t)"
    using assms(2,5) by (simp add: t_step_def lift_ub_def)
  have "all_seen si ?V r w"
    by (simp add: all_seen_def)
  then have seen: "all_seen si ?V r w1"
    using tv.step_seen [OF assms(1) s1 nth_cell_ok [OF assms(3)]] by (simp add: all_seen_def)
  have "rd_good si w1 r j"
    using async_read_seen [OF v(1) assms(2-5)] assms(6) by simp
  then have "rd_regular si ?V r j (w1, t)"
    using rd_good_regular [OF _ seen] new_job_no_transfer [OF io v(2) assms(2,4)] req(3) by simp
  then have reg: "rd_regular si (could_see si ?V ls) r j (w2, t2)"
    using regular_run [OF assms(7) tv.step_inv [OF assms(1) s1] assms(3) _ req(1)] seen assms(8,9) by auto
  have "load_part i (w2, t2) = Inr (w3, t3)"
    using assms(10) by (auto simp: map_sum_Inr_iff simp del: load_part.simps)
  from load_regular [OF tv.run_inv [OF assms(7) tv.step_inv [OF assms(1) s1]] assms(3) reg assms(8) assms(9) [symmetric] this]
  have fin: "\<And>k. \<not> still_reads j t2 k" "mem w3 = mem w2"
      "ioc w3 = ioc w2 @ [Complete (ReadDone h (Some buf) storage_error_init)]"
    using assms(11) req(2,3) by simp_all
  obtain blk where blk: "mem w2 buf = Some blk"
    "\<forall>k < nat (pr_length r). will_read si r j w2 t2 blk k \<in> could_see si ?V ls (nth_cell r k)"
    using reg req(3) unfolding rd_regular_def by auto
  then show ?thesis
    using fin by (auto simp: will_read_def could_see_def)
qed

text \<open>A read of the seven bytes of the example, during which they are written.\<close>

abbreviation example_read :: read_job where
  "example_read \<equiv> ReadWhole 0 example_request 11 8"

abbreviation example_slices :: "file_slice list" where
  "example_slices \<equiv> [\<lparr>fsl_file_index = 0, fsl_offset = 0, fsl_size = 3\<rparr>, \<lparr>fsl_file_index = 1, fsl_offset = 0, fsl_size = 4\<rparr>]"

definition example_reading :: "world \<Rightarrow> bool" where
  "example_reading w \<longleftrightarrow>
     read_thread_pool w = [example_read] \<and> deref_storage 0 w = Inr (example_storage\<lparr>ps_fd := 4\<rparr>) \<and>
     (\<exists>blk. mem w 11 = Some blk \<and> length blk = 16384)"

lemma example_load_start:
  assumes "example_reading w"
  shows "t_step example_hasher example_site (Load 0) (w, Map.empty) (w, [11 \<mapsto> (example_slices, 0)])"
  using assms
  by (simp add: example_reading_def t_step_def pool_threads_def example_request_def example_storage_def ranges_storage_def)

lemma example_load_slice:
  assumes "example_reading w" "sl \<in> set example_slices" "pos + nat (fsl_size sl) \<le> 7"
  shows "\<exists>blk. t_step example_hasher example_site (Load 0) (w, [11 \<mapsto> (sl # sls, pos)])
     (w\<lparr>mem := (mem w)(11 \<mapsto> blk)\<rparr>, [11 \<mapsto> (sls, pos + nat (fsl_size sl))]) \<and> example_reading (w\<lparr>mem := (mem w)(11 \<mapsto> blk)\<rparr>)"
proof -
  obtain blk where blk: "mem w 11 = Some blk" "length blk = 16384"
    using assms(1) by (auto simp: example_reading_def)
  obtain p where p: "partition_offset (ps_fs (example_storage\<lparr>ps_fd := 4\<rparr>)) sl = Inr (Inr p)"
    using assms(2) by (auto simp: partition_offset_def example_storage_def ranges_storage_def stoll16_to_hex wrap_simps)
  let ?bs = "pread (sys w) 4 (nat (fsl_size sl)) p"
  have n: "size_t (fsl_size sl) = nat (fsl_size sl)"
    using assms(2) by (auto simp: wrap_simps)
  have l: "pos + length ?bs \<le> length blk"
    using length_pread [of "sys w" 4 "nat (fsl_size sl)" p] assms(3) blk(2) by simp
  then have "load_slice (example_storage\<lparr>ps_fd := 4\<rparr>) (sys w) sl 11 pos (mem w) = Inr (Inr ((mem w)(11 \<mapsto> blit pos ?bs blk)))"
    using p n heap_store_ok [of "mem w" 11 blk pos ?bs] blk(1) l by (simp add: load_slice_def)
  then have "t_step example_hasher example_site (Load 0) (w, [11 \<mapsto> (sl # sls, pos)])
     (w\<lparr>mem := (mem w)(11 \<mapsto> blit pos ?bs blk)\<rparr>, [11 \<mapsto> (sls, pos + nat (fsl_size sl))])"
    using assms(1) by (simp add: example_reading_def t_step_def pool_threads_def)
  moreover have "example_reading (w\<lparr>mem := (mem w)(11 \<mapsto> blit pos ?bs blk)\<rparr>)"
    using assms(1) l blk(2) by (simp add: example_reading_def deref_storage_def)
  ultimately show ?thesis by blast
qed

lemma example_overlap:
  "\<exists>w1 w2. async_read (Some (11, replicate 16384 0)) 0 example_request 8 example_world = Inr w1 \<and>
     lruns (t_step example_hasher example_site) (w1, Map.empty)
       [Load 0, Load 0, Plain (Write (Some (9, replicate 16384 0)) 0 example_request [1, 2, 3, 4, 5, 6, 7] None 5), Load 0]
       (w2, [11 \<mapsto> ([], 7)]) \<and> example_reading w2"
proof -
  let ?m = "Some (11, replicate 16384 0) :: (addr \<times> bytes) option"
  let ?l = "Write (Some (9, replicate 16384 0)) 0 example_request [1, 2, 3, 4, 5, 6, 7] None 5"
  obtain p where al: "allocate_buffer ?m (mem example_world) (read_buffer_pool example_world) =
      (Some 11, (mem example_world)(11 \<mapsto> replicate 16384 0), p)"
    by (simp add: allocate_buffer_def allocate_buffer_impl_def example_world_def raw_disk_io_new_def buffer_pool_init_def pool_simps)
  let ?w1 = "example_world\<lparr>read_buffer_pool := p, mem := [11 \<mapsto> replicate 16384 0], read_thread_pool := [example_read]\<rparr>"
  have r1: "async_read ?m 0 example_request 8 example_world = Inr ?w1"
    using al by (simp add: async_read_def example_request_def DEFAULT_BLOCK_SIZE_def get_def example_world_def raw_disk_io_new_def
        store_buffer_init_def post_read_def Let_def wrap_simps)
  have e1: "example_reading ?w1"
    by (simp add: example_reading_def deref_storage_def example_world_def)
  obtain blk where b: "t_step example_hasher example_site (Load 0) (?w1, [11 \<mapsto> (example_slices, 0)])
      (?w1\<lparr>mem := (mem ?w1)(11 \<mapsto> blk)\<rparr>, [11 \<mapsto> (tl example_slices, 3)])" "example_reading (?w1\<lparr>mem := (mem ?w1)(11 \<mapsto> blk)\<rparr>)"
    using example_load_slice [OF e1, of "hd example_slices" 0 "tl example_slices"] by auto
  let ?w2 = "?w1\<lparr>mem := (mem ?w1)(11 \<mapsto> blk)\<rparr>"
  let ?w3 = "?w2\<lparr>mem := (mem ?w2)(9 \<mapsto> blit 0 [1, 2, 3, 4, 5, 6, 7] (replicate 16384 0)),
      write_buffer_pool := write_buffer_pool example_written, store_buf := store_buf example_written,
      write_thread_pool := write_thread_pool example_written\<rparr>"
  have "exec example_hasher ?l ?w2 = Inr ?w3"
    by (simp add: async_write_def allocate_buffer_observed_def allocate_buffer_impl_def example_world_def example_written_def
        raw_disk_io_new_def buffer_pool_init_def pool_simps DEFAULT_BLOCK_SIZE_def lift_ub_def example_request_def wrap_simps
        heap_simps Let_def insert_block_def store_buffer_init_def)
  moreover have "allowed ?l ?w2" "orderly example_site ?l ?w2"
    using example_client_step by (simp_all add: client_step_def malloc_ok_def example_world_def raw_disk_io_new_def)
  ultimately have s3: "t_step example_hasher example_site (Plain ?l) (?w2, t) (?w3, t)" for t
    by (simp add: t_step_def del: exec.simps allowed.simps orderly.simps)
  have e3: "example_reading ?w3"
    using b(2) by (simp add: example_reading_def deref_storage_def)
  obtain blk' where "t_step example_hasher example_site (Load 0) (?w3, [11 \<mapsto> (tl example_slices, 3)])
      (?w3\<lparr>mem := (mem ?w3)(11 \<mapsto> blk')\<rparr>, [11 \<mapsto> ([], 7)])" "example_reading (?w3\<lparr>mem := (mem ?w3)(11 \<mapsto> blk')\<rparr>)"
    using example_load_slice [OF e3, of "last example_slices" 3 "[]"] by auto
  then show ?thesis
    using r1 b(1) example_load_start [OF e1] s3 by (blast intro: lruns.intros)
qed

theorem reads_are_regular_witness:
  "\<exists>w2 t2 w3 t3 blk. exec_t example_hasher (Load 0) (w2, t2) = Inr (w3, t3) \<and>
     ioc w3 = ioc w2 @ [Complete (ReadDone 8 (Some 11) storage_error_init)] \<and> mem w3 11 = Some blk \<and>
     (blk ! 5 = 0 \<or> blk ! 5 = 6)"
proof -
  let ?m = "Some (11, replicate 16384 0) :: (addr \<times> bytes) option"
  obtain w1 w2 where r: "async_read ?m 0 example_request 8 example_world = Inr w1" "example_reading w2"
    "lruns (t_step example_hasher example_site) (w1, Map.empty)
       [Load 0, Load 0, Plain (Write (Some (9, replicate 16384 0)) 0 example_request [1, 2, 3, 4, 5, 6, 7] None 5), Load 0]
       (w2, [11 \<mapsto> ([], 7)])"
    using example_overlap by blast
  have inv: "t_inv example_site (example_world, Map.empty)"
    using example_view_inv(1) by (simp add: xfers_ok_def prefix_ok_def)
  have idx: "si_idx example_site = 0"
    by (simp add: example_site_def)
  have a: "allowed (Read ?m (si_idx example_site) example_request 8) example_world"
    by (simp add: example_world_def malloc_ok_def example_site_def example_request_def raw_disk_io_new_def)
  have q: "request_ok example_site example_request"
    by (simp add: request_ok_def read_valid_def example_request_def example_site_def piece_size_def
        example_storage_def ranges_storage_def)
  obtain m p where al: "allocate_buffer ?m (mem example_world) (read_buffer_pool example_world) = (Some 11, m, p)"
    by (simp add: allocate_buffer_def allocate_buffer_impl_def example_world_def raw_disk_io_new_def buffer_pool_init_def pool_simps)
  have n: "read_next (si_idx example_site) example_request 11 8 example_world = Some example_read"
    by (simp add: read_next_def idx example_world_def raw_disk_io_new_def store_buffer_init_def unaligned_def example_request_def)
  have pool: "read_thread_pool w2 = [example_read]"
    using r(2) by (simp add: example_reading_def)
  have x: "exec_t example_hasher (Load 0) (w2, [11 \<mapsto> ([], 7)]) = Inr (answered 0 storage_error_init w2, [11 \<mapsto> ([], 7)](11 := None))"
    using r(2) by (simp add: example_reading_def)
  have gone: "example_read \<notin> set (read_thread_pool (answered 0 storage_error_init w2))"
    by (simp add: answered_def Let_def post_ioc_def pool remove_at_def)
  have fin: "ioc (answered 0 storage_error_init w2) = ioc w2 @ [Complete (ReadDone 8 (Some 11) storage_error_init)]"
    "\<exists>blk. mem (answered 0 storage_error_init w2) 11 = Some blk \<and>
       (\<forall>k < nat (pr_length example_request). blk ! k = view example_site example_world (nth_cell example_request k) \<or>
         (\<exists>l \<in> set [Load 0, Load 0, Plain (Write (Some (9, replicate 16384 0)) 0 example_request [1, 2, 3, 4, 5, 6, 7] None 5), Load 0].
            t_effect example_site l (nth_cell example_request k) = Some (blk ! k)))"
    using reads_are_regular [OF inv a q al r(1) [folded idx] n r(3) _ _ x gone] pool by auto
  obtain blk where blk: "mem (answered 0 storage_error_init w2) 11 = Some blk"
    "blk ! 5 = view example_site example_world (0, 5) \<or> blk ! 5 = 6"
    using fin(2) by (auto simp: example_request_def nth_cell_def idx covers_def split: if_splits dest!: spec [of _ 5])
  have "view example_site example_world (0, 5) = 0"
    by (simp add: view_def disk_def example_world_def raw_disk_io_new_def store_buffer_init_def example_site_def example_os_def
        example_addr_def)
  then show ?thesis
    using x fin(1) blk by metis
qed

end
