(* ===== verification/Spec2Isabelle.thy ===== *)
theory Spec2Isabelle
  imports Disk_Hashes Disk_Backpressure Disk_Destroy Lifecycle Parts_View Disk_Errors
    Disk_Types Disk_Clear Disk_Schedule Deployment Regular_Reads
begin

text \<open>
  ezio deploys disk images over BitTorrent: a daemon adds torrents to a libtorrent session on request
  of a gRPC client, and a disk back end of its own writes the pieces straight to a partition, each file
  of the torrent being a range of the partition named by its offset. This development models the
  C++ code of ezio and proves it correct up to the libraries it calls.

  \<^bold>\<open>The parts and how they interact.\<close> \<open>main.cpp\<close> reads the command line (\<open>config\<close>), makes a session with
  the disk back end \<open>raw_disk_io\<close>, the daemon object \<open>ezio\<close>, the gRPC service and the two reporting
  threads (\<open>log\<close>), and waits for the daemon's shutdown flag, which the \<open>Shutdown\<close> call sets. libtorrent
  calls \<open>raw_disk_io\<close> on its network thread. A write is copied into a buffer of the write
  \<open>buffer_pool\<close>, entered into the \<open>store_buffer\<close> and posted to a pool of threads, which store it
  through \<open>partition_storage\<close>, erase it from the store buffer and post the completion to the io
  context. A read or a hash looks into the store buffer first and goes to the partition for what is
  not pending. The pool tells the client to stop above a watermark and wakes its observers at a lower one.

  \<^bold>\<open>Theories.\<close>
  \<^item> \<open>Prelude\<close>: C++ integer widths, results with undefined behaviour as a value, heap blocks, \<open>std::map\<close>
    as a sorted association list behind the locale \<open>emplace_map\<close>.
  \<^item> \<open>Polling\<close>: loops that poll a flag (locale \<open>poll_loop\<close>), for \<open>daemon::wait\<close> and the log threads.
  \<^item> \<open>Buffer_Pool\<close> (\<open>buffer_pool.hpp/.cpp\<close>): the record \<open>buffer_pool\<close> and its five methods, the
    contract \<open>buffer_allocator\<close> with its client lemmas, the abstract \<open>gate\<close> the pool refines, and
    reachable pools with accounting and wake-up lemmas.
  \<^item> \<open>Store_Buffer\<close> (\<open>store_buffer.hpp\<close>): locations, \<open>get\<close>, \<open>get2\<close>, \<open>insert\<close>, \<open>erase\<close>, the contract
    \<open>block_index\<close> that extends \<open>emplace_map\<close> by the pending writers.
  \<^item> \<open>Partition_Storage\<close> (class \<open>partition_storage\<close> of \<open>raw_disk_io.cpp\<close>): \<open>std::stoll\<close> in base 16, the
    loops of \<open>read\<close> and \<open>write\<close> over file slices on devices that may move fewer bytes than asked; where
    the bytes of a request lie on the partition; the 64-bit sum of file position and offset, whose overflow is undefined
    behaviour.
  \<^item> \<open>Raw_Disk_IO\<close> (\<open>raw_disk_io.hpp/.cpp\<close>): all methods of the disk back end and the bodies of the
    lambdas it posts, as functions on one record \<open>world\<close>.
  \<^item> \<open>Disk_Steps\<close>: the back end as a transition system over calls, job steps, io context steps and
    returns of buffers; the client's contract \<open>allowed\<close>; the invariant \<open>io_inv\<close>, and that calls keep it.
  \<^item> \<open>Disk_Safety\<close>: every step keeps the invariant; memory safety, accounting, bounds and slots.
  \<^item> \<open>Disk_Progress\<close>: handlers are conserved but for those of \<open>async_hash2\<close> and \<open>async_release_files\<close>,
    which the code drops; internal work terminates, and every handler kept is called.
  \<^item> \<open>Disk_View\<close>: what a client sees of a torrent's bytes, as a refinement to a plain byte store, by the
    locale \<open>write_behind\<close>; durability.
  \<^item> \<open>Disk_Backpressure\<close>: observers told to wait are told to go on, and how a failing \<open>malloc\<close> strands one. \<open>Disk_Destroy\<close>: the destructor, which
    joins the thread pools, and that it flushes.
  \<^item> \<open>Disk_Results\<close>, \<open>Disk_Hashes\<close>: what reads return and which bytes are hashed, under every
    interleaving.
  \<^item> \<open>Disk_Parts\<close>: the calls cut where they release a mutex, so that jobs run between the parts; the parts
    of a call make up the call, and memory safety holds for every interleaving of parts. \<open>Parts_View\<close>:
    the refinement to the byte store at this grain, a second instance of \<open>write_behind\<close>.
  \<^item> \<open>Disk_Transfers\<close>: the loops of \<open>read\<close> and \<open>write\<close> cut into their rounds, one file slice each, so that
    other threads run between two \<open>pread\<close> or \<open>pwrite\<close> calls of a job; the rounds make up the job, and every
    round is safe. \<open>Transfers_View\<close>: the refinement to the byte store with blocks half stored, a third instance of
    \<open>write_behind\<close>. \<open>Regular_Reads\<close>: what a read returns when writes to the same bytes overlap with it.
    \<open>Transfers_Progress\<close>: transfers end under every schedule, with the partition whole.
  \<^item> \<open>Disk_Schedule\<close>: for a client that writes every block once, two runs that make the same calls end with the
    same bytes whatever the order of the jobs. \<open>Disk_Errors\<close>: a handler gets an error only for the reason the source has for it.
    \<open>Disk_Types\<close>: the values of the state stay within the C++ types that hold them.
    \<open>Disk_Clear\<close>: the handler of \<open>async_clear_piece\<close> does not wait for the writes of the piece. \<open>Deployment\<close>: a
    client that writes every block of an image leaves the image on the partition.
  \<^item> \<open>Daemon\<close> (\<open>daemon.hpp/.cpp\<close>), \<open>Service\<close> (\<open>service.hpp/.cpp\<close>), \<open>Lifecycle\<close> (\<open>config\<close>, \<open>log\<close>,
    \<open>main\<close>): the operations of the daemon on a libtorrent session, the handlers of the service with
    their \<open>try\<close> blocks, the command line, the reporting loops and the end of the process. A call of libtorrent that
    changes the session returns its exception beside the session; the shutdown flag that the three polling threads read is
    the one left by the calls a running server has served.

  \<^bold>\<open>State and steps.\<close> Fields keep the source's names without the trailing underscore. A method is
  one function, and one step in \<open>Disk_Steps\<close>; in \<open>Disk_Parts\<close> a read, write or hash call that takes
  several mutexes in turn is one step for each; a posted lambda is a job value with what it captures, and its
  body is cut into steps where another thread can observe the difference: a write job stores, erases
  and completes in three steps, a hash job takes one step for each round of its loop, a read job is one
  step. In \<open>Disk_Transfers\<close> the reading and the storing of a job take one step for each file slice; a round of
  a hash job and the direct write of an \<open>async_write\<close> without a buffer remain one step each. Jobs of a pool start in order on eight threads, so
  one of the first eight of its queue runs. Undefined behaviour (null or freed pointers, bounds,
  assertions, empty functions) is an error value, and the safety theorem says that no step allowed by
  the client's contract yields it.

  \<^bold>\<open>Parameters.\<close> Code outside the repository is an argument: \<open>libtorrent::file_storage\<close>, the hasher, the
  session (\<open>lt_api\<close>), the option parser, \<open>malloc\<close>, what \<open>open\<close> returns, whether the gRPC server can be
  built. What the proofs need of them is a hypothesis of the theorem (\<open>fs_ok\<close>, \<open>storage_on\<close>,
  \<open>hasher_ok\<close>, \<open>malloc_ok\<close>, \<open>session_ok\<close>, \<open>flips_pause\<close>, \<open>adds_torrent\<close>), and each such theorem has a witness on concrete functions.

  \<^bold>\<open>Bounds.\<close> The counter of a pool is a 32 bit word compared as an unsigned 64 bit one, as in the
  source; offsets are wrapped at 32 bits where the source stores them, and a signed 64-bit sum
  that does not fit is the error \<open>SignedOverflow\<close>; \<open>fs_ok\<close>, the contract on the files of a torrent, excludes it, and
  \<open>ranges_fs_ok\<close> shows the contract for partition images that end below 2 ^ 63. Loops that poll a flag
  are \<open>partial_function (option)\<close>: a loop that does not end is \<open>None\<close>, and the theorems say when it
  ends. There is no fuel: the jobs are bounded by the measure \<open>work\<close>, their rounds by the order
  \<open>transfer_order\<close>.

  \<^bold>\<open>Not modelled.\<close> The floating point formatting of the log lines and the text written by the loggers;
  the gRPC runtime and the generated message classes beyond their fields; the Python utilities and the
  build files. Data races on \<open>storages_\<close> and \<open>free_slots_\<close>, which the source marks as needing a lock, are
  outside: \<open>new_torrent\<close> and \<open>remove_torrent\<close> are single steps.
\<close>

section \<open>Properties that span components\<close>

text \<open>C5: Read your writes: once \<open>async_write\<close> has accepted a whole block, the bytes seen for that request
  are the bytes written, after any further run that issues no other write to them, while the block is
  pending, while it is being stored, and when it is on the partition only. Every read issued then
  returns them, whether it finds them pending or goes to the partition.\<close>

theorem read_your_writes:
  assumes "view_inv si w" "client_step api si (Write mres (si_idx si) r data ob h) w w1"
    and "lruns (client_step api si) w1 ls w2" "\<forall>l \<in> set ls. \<forall>c. covers r c \<longrightarrow> effect si l c = None"
  shows "seen_bytes si w2 r = take (nat (pr_length r)) data"
proof -
  have wb: "whole_block si r" and len: "nat (pr_length r) \<le> length data"
    using assms(2) by (simp_all add: client_step_def)
  note v1 = wb.step_inv [OF assms(1,2)]
  have "view si w2 (nth_cell r k) = data ! k" if "k < nat (pr_length r)" for k
  proof -
    have c: "covers r (nth_cell r k)"
      using that wb by (auto simp: covers_def nth_cell_def whole_block_def)
    note ok = covers_cell_ok [OF wb c]
    have "view si w1 (nth_cell r k) = data ! k"
      using wb.step_seen [OF assms(1,2) ok] c by simp
    moreover have "view si w2 (nth_cell r k) = view si w1 (nth_cell r k)"
      by (rule wb.run_untouched [OF assms(3) v1 ok]) (use assms(4) c in blast)
    ultimately show ?thesis by simp
  qed
  then show ?thesis
    using len by (intro nth_equalityI) (simp_all add: seen_bytes_def)
qed

theorem read_your_writes_witness:
  "seen_bytes example_site example_written example_request = [1, 2, 3, 4, 5, 6, 7]"
proof -
  have "client_step example_hasher example_site
      (Write (Some (9, replicate 16384 0)) (si_idx example_site) example_request [1, 2, 3, 4, 5, 6, 7] None 5) example_world example_written"
    using example_client_step by (simp add: example_site_def)
  from read_your_writes [OF example_view_inv(1) this lruns.none] show ?thesis
    by (simp add: example_request_def)
qed

text \<open>C39: A \<open>Shutdown\<close> call ends the wait: whatever the service is asked, in batches \<open>calls n\<close> before the
  \<open>n\<close>-th poll, \<open>wait\<close> returns at the first poll after the batch with the first \<open>Shutdown\<close>, and never
  returns if there is none.\<close>

theorem shutdown_call_ends_wait:
  "wait (\<lambda>n. shutdown_flag (foldl (serve lt) (ezio_new s) (concat (map calls [0..<n])))) =
     (if \<exists>k. CallShutdown \<in> set (calls k) then Some (Suc (LEAST k. CallShutdown \<in> set (calls k))) else None)"
proof -
  define seen where "seen = (\<lambda>n. shutdown_flag (foldl (serve lt) (ezio_new s) (concat (map calls [0..<n]))))"
  have flag: "shutdown_flag (foldl (serve lt) d cs) \<longleftrightarrow> shutdown_flag d \<or> CallShutdown \<in> set cs" for d cs
    by (induction cs arbitrary: d) (auto simp: serve_flag)
  have seen: "seen n \<longleftrightarrow> (\<exists>k < n. CallShutdown \<in> set (calls k))" for n
    by (auto simp: seen_def flag ezio_new_def)
  show ?thesis
  proof (cases "\<exists>k. CallShutdown \<in> set (calls k)")
    case True
    define k where "k = (LEAST k. CallShutdown \<in> set (calls k))"
    have k: "CallShutdown \<in> set (calls k)" "\<And>i. CallShutdown \<in> set (calls i) \<Longrightarrow> k \<le> i"
      using LeastI_ex [OF True] Least_le by (auto simp: k_def)
    have "(LEAST n. seen n) = Suc k"
      by (rule Least_equality) (use k in \<open>auto simp: seen Suc_le_eq intro: le_less_trans\<close>)
    moreover have "\<exists>n. 0 \<le> n \<and> seen n"
      using k(1) by (auto simp: seen)
    ultimately show ?thesis
      using True wait_from_least [of 0 seen] by (simp add: wait_def seen_def [symmetric] k_def)
  next
    case False
    then have "\<forall>n. \<not> seen n" by (auto simp: seen)
    then show ?thesis
      using False by (simp add: wait_def wait_from_none seen_def [symmetric])
  qed
qed

end
